(* ===== verification/C_Base.thy ===== *)
theory C_Base
  imports Main "HOL-Library.Multiset"
begin

text \<open>
  The C machine the programs of this repository run on, as far as they use it: run-time
  faults, \<open>size_t\<close> arithmetic, objects allocated with \<open>malloc\<close> and arrays of slots, with the
  lemmas on lists and arrays the components share. Every other theory builds on this one.

  A computation that C leaves undefined is the value \<open>Inl fault\<close>. A call that may fail in a
  defined way (\<open>malloc\<close> returning \<open>NULL\<close>) takes its outcome from a script, a list of booleans
  that stands for the operating system; an exhausted script means success, so a finite script
  describes every finite run.
\<close>

section \<open>Faults and sequencing\<close>

datatype fault =
    NullDeref        \<comment> \<open>access through a null pointer\<close>
  | UseAfterFree     \<comment> \<open>access to an object that has been freed\<close>
  | DoubleFree       \<comment> \<open>\<open>free\<close> of an object that has been freed\<close>
  | OutOfBounds      \<comment> \<open>access outside an object\<close>
  | Uninitialised    \<comment> \<open>use of a slot that was never written\<close>
  | RangeError       \<comment> \<open>\<open>atoi\<close> of a value that is no \<open>int\<close>, signed overflow\<close>
  | ZeroSize         \<comment> \<open>\<open>realloc\<close> to zero bytes\<close>

type_synonym 'a res = "fault + 'a"

definition bindE :: "'a res \<Rightarrow> ('a \<Rightarrow> 'b res) \<Rightarrow> 'b res" where
  "bindE m f = (case m of Inl e \<Rightarrow> Inl e | Inr x \<Rightarrow> f x)"

lemma bindE_Inl [simp]: "bindE (Inl e) f = Inl e"
  and bindE_Inr [simp]: "bindE (Inr x) f = f x"
  by (simp_all add: bindE_def)

lemma bindE_eq_Inr_iff: "bindE m f = Inr y \<longleftrightarrow> (\<exists>x. m = Inr x \<and> f x = Inr y)"
  by (cases m) auto

lemma bindE_eq_InrE:
  assumes "bindE m f = Inr y"
  obtains x where "m = Inr x" and "f x = Inr y"
  using assms by (cases m) auto

lemma bindE_cong [fundef_cong]:
  assumes "m = m'" and "\<And>x. m' = Inr x \<Longrightarrow> f x = f' x"
  shows "bindE m f = bindE m' f'"
  using assms by (cases m') auto

text \<open>A \<open>for\<close> loop whose index list is known when the loop starts and that has no \<open>break\<close>.\<close>

fun foldE :: "('i \<Rightarrow> 's \<Rightarrow> 's res) \<Rightarrow> 'i list \<Rightarrow> 's \<Rightarrow> 's res" where
  "foldE f [] s = Inr s"
| "foldE f (x # xs) s = bindE (f x s) (foldE f xs)"

lemma bindE_return [simp]: "bindE m Inr = m"
  by (cases m) auto

lemma foldE_Nil_fun [simp]: "foldE f [] = Inr"
  by (rule ext) simp

lemma foldE_append: "foldE f (xs @ ys) s = bindE (foldE f xs s) (foldE f ys)"
  by (induction xs arbitrary: s) (auto simp: bindE_def split: sum.splits)

text \<open>A loop whose body cannot fault is a fold.\<close>

lemma foldE_Inr:
  assumes "\<And>x s. x \<in> set xs \<Longrightarrow> P s \<Longrightarrow> f x s = Inr (g x s)"
    and "\<And>x s. x \<in> set xs \<Longrightarrow> P s \<Longrightarrow> P (g x s)"
    and "P s"
  shows "foldE f xs s = Inr (fold g xs s)"
  using assms by (induction xs arbitrary: s) auto

section \<open>Sizes\<close>

text \<open>
  \<open>size_t\<close> is 64 bits wide and wraps around. An object is at most \<open>PTRDIFF_MAX\<close> bytes long:
  \<open>malloc\<close> and \<open>realloc\<close> refuse a larger request.
\<close>

definition SIZE_MOD :: nat where "SIZE_MOD = 2 ^ 64"
definition PTRDIFF_MAX :: nat where "PTRDIFF_MAX = 2 ^ 63 - 1"
definition PTR_SIZE :: nat where "PTR_SIZE = 8"
definition INT_SIZE :: nat where "INT_SIZE = 4"

definition size_mul :: "nat \<Rightarrow> nat \<Rightarrow> nat" where
  "size_mul a b = (a * b) mod SIZE_MOD"

definition size_add :: "nat \<Rightarrow> nat \<Rightarrow> nat" where
  "size_add a b = (a + b) mod SIZE_MOD"

definition size_dec :: "nat \<Rightarrow> nat" where
  "size_dec a = (a + (SIZE_MOD - 1)) mod SIZE_MOD"

lemma size_add_small: "a + b < SIZE_MOD \<Longrightarrow> size_add a b = a + b"
  by (simp add: size_add_def)

lemma size_mul_small: "a * b < SIZE_MOD \<Longrightarrow> size_mul a b = a * b"
  by (simp add: size_mul_def)

lemma size_dec_Suc: "Suc a < SIZE_MOD \<Longrightarrow> size_dec (Suc a) = a"
proof -
  assume "Suc a < SIZE_MOD"
  then have "Suc a + (SIZE_MOD - 1) = a + SIZE_MOD" by simp
  with \<open>Suc a < SIZE_MOD\<close> show ?thesis by (simp add: size_dec_def)
qed

lemma size_dec_pos: "0 < a \<Longrightarrow> a < SIZE_MOD \<Longrightarrow> size_dec a = a - 1"
  using size_dec_Suc [of "a - 1"] by simp

lemma PTRDIFF_MAX_less: "2 * PTRDIFF_MAX < SIZE_MOD"
  by (simp add: PTRDIFF_MAX_def SIZE_MOD_def)

section \<open>Allocation\<close>

fun next_outcome :: "bool list \<Rightarrow> bool \<times> bool list" where
  "next_outcome [] = (True, [])"
| "next_outcome (b # bs) = (b, bs)"

lemma next_outcome_exhausted [simp]: "next_outcome [] = (True, [])"
  by simp

text \<open>
  The outcome of a request for \<open>n\<close> bytes, and the rest of the script.
\<close>

definition try_alloc :: "bool list \<Rightarrow> nat \<Rightarrow> bool \<times> bool list" where
  "try_alloc sc n = (let (ok, sc') = next_outcome sc in (ok \<and> n \<le> PTRDIFF_MAX, sc'))"

subsection \<open>Objects of one struct type\<close>

text \<open>
  A store holds the objects of one type. The address of an object is its position, \<open>None\<close>
  marks a freed one; addresses are not reused, so a stale pointer never reaches a newer
  object by accident. Live objects occupy different bytes, so there are fewer than \<open>2 ^ 64\<close>.
\<close>

type_synonym addr = nat
type_synonym ptr = "addr option"  \<comment> \<open>\<open>None\<close> is \<open>NULL\<close>\<close>
type_synonym 'o store = "'o option list"

definition live_count :: "'o store \<Rightarrow> nat" where
  "live_count h = length (filter (\<lambda>c. c \<noteq> None) h)"

definition is_live :: "'o store \<Rightarrow> addr \<Rightarrow> bool" where
  "is_live h a \<longleftrightarrow> a < length h \<and> h ! a \<noteq> None"

definition obj :: "'o store \<Rightarrow> addr \<Rightarrow> 'o" where
  "obj h a = the (h ! a)"

definition hload :: "'o store \<Rightarrow> ptr \<Rightarrow> 'o res" where
  "hload h p =
     (case p of None \<Rightarrow> Inl NullDeref
      | Some a \<Rightarrow>
          if a < length h then (case h ! a of None \<Rightarrow> Inl UseAfterFree | Some x \<Rightarrow> Inr x)
          else Inl OutOfBounds)"

text \<open>\<open>p->field = v\<close> is \<open>hupd h p (\<lambda>o. o\<lparr>field := v\<rparr>)\<close>.\<close>

definition hupd :: "'o store \<Rightarrow> ptr \<Rightarrow> ('o \<Rightarrow> 'o) \<Rightarrow> 'o store res" where
  "hupd h p f = bindE (hload h p) (\<lambda>x. Inr (h[the p := Some (f x)]))"

definition hfree :: "'o store \<Rightarrow> ptr \<Rightarrow> 'o store res" where
  "hfree h p =
     (case p of None \<Rightarrow> Inr h
      | Some a \<Rightarrow>
          if a < length h then (case h ! a of None \<Rightarrow> Inl DoubleFree | Some _ \<Rightarrow> Inr (h[a := None]))
          else Inl OutOfBounds)"

text \<open>\<open>malloc\<close> of one object, written with its first contents.\<close>

definition halloc :: "bool list \<Rightarrow> 'o store \<Rightarrow> 'o \<Rightarrow> ptr \<times> 'o store \<times> bool list" where
  "halloc sc h x =
     (let (ok, sc') = next_outcome sc
      in if ok \<and> live_count h < SIZE_MOD - 1 then (Some (length h), h @ [Some x], sc')
         else (None, h, sc'))"

lemma hload_live [simp]: "is_live h a \<Longrightarrow> hload h (Some a) = Inr (obj h a)"
  by (auto simp: hload_def is_live_def obj_def)

lemma hload_None [simp]: "hload h None = Inl NullDeref"
  by (simp add: hload_def)

lemma hload_freed: "a < length h \<Longrightarrow> \<not> is_live h a \<Longrightarrow> hload h (Some a) = Inl UseAfterFree"
  by (auto simp: hload_def is_live_def)

lemma hupd_live [simp]: "is_live h a \<Longrightarrow> hupd h (Some a) f = Inr (h[a := Some (f (obj h a))])"
  by (simp add: hupd_def)

lemma hfree_live [simp]: "is_live h a \<Longrightarrow> hfree h (Some a) = Inr (h[a := None])"
  by (auto simp: hfree_def is_live_def)

lemma is_live_update [simp]:
  "is_live (h[a := Some x]) b \<longleftrightarrow> (if a = b then a < length h else is_live h b)"
  by (auto simp: is_live_def nth_list_update)

lemma is_live_update_None [simp]: "is_live (h[a := None]) b \<longleftrightarrow> a \<noteq> b \<and> is_live h b"
  by (cases "a = b") (auto simp: is_live_def)

lemma is_live_snoc [simp]: "is_live (h @ [Some x]) a \<longleftrightarrow> a = length h \<or> is_live h a"
  by (auto simp: is_live_def nth_append)

lemma is_live_less: "is_live h a \<Longrightarrow> a < length h"
  by (simp add: is_live_def)

lemma not_live_length [simp]: "\<not> is_live h (length h)"
  by (simp add: is_live_def)

lemma obj_update_same [simp]: "a < length h \<Longrightarrow> obj (h[a := Some x]) a = x"
  by (simp add: obj_def)

lemma obj_update_other [simp]: "a \<noteq> b \<Longrightarrow> obj (h[a := c]) b = obj h b"
  by (simp add: obj_def)

lemma obj_update: "obj (h[a := Some x]) b = (if a = b \<and> a < length h then x else obj h b)"
  by (cases "a = b") (auto simp: obj_def list_update_beyond)

lemma obj_snoc_new [simp]: "obj (h @ [Some x]) (length h) = x"
  by (simp add: obj_def)

lemma obj_snoc_old [simp]: "is_live h a \<Longrightarrow> obj (h @ [c]) a = obj h a"
  by (simp add: obj_def is_live_def nth_append)

lemma live_count_le:
  assumes "distinct as" and "\<forall>a\<in>set as. is_live h a"
  shows "length as \<le> live_count h"
proof -
  have "set as \<subseteq> {i. i < length h \<and> h ! i \<noteq> None}"
    using assms(2) by (auto simp: is_live_def)
  then have "card (set as) \<le> card {i. i < length h \<and> h ! i \<noteq> None}"
    by (rule card_mono [rotated]) simp
  with assms(1) show ?thesis
    by (simp add: distinct_card live_count_def length_filter_conv_card)
qed

lemma live_count_snoc [simp]: "live_count (h @ [Some x]) = Suc (live_count h)"
  by (simp add: live_count_def)

lemma live_count_free: "live_count (h[a := None]) \<le> live_count h"
proof (induction h arbitrary: a)
  case (Cons c h)
  then show ?case by (cases a) (auto simp: live_count_def le_SucI)
qed simp

lemma live_count_update: "is_live h a \<Longrightarrow> live_count (h[a := Some x]) = live_count h"
proof (induction h arbitrary: a)
  case (Cons c h)
  then show ?case by (cases a) (auto simp: live_count_def is_live_def)
qed simp

lemma halloc_ok: "live_count h + 1 < SIZE_MOD \<Longrightarrow> halloc [] h x = (Some (length h), h @ [Some x], [])"
  by (simp add: halloc_def)

lemma halloc_cases:
  obtains (fail) sc' where "halloc sc h x = (None, h, sc')"
  | (ok) sc' where "halloc sc h x = (Some (length h), h @ [Some x], sc')"
      and "live_count h < SIZE_MOD - 1"
  by (cases "next_outcome sc"; cases "fst (next_outcome sc) \<and> live_count h < SIZE_MOD - 1")
    (auto simp: halloc_def)

subsection \<open>Arrays of slots\<close>

text \<open>
  A heap array is its list of slots; \<open>None\<close> is a slot that has not been written. \<open>aread\<close>
  reads a value that is going to be used, \<open>araw\<close> copies a slot without using its value
  (copying an unspecified pointer is harmless on this machine, leaving the array is not).
\<close>

type_synonym 'a blk = "'a option list"

definition aread :: "'a blk \<Rightarrow> nat \<Rightarrow> 'a res" where
  "aread b i =
     (if i < length b then (case b ! i of None \<Rightarrow> Inl Uninitialised | Some x \<Rightarrow> Inr x)
      else Inl OutOfBounds)"

definition araw :: "'a blk \<Rightarrow> nat \<Rightarrow> 'a option res" where
  "araw b i = (if i < length b then Inr (b ! i) else Inl OutOfBounds)"

definition aput :: "'a blk \<Rightarrow> nat \<Rightarrow> 'a option \<Rightarrow> 'a blk res" where
  "aput b i v = (if i < length b then Inr (b[i := v]) else Inl OutOfBounds)"

definition awrite :: "'a blk \<Rightarrow> nat \<Rightarrow> 'a \<Rightarrow> 'a blk res" where
  "awrite b i x = aput b i (Some x)"

definition c_malloc_array :: "bool list \<Rightarrow> nat \<Rightarrow> nat \<Rightarrow> 'a blk option \<times> bool list" where
  "c_malloc_array sc elem bytes =
     (let (ok, sc') = try_alloc sc bytes
      in (if ok then Some (replicate (bytes div elem) None) else None, sc'))"

definition c_realloc :: "bool list \<Rightarrow> nat \<Rightarrow> 'a blk \<Rightarrow> nat \<Rightarrow> ('a blk option \<times> bool list) res" where
  "c_realloc sc elem b bytes =
     (if bytes = 0 then Inl ZeroSize
      else let (ok, sc') = try_alloc sc bytes; n = bytes div elem
           in Inr (if ok then Some (take n b @ replicate (n - length b) None) else None, sc'))"

text \<open>The constants of the machine, and with them an allocation that is evaluated.\<close>

lemmas size_defs = size_mul_def SIZE_MOD_def PTR_SIZE_def INT_SIZE_def PTRDIFF_MAX_def
lemmas alloc_defs = c_malloc_array_def try_alloc_def size_defs

text \<open>The slots \<open>0 ..< n\<close> hold the values \<open>xs\<close>.\<close>

definition holds :: "'a blk \<Rightarrow> 'a list \<Rightarrow> bool" where
  "holds b xs \<longleftrightarrow> take (length xs) b = map Some xs"

lemma holds_Nil [simp, intro]: "holds b []"
  by (simp add: holds_def)

lemma holds_length: "holds b xs \<Longrightarrow> length xs \<le> length b"
  unfolding holds_def by (metis length_map length_take min.absorb_iff1 min.commute)

lemma holds_nth: "holds b xs \<Longrightarrow> i < length xs \<Longrightarrow> i < length b \<and> b ! i = Some (xs ! i)"
  by (metis holds_def holds_length less_le_trans nth_map nth_take)

lemma holdsI:
  assumes "length xs \<le> length b" and "\<And>i. i < length xs \<Longrightarrow> b ! i = Some (xs ! i)"
  shows "holds b xs"
  unfolding holds_def using assms by (auto intro!: nth_equalityI)

lemma holds_iff:
  "holds b xs \<longleftrightarrow> length xs \<le> length b \<and> (\<forall>i<length xs. b ! i = Some (xs ! i))"
  by (auto intro: holdsI dest: holds_length holds_nth)

lemma aread_holds [simp]: "holds b xs \<Longrightarrow> i < length xs \<Longrightarrow> aread b i = Inr (xs ! i)"
  by (auto simp: aread_def dest: holds_nth)

lemma araw_less [simp]: "i < length b \<Longrightarrow> araw b i = Inr (b ! i)"
  by (simp add: araw_def)

lemma aput_less [simp]: "i < length b \<Longrightarrow> aput b i v = Inr (b[i := v])"
  by (simp add: aput_def)

lemma awrite_less [simp]: "i < length b \<Longrightarrow> awrite b i x = Inr (b[i := Some x])"
  by (simp add: awrite_def)

lemma holds_snoc: "holds b xs \<Longrightarrow> length xs < length b \<Longrightarrow> holds (b[length xs := Some x]) (xs @ [x])"
  by (auto simp: holds_iff nth_append nth_list_update less_Suc_eq)

lemma holds_update: "holds b xs \<Longrightarrow> i < length xs \<Longrightarrow> holds (b[i := Some x]) (xs[i := x])"
  by (auto simp: holds_iff nth_list_update)

lemma holds_take: "holds b xs \<Longrightarrow> holds b (take n xs)"
  by (auto simp: holds_iff)

lemma holds_append: "holds b xs \<Longrightarrow> holds (b @ c) xs"
  by (auto simp: holds_iff nth_append)

lemma holds_grow: "holds b xs \<Longrightarrow> length b \<le> n \<Longrightarrow> holds (take n b @ replicate (n - length b) None) xs"
  by (auto simp: holds_iff nth_append)


text \<open>A loop over the indices of an array is a loop over the values it holds.\<close>

lemma foldE_map: "foldE f (map g xs) s = foldE (\<lambda>x. f (g x)) xs s"
  by (induction xs arbitrary: s) (auto simp: bindE_def split: sum.splits)

lemma foldE_cong [fundef_cong]:
  "xs = ys \<Longrightarrow> s = t \<Longrightarrow> (\<And>x s. x \<in> set ys \<Longrightarrow> f x s = g x s) \<Longrightarrow> foldE f xs s = foldE g ys t"
  by (induction ys arbitrary: xs s t) (auto intro: bindE_cong)

lemma foldE_index:
  assumes "holds b xs"
  shows "foldE (\<lambda>i s. bindE (aread b i) (\<lambda>x. f x s)) [0..<length xs] s = foldE f xs s"
proof -
  have "foldE (\<lambda>i s. bindE (aread b i) (\<lambda>x. f x s)) [0..<length xs] s =
        foldE (\<lambda>i. f (xs ! i)) [0..<length xs] s"
    using assms by (intro foldE_cong) auto
  also have "\<dots> = foldE f (map ((!) xs) [0..<length xs]) s" by (simp add: foldE_map)
  finally show ?thesis by (simp add: map_nth)
qed

text \<open>The values of the first \<open>n\<close> slots of an array.\<close>

definition slots :: "'a blk \<Rightarrow> nat \<Rightarrow> 'a list" where
  "slots b n = map the (take n b)"

lemma slots_holds: "holds b xs \<Longrightarrow> slots b (length xs) = xs"
  by (simp add: slots_def holds_def comp_def)

lemma holds_slots: "n \<le> length b \<Longrightarrow> None \<notin> set (take n b) \<Longrightarrow> holds b (slots b n)"
proof (rule holdsI)
  assume "n \<le> length b" and some: "None \<notin> set (take n b)"
  then show "length (slots b n) \<le> length b" by (simp add: slots_def)
  fix i
  assume i: "i < length (slots b n)"
  then have "b ! i \<in> set (take n b)"
    using nth_mem [of i "take n b"] by (simp add: slots_def)
  with some have "b ! i \<noteq> None" by metis
  with i show "b ! i = Some (slots b n ! i)" by (auto simp: slots_def)
qed


text \<open>
  Doubling an array: \<open>realloc (items, 2 * cap * elem)\<close> for an array of \<open>cap\<close> elements that
  \<open>malloc\<close> has granted. Neither multiplication wraps around; the request is refused when the
  script says so or when it exceeds the largest object.
\<close>

lemma realloc_double_any:
  assumes "b \<noteq> []" and "0 < elem" and "length b * elem \<le> PTRDIFF_MAX"
  shows "size_mul (length b) 2 = 2 * length b"
    and "c_realloc sc elem b (size_mul (2 * length b) elem) =
           Inr (if fst (next_outcome sc) \<and> 2 * length b * elem \<le> PTRDIFF_MAX
                then Some (b @ replicate (length b) None) else None, snd (next_outcome sc))"
proof -
  have small: "2 * length b * elem < SIZE_MOD"
    using assms(3) PTRDIFF_MAX_less by (simp add: mult.assoc)
  have "length b * 2 \<le> 2 * length b * elem" using assms(2) by simp
  with small have "length b * 2 < SIZE_MOD" by linarith
  then show "size_mul (length b) 2 = 2 * length b" by (simp add: size_mul_small)
  have sz: "size_mul (2 * length b) elem = 2 * length b * elem"
    using small by (rule size_mul_small)
  have "2 * length b * elem div elem = 2 * length b" using assms(2) by simp
  moreover have "2 * length b * elem \<noteq> 0" using assms by simp
  ultimately show "c_realloc sc elem b (size_mul (2 * length b) elem) =
           Inr (if fst (next_outcome sc) \<and> 2 * length b * elem \<le> PTRDIFF_MAX
                then Some (b @ replicate (length b) None) else None, snd (next_outcome sc))"
    unfolding c_realloc_def sz try_alloc_def
    by (cases "next_outcome sc") (simp add: Let_def)
qed

lemma realloc_double:
  assumes "b \<noteq> []" and "0 < elem" and "2 * length b * elem \<le> PTRDIFF_MAX"
  shows "size_mul (length b) 2 = 2 * length b"
    and "c_realloc sc elem b (size_mul (2 * length b) elem) =
           Inr (if fst (next_outcome sc) then Some (b @ replicate (length b) None) else None, snd (next_outcome sc))"
  using realloc_double_any [OF assms(1,2)] assms(3) by auto

text \<open>
  A growing array: its block, its capacity, and the values it holds. When it is full, doubling it
  either gives a block with room that holds the same values, or is refused.
\<close>

definition block_rep :: "nat \<Rightarrow> 'a blk \<Rightarrow> nat \<Rightarrow> 'a list \<Rightarrow> bool" where
  "block_rep elem b cap xs \<longleftrightarrow> cap = length b \<and> holds b xs \<and> 0 < cap \<and> cap * elem \<le> PTRDIFF_MAX"

lemma block_rep_room: "block_rep elem b cap xs \<Longrightarrow> length xs \<le> cap \<and> length b = cap"
  by (auto simp: block_rep_def dest: holds_length)

lemma block_rep_small: "block_rep elem b cap xs \<Longrightarrow> 1 < elem \<Longrightarrow> Suc (length xs) < SIZE_MOD"
proof -
  assume rep: "block_rep elem b cap xs" and elem: "1 < elem"
  then have "length xs * 2 \<le> cap * elem" using block_rep_room [OF rep] by (intro mult_le_mono) auto
  with rep have "length xs * 2 \<le> PTRDIFF_MAX" by (auto simp: block_rep_def)
  then show ?thesis by (simp add: PTRDIFF_MAX_def SIZE_MOD_def)
qed

lemma block_rep_snoc:
  "block_rep elem b cap xs \<Longrightarrow> length xs < cap \<Longrightarrow> block_rep elem (b[length xs := Some x]) cap (xs @ [x])"
  by (auto simp: block_rep_def intro: holds_snoc)

lemma block_rep_aread: "block_rep elem b cap xs \<Longrightarrow> i < length xs \<Longrightarrow> aread b i = Inr (xs ! i)"
  by (auto simp: block_rep_def intro: aread_holds)

lemma block_double_cases:
  assumes rep: "block_rep elem b cap xs" and "0 < elem" and full: "\<not> length xs < cap"
  obtains (granted) "size_mul cap 2 = 2 * cap"
      and "c_realloc sc elem b (size_mul (2 * cap) elem) = Inr (Some (b @ replicate cap None), snd (next_outcome sc))"
      and "block_rep elem (b @ replicate cap None) (2 * cap) xs" and "length xs < 2 * cap" and "length xs = cap"
      and "2 * cap * elem \<le> PTRDIFF_MAX" and "fst (next_outcome sc)"
  | (refused) "size_mul cap 2 = 2 * cap" and "length xs = cap"
      and "c_realloc sc elem b (size_mul (2 * cap) elem) = Inr (None, snd (next_outcome sc))"
      and "\<not> (fst (next_outcome sc) \<and> 2 * cap * elem \<le> PTRDIFF_MAX)"
proof -
  have b: "b \<noteq> []" "cap = length b" "length b * elem \<le> PTRDIFF_MAX" "holds b xs" "length xs = cap"
    using rep full block_rep_room [OF rep] by (auto simp: block_rep_def)
  note dbl = realloc_double_any [OF b(1) assms(2) b(3)]
  show thesis
  proof (cases "fst (next_outcome sc) \<and> 2 * cap * elem \<le> PTRDIFF_MAX")
    case True
    with b dbl show thesis by (intro granted) (auto simp: block_rep_def intro: holds_append)
  next
    case False
    with b dbl show thesis by (intro refused) auto
  qed
qed

lemma foldE_invariant:
  assumes "foldE f xs s = Inr t" and "P s" and "\<And>x s t. x \<in> set xs \<Longrightarrow> P s \<Longrightarrow> f x s = Inr t \<Longrightarrow> P t"
  shows "P t"
  using assms by (induction xs arbitrary: s) (auto simp: bindE_eq_Inr_iff)

lemma find_SomeE:
  assumes "find P xs = Some x"
  obtains ys zs where "xs = ys @ x # zs" and "P x" and "\<forall>y\<in>set ys. \<not> P y"
  using assms
proof (induction xs arbitrary: thesis)
  case (Cons a xs)
  show ?case
  proof (cases "P a")
    case True
    with Cons.prems show ?thesis by (auto intro: Cons.prems(1) [of "[]"])
  next
    case False
    with Cons.prems(2) have "find P xs = Some x" by simp
    then obtain ys zs where "xs = ys @ x # zs" "P x" "\<forall>y\<in>set ys. \<not> P y"
      using Cons.IH by blast
    with False Cons.prems(1) [of "a # ys" zs] show ?thesis by simp
  qed
qed simp

lemma find_append_Some: "find P xs = Some x \<Longrightarrow> find P (xs @ ys) = Some x"
  by (induction xs) auto

lemma find_append_None: "find P xs = None \<Longrightarrow> find P (xs @ ys) = find P ys"
  by (induction xs) (auto split: if_splits)

lemma find_in_set: "find P xs = Some x \<Longrightarrow> x \<in> set xs \<and> P x"
  by (erule find_SomeE) auto


text \<open>
  Removal from an unordered array: the last element moves into the gap. When the gap is the
  last slot, the update is outside the shortened list and does nothing.
\<close>

definition swap_remove :: "'a list \<Rightarrow> nat \<Rightarrow> 'a list" where
  "swap_remove xs k = (butlast xs)[k := last xs]"

lemma length_swap_remove [simp]: "length (swap_remove xs k) = length xs - 1"
  by (simp add: swap_remove_def)

lemma mset_swap_remove:
  assumes "k < length xs"
  shows "mset (swap_remove xs k) = mset xs - {#xs ! k#}"
proof -
  obtain ys y where xs: "xs = ys @ [y]" using assms by (cases xs rule: rev_cases) auto
  show ?thesis
  proof (cases "k = length ys")
    case True
    then show ?thesis by (simp add: xs swap_remove_def list_update_beyond)
  next
    case False
    with assms xs have "k < length ys" by simp
    then show ?thesis by (simp add: xs swap_remove_def mset_update nth_append)
  qed
qed

lemma set_swap_remove: "set (swap_remove xs k) \<subseteq> set xs"
  unfolding swap_remove_def
  by (cases xs rule: rev_cases) (auto dest!: subsetD [OF set_update_subset_insert])

lemma distinct_swap_remove: "distinct xs \<Longrightarrow> distinct (swap_remove xs k)"
  by (cases xs rule: rev_cases) (auto simp: swap_remove_def intro: distinct_list_update)

lemma holds_swap_remove:
  assumes "holds b xs" and "k < length xs"
  shows "holds (b[k := b ! (length xs - 1)]) (swap_remove xs k)"
proof (rule holdsI)
  show "length (swap_remove xs k) \<le> length (b[k := b ! (length xs - 1)])"
    using holds_length [OF assms(1)] by simp
  fix i
  assume "i < length (swap_remove xs k)"
  then have i: "i < length xs - 1" by simp
  have b: "b ! j = Some (xs ! j)" "j < length b" if "j < length xs" for j
    using holds_nth [OF assms(1) that] by simp_all
  have "xs \<noteq> []" using assms(2) by auto
  then show "b[k := b ! (length xs - 1)] ! i = Some (swap_remove xs k ! i)"
    using i assms(2) b [of i] b [of k] b [of "length xs - 1"]
    by (cases "i = k") (auto simp: swap_remove_def nth_butlast last_conv_nth)
qed

end
