(* ===== verification/C_Strings.thy ===== *)
theory C_Strings
  imports C_Base
begin

text \<open>
  Strings. A \<open>char\<close> array is a list of characters (bytes); a C string in it runs from an
  offset to the first NUL and faults when there is none. A string that has been measured is
  a HOL string without its terminator. The decimal conversions follow the C standard:
  \<open>atoi\<close> skips white space, takes one sign and the digits, and is undefined for a value
  outside \<open>int\<close>.
\<close>

section \<open>NUL-terminated strings\<close>

abbreviation NUL :: char where "NUL \<equiv> CHR 0x00"
abbreviation SPACE :: char where "SPACE \<equiv> CHR 0x20"
abbreviation NEWLINE :: char where "NEWLINE \<equiv> CHR 0x0A"

definition c_str :: "char list \<Rightarrow> nat \<Rightarrow> string res" where
  "c_str buf off =
     (if NUL \<in> set (drop off buf) then Inr (takeWhile (\<lambda>c. c \<noteq> NUL) (drop off buf))
      else Inl OutOfBounds)"

text \<open>\<open>recv\<close> and \<open>memcpy\<close> into the start of a buffer, and a single store.\<close>

definition buf_write :: "char list \<Rightarrow> string \<Rightarrow> char list" where
  "buf_write buf s = s @ drop (length s) buf"

lemma length_buf_write [simp]: "length s \<le> length buf \<Longrightarrow> length (buf_write buf s) = length buf"
  by (simp add: buf_write_def)

lemma takeWhile_no_NUL: "NUL \<notin> set s \<Longrightarrow> takeWhile (\<lambda>c. c \<noteq> NUL) (s @ NUL # r) = s"
  by (induction s) auto

lemma c_str_terminated: "NUL \<notin> set s \<Longrightarrow> c_str (s @ NUL # r) 0 = Inr s"
  by (simp add: c_str_def takeWhile_no_NUL)

lemma c_str_no_NUL: "c_str buf off = Inr s \<Longrightarrow> NUL \<notin> set s"
  by (auto simp: c_str_def dest: set_takeWhileD split: if_splits)

lemma c_str_length: "c_str buf off = Inr s \<Longrightarrow> off + length s < length buf"
proof -
  assume "c_str buf off = Inr s"
  then have s: "s = takeWhile (\<lambda>c. c \<noteq> NUL) (drop off buf)" and "NUL \<in> set (drop off buf)"
    by (auto simp: c_str_def split: if_splits)
  then obtain xs ys where "drop off buf = xs @ NUL # ys" and "NUL \<notin> set xs"
    by (metis split_list_first)
  moreover from this have "s = xs"
    by (simp add: s takeWhile_no_NUL)
  ultimately have "length (drop off buf) = length s + 1 + length ys" by simp
  then show ?thesis by simp
qed

text \<open>\<open>strncmp (a, b, n) == 0\<close> for strings without NUL.\<close>

definition c_strneq :: "string \<Rightarrow> string \<Rightarrow> nat \<Rightarrow> bool" where
  "c_strneq a b n \<longleftrightarrow> take n a = take n b"

lemma c_strneq_prefix: "c_strneq (b @ r) b (length b)"
  by (simp add: c_strneq_def)

lemma c_strneq_refl [simp]: "c_strneq a a n"
  by (simp add: c_strneq_def)

text \<open>\<open>strndup\<close> and \<open>strdup\<close>: \<open>None\<close> is the null pointer of a failed allocation.\<close>

definition c_strndup :: "bool list \<Rightarrow> string \<Rightarrow> nat \<Rightarrow> string option \<times> bool list" where
  "c_strndup sc s n =
     (let (ok, sc') = next_outcome sc in (if ok then Some (take n s) else None, sc'))"

definition c_strdup :: "bool list \<Rightarrow> string \<Rightarrow> string option \<times> bool list" where
  "c_strdup sc s = (let (ok, sc') = next_outcome sc in (if ok then Some s else None, sc'))"

text \<open>
  \<open>sprintf\<close> of the text \<open>s\<close> into an automatic array of \<open>n\<close> bytes stores \<open>s\<close> and a NUL.
  What lies behind the array is up to the compiler: \<open>slack n\<close> bytes of padding that hold
  nothing else. The C standard promises none (\<open>slack = (\<lambda>_. 0)\<close>).
\<close>

definition sprintf_fits :: "(nat \<Rightarrow> nat) \<Rightarrow> nat \<Rightarrow> string \<Rightarrow> unit res" where
  "sprintf_fits slack n s =
     (if length s + 1 \<le> n + slack n then Inr () else Inl OutOfBounds)"

section \<open>Characters\<close>

definition byte :: "char \<Rightarrow> nat" where "byte c = of_char c"

definition c_isspace :: "char \<Rightarrow> bool" where
  "c_isspace c \<longleftrightarrow> byte c = 32 \<or> (9 \<le> byte c \<and> byte c \<le> 13)"

definition c_isdigit :: "char \<Rightarrow> bool" where
  "c_isdigit c \<longleftrightarrow> 48 \<le> byte c \<and> byte c \<le> 57"

lemma byte_less [simp]: "byte c < 256"
  by (simp add: byte_def)

lemma byte_char_of [simp]: "n < 256 \<Longrightarrow> byte (char_of n) = n"
  by (simp add: byte_def)

section \<open>Decimal numbers\<close>

definition INT_MAX :: int where "INT_MAX = 2147483647"
definition INT_MIN :: int where "INT_MIN = - 2147483648"

text \<open>An \<open>int\<close> or \<open>long\<close> that is stored into a \<open>size_t\<close>.\<close>

definition to_size :: "int \<Rightarrow> nat" where "to_size v = nat (v mod 2 ^ 64)"

fun digits_val :: "int \<Rightarrow> string \<Rightarrow> int" where
  "digits_val acc [] = acc"
| "digits_val acc (c # cs) =
     (if c_isdigit c then digits_val (10 * acc + (int (byte c) - 48)) cs else acc)"

definition atoi_val :: "string \<Rightarrow> int" where
  "atoi_val s =
     (case dropWhile c_isspace s of
        [] \<Rightarrow> 0
      | c # cs \<Rightarrow> if c = CHR ''-'' then - digits_val 0 cs
                  else if c = CHR ''+'' then digits_val 0 cs
                  else digits_val 0 (c # cs))"

definition c_atoi :: "string \<Rightarrow> int res" where
  "c_atoi s = (let v = atoi_val s in if INT_MIN \<le> v \<and> v \<le> INT_MAX then Inr v else Inl RangeError)"

text \<open>\<open>%zu\<close> and \<open>%d\<close>.\<close>

fun dec :: "nat \<Rightarrow> string" where
  "dec n = (if n < 10 then [char_of (n + 48)] else dec (n div 10) @ [char_of (n mod 10 + 48)])"

declare dec.simps [simp del]

definition dec_int :: "int \<Rightarrow> string" where
  "dec_int i = (if i < 0 then CHR ''-'' # dec (nat (- i)) else dec (nat i))"

lemma isdigit_char_of [simp]: "(n::nat) < 10 \<Longrightarrow> c_isdigit (char_of (n + 48))"
  by (simp add: c_isdigit_def)

lemma isdigit_not_special: "c_isdigit c \<Longrightarrow> \<not> c_isspace c \<and> c \<noteq> CHR ''-'' \<and> c \<noteq> CHR ''+'' \<and> c \<noteq> NUL"
  by (auto simp: c_isdigit_def c_isspace_def byte_def)

lemma dec_nonempty [simp]: "dec n \<noteq> []"
  by (subst dec.simps) simp

lemma dec_digits: "\<forall>c\<in>set (dec n). c_isdigit c"
proof (induction n rule: dec.induct)
  case (1 n)
  then show ?case by (cases "n < 10") (auto simp: dec.simps [of n])
qed

lemma digits_val_append:
  "\<forall>c\<in>set s. c_isdigit c \<Longrightarrow> digits_val acc (s @ r) = digits_val (digits_val acc s) r"
  by (induction s arbitrary: acc) auto

lemma digits_val_dec: "digits_val 0 (dec n) = int n"
proof (induction n rule: dec.induct)
  case (1 n)
  show ?case
  proof (cases "n < 10")
    case True
    then show ?thesis by (subst dec.simps) simp
  next
    case False
    then have "digits_val 0 (dec n) = 10 * int (n div 10) + int (n mod 10)"
      using "1.IH" dec_digits [of "n div 10"]
      by (simp add: dec.simps [of n] digits_val_append)
    then show ?thesis by presburger
  qed
qed

lemma digits_val_stop: "r = [] \<or> \<not> c_isdigit (hd r) \<Longrightarrow> digits_val acc r = acc"
  by (cases r) auto

text \<open>Reading back a printed number, up to the first character that is no digit.\<close>

lemma atoi_val_dec:
  assumes "r = [] \<or> \<not> c_isdigit (hd r)"
  shows "atoi_val (dec n @ r) = int n"
proof -
  obtain c cs where cs: "dec n = c # cs" by (cases "dec n") auto
  with dec_digits [of n] have "c_isdigit c" by auto
  then have "atoi_val (dec n @ r) = digits_val 0 (dec n @ r)"
    using cs isdigit_not_special [of c] by (simp add: atoi_val_def)
  also have "\<dots> = int n"
    using assms by (simp add: digits_val_append dec_digits digits_val_dec digits_val_stop)
  finally show ?thesis .
qed

lemma c_atoi_range: "c_atoi s = Inr v \<Longrightarrow> INT_MIN \<le> v \<and> v \<le> INT_MAX"
  by (auto simp: c_atoi_def Let_def split: if_splits)

lemma dec_bound: "n < 10 ^ k \<Longrightarrow> 0 < k \<Longrightarrow> length (dec n) \<le> k"
proof (induction n arbitrary: k rule: dec.induct)
  case (1 n)
  show ?case
  proof (cases "n < 10")
    case True
    with "1.prems" show ?thesis by (subst dec.simps) simp
  next
    case False
    from "1.prems" obtain j where k: "k = Suc j" by (cases k) auto
    with False "1.prems" have "0 < j" by (cases j) auto
    from k "1.prems" have "n div 10 < 10 ^ j" by (simp add: less_mult_imp_div_less mult.commute)
    with "1.IH" False \<open>0 < j\<close> have "length (dec (n div 10)) \<le> j" by blast
    with False k show ?thesis by (subst dec.simps) simp
  qed
qed

lemma dec_int_length: "INT_MIN \<le> i \<Longrightarrow> i \<le> INT_MAX \<Longrightarrow> length (dec_int i) \<le> 11"
proof -
  assume "INT_MIN \<le> i" and "i \<le> INT_MAX"
  then have "nat i < 10 ^ 10" and "nat (- i) < 10 ^ 10"
    by (auto simp: INT_MIN_def INT_MAX_def)
  then have "length (dec (nat i)) \<le> 10" and "length (dec (nat (- i))) \<le> 10"
    by (auto intro: dec_bound)
  then show ?thesis by (simp add: dec_int_def)
qed

end
