(* ===== verification/Posix.thy ===== *)
theory Posix
  imports C_Strings
begin

text \<open>
  The operating system as the programs see it. What a call returns is chosen by the
  environment and handed to the model as an argument (a script of results); what a program
  does to the outside is a trace of events. Text printed on the terminal is not part of the
  trace. \<open>recv\<close> with room for \<open>n\<close> bytes returns at most \<open>n\<close>; no bytes means the peer has
  closed the connection.
\<close>

datatype rx =
    RxData string   \<comment> \<open>bytes were received\<close>
  | RxEof           \<comment> \<open>\<open>recv\<close> returned 0\<close>
  | RxAgain         \<comment> \<open>\<open>recv\<close> returned -1 with \<open>EAGAIN\<close>\<close>
  | RxErr           \<comment> \<open>\<open>recv\<close> returned -1 with another error\<close>

fun recv_upto :: "nat \<Rightarrow> rx \<Rightarrow> rx" where
  "recv_upto n (RxData d) = (if take n d = [] then RxEof else RxData (take n d))"
| "recv_upto n r = r"

lemma recv_upto_data: "recv_upto n r = RxData d \<Longrightarrow> d \<noteq> [] \<and> length d \<le> n"
  by (cases r) (auto split: if_splits)

text \<open>The flag of \<open>fcntl\<close> that makes a descriptor non-blocking.\<close>

definition O_NONBLOCK :: int where "O_NONBLOCK = 2048"

datatype io =
    Send int string
  | Close int
  | EpollAdd int
  | EpollDel int

text \<open>The destinations a trace has sent a message to, in order.\<close>

fun sends :: "io list \<Rightarrow> (int \<times> string) list" where
  "sends [] = []"
| "sends (Send s m # es) = (s, m) # sends es"
| "sends (_ # es) = sends es"

lemma sends_append [simp]: "sends (xs @ ys) = sends xs @ sends ys"
  by (induction xs rule: sends.induct) auto

lemma sends_map_Send [simp]: "sends (map (\<lambda>s. Send s m) xs) = map (\<lambda>s. (s, m)) xs"
  by (induction xs) auto

text \<open>The messages of a trace for one destination.\<close>

definition sent_to :: "int \<Rightarrow> (int \<times> string) list \<Rightarrow> string list" where
  "sent_to k out = map snd (filter (\<lambda>(j, m). j = k) out)"

lemma sent_to_append: "sent_to k (xs @ ys) = sent_to k xs @ sent_to k ys"
  by (simp add: sent_to_def)

lemma sent_to_once: "distinct ks \<Longrightarrow> sent_to k (map (\<lambda>j. (j, m)) ks) = (if k \<in> set ks then [m] else [])"
  by (induction ks) (auto simp: sent_to_def)

section \<open>Reachable states\<close>

text \<open>
  The threads of a server interleave; a server is a step relation from its initial states.
\<close>

inductive reach :: "('s \<Rightarrow> bool) \<Rightarrow> ('s \<Rightarrow> 's \<Rightarrow> bool) \<Rightarrow> 's \<Rightarrow> bool" for init step where
  reach_init: "init s \<Longrightarrow> reach init step s"
| reach_step: "reach init step s \<Longrightarrow> step s t \<Longrightarrow> reach init step t"

text \<open>A buffer of \<open>size\<close> bytes is terminated at \<open>n\<close>: \<open>buf[n] = '\0'\<close>.\<close>

definition store_nul :: "(nat \<Rightarrow> nat) \<Rightarrow> nat \<Rightarrow> nat \<Rightarrow> unit res" where
  "store_nul slack bufsize n = (if n < bufsize + slack bufsize then Inr () else Inl OutOfBounds)"

lemma store_nul_ok [simp]: "n < bufsize \<Longrightarrow> store_nul slack bufsize n = Inr ()"
  by (simp add: store_nul_def)

end
