(* ===== verification/Interfaces.thy ===== *)
theory Interfaces
  imports Posix
begin

text \<open>
  The contracts the components have with each other, as locales: invariants of a server's
  step relation, the FIFO queue a worker pool hands its tasks through, the growing array
  every connection table is, and the refinement of an abstract machine by a server. A client's lemmas are proved here once, from the contract; the
  component that provides the operations interprets the locale on its own definitions.
\<close>

section \<open>Invariants of step relations\<close>

locale invariant_system =
  fixes init :: "'s \<Rightarrow> bool" and step :: "'s \<Rightarrow> 's \<Rightarrow> bool" and inv :: "'s \<Rightarrow> bool"
  assumes inv_init: "init s \<Longrightarrow> inv s"
    and inv_step: "inv s \<Longrightarrow> step s t \<Longrightarrow> inv t"
begin

lemma reach_inv: "reach init step s \<Longrightarrow> inv s"
  by (induction rule: reach.induct) (auto intro: inv_init inv_step)

lemma rtranclp_inv: "step\<^sup>*\<^sup>* s t \<Longrightarrow> inv s \<Longrightarrow> inv t"
  by (induction rule: rtranclp_induct) (auto intro: inv_step)

end

section \<open>FIFO queues\<close>

text \<open>
  A sequence of operations on a queue and what each of them returned. \<open>accepted\<close> are the
  values whose \<open>add\<close> returned 0, \<open>delivered\<close> the values a \<open>pop\<close> returned; the queue uses
  -1 to say that it is empty.
\<close>

datatype qop = QAdd int | QPop

fun run_queue ::
  "('s \<Rightarrow> int \<Rightarrow> (int \<times> 's) res) \<Rightarrow> ('s \<Rightarrow> (int \<times> 's) res) \<Rightarrow> qop list \<Rightarrow> 's
     \<Rightarrow> ((qop \<times> int) list \<times> 's) res" where
  "run_queue add pop [] s = Inr ([], s)"
| "run_queue add pop (op # ops) s =
     bindE (case op of QAdd v \<Rightarrow> add s v | QPop \<Rightarrow> pop s) (\<lambda>(r, t).
     bindE (run_queue add pop ops t) (\<lambda>(tr, u). Inr ((op, r) # tr, u)))"

fun accepted :: "(qop \<times> int) list \<Rightarrow> int list" where
  "accepted [] = []"
| "accepted ((QAdd v, r) # tr) = (if r = 0 then v # accepted tr else accepted tr)"
| "accepted ((QPop, r) # tr) = accepted tr"

fun delivered :: "(qop \<times> int) list \<Rightarrow> int list" where
  "delivered [] = []"
| "delivered ((QAdd v, r) # tr) = delivered tr"
| "delivered ((QPop, r) # tr) = (if r = - 1 then delivered tr else r # delivered tr)"

locale fifo =
  fixes inv :: "'s \<Rightarrow> bool" and items :: "'s \<Rightarrow> int list"
    and add :: "'s \<Rightarrow> int \<Rightarrow> (int \<times> 's) res" and pop :: "'s \<Rightarrow> (int \<times> 's) res"
  assumes add_total: "inv s \<Longrightarrow> \<exists>r t. add s v = Inr (r, t)"
    and add_inv: "inv s \<Longrightarrow> add s v = Inr (r, t) \<Longrightarrow> inv t"
    and add_items: "inv s \<Longrightarrow> add s v = Inr (r, t) \<Longrightarrow>
          r = 0 \<and> items t = items s @ [v] \<or> r = - 1 \<and> items t = items s"
    and pop_empty: "inv s \<Longrightarrow> items s = [] \<Longrightarrow> pop s = Inr (- 1, s)"
    and pop_cons: "inv s \<Longrightarrow> items s = v # vs \<Longrightarrow> \<exists>t. pop s = Inr (v, t) \<and> inv t \<and> items t = vs"
begin

lemma pop_total: "inv s \<Longrightarrow> \<exists>r t. pop s = Inr (r, t)"
  using pop_empty pop_cons by (cases "items s") (auto, blast)

lemma pop_inv:
  assumes "inv s" and "pop s = Inr (r, t)"
  shows "inv t" and "items s \<noteq> [] \<Longrightarrow> items s = r # items t"
  using assms pop_empty pop_cons by (cases "items s"; fastforce)+

lemma run_fifo:
  assumes "inv s" and "\<And>v. QAdd v \<in> set ops \<Longrightarrow> v \<noteq> - 1" and "- 1 \<notin> set (items s)"
  shows "\<exists>tr t. run_queue add pop ops s = Inr (tr, t) \<and> inv t \<and>
           items s @ accepted tr = delivered tr @ items t"
  using assms
proof (induction ops arbitrary: s)
  case Nil
  then show ?case by simp
next
  case (Cons op ops)
  show ?case
  proof (cases op)
    case (QAdd v)
    obtain r t where add: "add s v = Inr (r, t)" using add_total [OF Cons.prems(1)] by blast
    note facts = add_items [OF Cons.prems(1) add] add_inv [OF Cons.prems(1) add]
    with Cons.prems QAdd obtain tr u where
      "run_queue add pop ops t = Inr (tr, u)" "inv u" "items t @ accepted tr = delivered tr @ items u"
      using Cons.IH [of t] by fastforce
    with add facts QAdd show ?thesis by auto
  next
    case QPop
    show ?thesis
    proof (cases "items s")
      case Nil
      with Cons QPop show ?thesis using pop_empty [OF Cons.prems(1)] by fastforce
    next
      case (Cons v vs)
      obtain t where pop: "pop s = Inr (v, t)" "inv t" "items t = vs"
        using pop_cons [OF Cons.prems(1) Cons] by blast
      with Cons.prems Cons obtain tr u where
        "run_queue add pop ops t = Inr (tr, u)" "inv u" "items t @ accepted tr = delivered tr @ items u"
        using Cons.IH [of t] by fastforce
      with pop Cons QPop Cons.prems show ?thesis by auto
    qed
  qed
qed

end

section \<open>Growing arrays\<close>

text \<open>
  A table that is extended at the end, where an insertion may be refused: the refusal leaves
  either the table as it was or no table at all. \<open>roomy n\<close> says that the next \<open>n\<close> insertions find
  memory.
\<close>

fun run_adds :: "('s \<Rightarrow> 'x \<Rightarrow> (int \<times> 's) res) \<Rightarrow> 'x list \<Rightarrow> 's \<Rightarrow> (int list \<times> 's) res" where
  "run_adds add [] s = Inr ([], s)"
| "run_adds add (x # xs) s =
     bindE (add s x) (\<lambda>(r, t). bindE (run_adds add xs t) (\<lambda>(rs, u). Inr (r # rs, u)))"

locale growing_array =
  fixes inv :: "'s \<Rightarrow> bool" and items :: "'s \<Rightarrow> 'v list" and mk :: "'x \<Rightarrow> 'v"
    and roomy :: "nat \<Rightarrow> 's \<Rightarrow> bool"
    and add :: "'s \<Rightarrow> 'x \<Rightarrow> (int \<times> 's) res"
  assumes add_ok: "inv s \<Longrightarrow> roomy (Suc n) s \<Longrightarrow>
      \<exists>t. add s x = Inr (0, t) \<and> inv t \<and> roomy n t \<and> items t = items s @ [mk x]"
begin

lemma run_adds_ok:
  "inv s \<Longrightarrow> roomy (length xs) s \<Longrightarrow>
     \<exists>t. run_adds add xs s = Inr (replicate (length xs) 0, t) \<and> inv t \<and> roomy 0 t \<and> items t = items s @ map mk xs"
proof (induction xs arbitrary: s)
  case Nil
  then show ?case by simp
next
  case (Cons x xs)
  obtain t where "add s x = Inr (0, t)" "inv t" "roomy (length xs) t" "items t = items s @ [mk x]"
    using add_ok [of s "length xs" x] Cons.prems by auto
  with Cons.IH [of t] show ?case by auto
qed

end

section \<open>Refinement of an abstract machine\<close>

text \<open>
  An abstract machine admits some events in a state, and answers each with a new state and what it
  sends. \<open>spec_run\<close> is what it does with a list of events; \<open>steps_along\<close> is a run of an
  implementation over the same events.
\<close>

fun spec_run ::
  "('e \<Rightarrow> 'r \<Rightarrow> bool) \<Rightarrow> ('e \<Rightarrow> 'r \<Rightarrow> 'r \<times> 'o list) \<Rightarrow> 'e list \<Rightarrow> 'r \<Rightarrow> ('r \<times> 'o list) option" where
  "spec_run ok act [] r = Some (r, [])"
| "spec_run ok act (ev # evs) r =
     (if ok ev r
      then map_option (\<lambda>(r', out). (r', snd (act ev r) @ out)) (spec_run ok act evs (fst (act ev r)))
      else None)"

fun steps_along :: "('e \<Rightarrow> 's \<Rightarrow> 's \<Rightarrow> bool) \<Rightarrow> 'e list \<Rightarrow> 's \<Rightarrow> 's \<Rightarrow> bool" where
  "steps_along step [] s t \<longleftrightarrow> s = t"
| "steps_along step (ev # evs) s t \<longleftrightarrow> (\<exists>u. step ev s u \<and> steps_along step evs u t)"

lemma spec_run_ConsE:
  assumes "spec_run ok act (ev # evs) r = Some (r', out)"
  obtains out' where "ok ev r" and "spec_run ok act evs (fst (act ev r)) = Some (r', out')"
    and "out = snd (act ev r) @ out'"
  using assms by (auto split: if_splits)

lemma spec_run_keeps:
  assumes "spec_run ok act evs r = Some (r', out)" and "P r"
    and "\<And>ev r. P r \<Longrightarrow> ok ev r \<Longrightarrow> P (fst (act ev r))"
  shows "P r'"
  using assms(1,2)
proof (induction evs arbitrary: r out)
  case (Cons ev evs)
  from Cons.prems(1) show ?case by (rule spec_run_ConsE) (use Cons assms(3) in blast)
qed simp

text \<open>
  \<open>rel n\<close> relates the states while the implementation has resources for \<open>n\<close> more units of \<open>cost\<close>.
\<close>

locale simulation =
  fixes ok :: "'e \<Rightarrow> 'r \<Rightarrow> bool" and act :: "'e \<Rightarrow> 'r \<Rightarrow> 'r \<times> 'o list"
    and step :: "'e \<Rightarrow> 's \<Rightarrow> 's \<Rightarrow> bool" and sent :: "'s \<Rightarrow> 'o list"
    and rel :: "nat \<Rightarrow> 's \<Rightarrow> 'r \<Rightarrow> bool" and cost :: "'e \<Rightarrow> nat"
  assumes simulates: "rel (cost ev + n) s r \<Longrightarrow> ok ev r \<Longrightarrow>
      \<exists>t. step ev s t \<and> rel n t (fst (act ev r)) \<and> sent t = sent s @ snd (act ev r)"
begin

lemma run_simulates:
  "spec_run ok act evs r = Some (r', out) \<Longrightarrow> rel (sum_list (map cost evs) + n) s r \<Longrightarrow>
     \<exists>t. steps_along step evs s t \<and> rel n t r' \<and> sent t = sent s @ out"
proof (induction evs arbitrary: r out s)
  case (Cons ev evs)
  from Cons.prems(1) obtain out' where ok: "ok ev r" and rest: "spec_run ok act evs (fst (act ev r)) = Some (r', out')"
    and out: "out = snd (act ev r) @ out'"
    by (rule spec_run_ConsE)
  from Cons.prems(2) have "rel (cost ev + (sum_list (map cost evs) + n)) s r" by (simp add: add.assoc)
  from simulates [OF this ok] obtain t where
    t: "step ev s t" "rel (sum_list (map cost evs) + n) t (fst (act ev r))" "sent t = sent s @ snd (act ev r)" by blast
  from Cons.IH [OF rest t(2)] t(1,3) out show ?case by auto
qed simp

end

end
