(* ===== verification/Linked_Queue.thy ===== *)
theory Linked_Queue
  imports Interfaces
begin

text \<open>
  \<^verbatim>\<open>networking/epoll_example/queue.c\<close>: a doubly linked FIFO queue of \<open>int\<close>s on the heap.
  \<open>head\<close> is the oldest node; \<open>prev\<close> leads from the head towards the tail, \<open>next\<close> back
  towards the head. The model keeps the nodes in a store and the three fields of the
  \<open>Queue\<close> object; \<open>queue_rep\<close> says which nodes make up the queue, and the operations are
  shown to be those of a list that is extended at the end and read at the front.
\<close>

section \<open>Data and operations\<close>

record Node =
  n_value :: int
  n_next :: ptr
  n_prev :: ptr

record Queue =
  q_head :: ptr
  q_tail :: ptr
  q_size :: nat

text \<open>The queue object with the memory its nodes live in and the allocator's script.\<close>

record qmem =
  q_nodes :: "Node store"
  q_obj :: Queue
  q_script :: "bool list"

definition create_node :: "qmem \<Rightarrow> int \<Rightarrow> ptr \<times> qmem" where
  "create_node m v =
     (let (n, h, sc) = halloc (q_script m) (q_nodes m) \<lparr>n_value = v, n_next = None, n_prev = None\<rparr>
      in (n, m\<lparr>q_nodes := h, q_script := sc\<rparr>))"

definition queue_init :: "qmem \<Rightarrow> qmem" where
  "queue_init m = m\<lparr>q_obj := (q_obj m)\<lparr>q_size := 0, q_head := None, q_tail := None\<rparr>\<rparr>"

definition queue_add :: "qmem \<Rightarrow> int \<Rightarrow> (int \<times> qmem) res" where
  "queue_add m0 v =
     (let (n, m) = create_node m0 v; q = q_obj m
      in if n = None then Inr (- 1, m)
         else bindE
           (if q_size q = 0 then Inr (q_nodes m, q\<lparr>q_head := n, q_tail := n\<rparr>)
            else bindE (hupd (q_nodes m) n (\<lambda>x. x\<lparr>n_next := q_tail q\<rparr>)) (\<lambda>h.
                 bindE (hupd h (q_tail q) (\<lambda>x. x\<lparr>n_prev := n\<rparr>)) (\<lambda>h.
                 Inr (h, q\<lparr>q_tail := n\<rparr>))))
           (\<lambda>(h, q'). Inr (0, m\<lparr>q_nodes := h, q_obj := q'\<lparr>q_size := size_add (q_size q') 1\<rparr>\<rparr>)))"

definition queue_pop :: "qmem \<Rightarrow> (int \<times> qmem) res" where
  "queue_pop m =
     (let q = q_obj m; n = q_head q
      in if q_size q = 0 then Inr (- 1, m)
         else
           bindE (hload (q_nodes m) n) (\<lambda>nd.
           bindE (let q' = q\<lparr>q_head := n_prev nd\<rparr>
                  in if q_head q' \<noteq> None
                     then bindE (hupd (q_nodes m) (q_head q') (\<lambda>x. x\<lparr>n_next := None\<rparr>)) (\<lambda>h. Inr (h, q'))
                     else Inr (q_nodes m, q'\<lparr>q_head := None, q_tail := None\<rparr>)) (\<lambda>(h, q').
           bindE (hfree h n) (\<lambda>h'.
           Inr (n_value nd, m\<lparr>q_nodes := h', q_obj := q'\<lparr>q_size := size_dec (q_size q')\<rparr>\<rparr>)))))"

section \<open>Well-formed queues\<close>

text \<open>
  \<open>dll h nx as\<close>: the nodes at the addresses \<open>as\<close> are linked in this order, the first one
  pointing back to \<open>nx\<close> and the last one ending the chain.
\<close>

fun dll :: "Node store \<Rightarrow> ptr \<Rightarrow> addr list \<Rightarrow> bool" where
  "dll h nx [] = True"
| "dll h nx (a # as) =
     (is_live h a \<and> n_next (obj h a) = nx \<and>
      n_prev (obj h a) = (case as of [] \<Rightarrow> None | b # _ \<Rightarrow> Some b) \<and> dll h (Some a) as)"

definition queue_rep :: "qmem \<Rightarrow> addr list \<Rightarrow> bool" where
  "queue_rep m as \<longleftrightarrow>
     distinct as \<and> dll (q_nodes m) None as \<and> q_size (q_obj m) = length as \<and>
     q_head (q_obj m) = (if as = [] then None else Some (hd as)) \<and>
     q_tail (q_obj m) = (if as = [] then None else Some (last as)) \<and>
     length as < SIZE_MOD"

text \<open>The addresses from the head on, found by following \<open>prev\<close>.\<close>

fun chain :: "Node store \<Rightarrow> ptr \<Rightarrow> nat \<Rightarrow> addr list" where
  "chain h None n = []"
| "chain h p 0 = []"
| "chain h (Some a) (Suc n) = a # chain h (n_prev (obj h a)) n"

definition queue_addrs :: "qmem \<Rightarrow> addr list" where
  "queue_addrs m = chain (q_nodes m) (q_head (q_obj m)) (q_size (q_obj m))"

definition queue_items :: "qmem \<Rightarrow> int list" where
  "queue_items m = map (\<lambda>a. n_value (obj (q_nodes m) a)) (queue_addrs m)"

definition queue_ok :: "qmem \<Rightarrow> bool" where
  "queue_ok m \<longleftrightarrow> queue_rep m (queue_addrs m)"

lemma dll_live: "dll h nx as \<Longrightarrow> a \<in> set as \<Longrightarrow> is_live h a"
  by (induction as arbitrary: nx) auto

lemma dll_cong:
  "(\<And>a. a \<in> set as \<Longrightarrow> is_live h' a \<and> obj h' a = obj h a) \<Longrightarrow> dll h nx as \<Longrightarrow> dll h' nx as"
  by (induction as arbitrary: nx) auto

lemma dll_snoc:
  assumes "dll h nx as" and "as \<noteq> []" and "distinct as" and "n \<notin> set as"
    and "is_live h n" and "n_next (obj h n) = Some (last as)" and "n_prev (obj h n) = None"
  shows "dll (h[last as := Some ((obj h (last as))\<lparr>n_prev := Some n\<rparr>)]) nx (as @ [n])"
  using assms
proof (induction as arbitrary: nx)
  case Nil
  then show ?case by simp
next
  case (Cons a as)
  show ?case
  proof (cases "as = []")
    case True
    with Cons.prems show ?thesis by (auto dest: is_live_less)
  next
    case False
    with Cons have "dll (h[last as := Some ((obj h (last as))\<lparr>n_prev := Some n\<rparr>)]) (Some a) (as @ [n])"
      by simp
    moreover from False have "last as \<in> set as" by simp
    moreover from this Cons.prems have "last as \<noteq> a" by auto
    moreover obtain b bs where "as = b # bs" using False by (cases as) auto
    ultimately show ?thesis using Cons.prems by auto
  qed
qed

lemma dll_set_next:
  assumes "dll h nx (b # bs)" and "b \<notin> set bs"
  shows "dll (h[b := Some ((obj h b)\<lparr>n_next := nx'\<rparr>)]) nx' (b # bs)"
proof -
  let ?h = "h[b := Some ((obj h b)\<lparr>n_next := nx'\<rparr>)]"
  have "dll ?h (Some b) bs"
    using assms by (intro dll_cong [of bs ?h h "Some b"]) (auto dest: dll_live)
  with assms show ?thesis by (auto dest: is_live_less)
qed

lemma chain_dll:
  "dll h nx as \<Longrightarrow> p = (case as of [] \<Rightarrow> None | a # _ \<Rightarrow> Some a) \<Longrightarrow> chain h p (length as) = as"
  by (induction as arbitrary: nx p) (auto split: list.splits)

lemma queue_rep_addrs: "queue_rep m as \<Longrightarrow> queue_addrs m = as"
  unfolding queue_rep_def queue_addrs_def
  by (rule trans [OF _ chain_dll [of "q_nodes m" None as]]) (auto split: list.splits)

lemma queue_rep_ok: "queue_rep m as \<Longrightarrow> queue_ok m"
  by (simp add: queue_ok_def queue_rep_addrs)

lemma queue_rep_items: "queue_rep m as \<Longrightarrow> queue_items m = map (\<lambda>a. n_value (obj (q_nodes m) a)) as"
  by (simp add: queue_items_def queue_rep_addrs)

section \<open>The operations on well-formed queues\<close>

lemma queue_init_rep: "queue_rep (queue_init m) []"
  by (simp add: queue_rep_def queue_init_def SIZE_MOD_def)

lemma create_node_cases:
  obtains (fail) sc where "create_node m v = (None, m\<lparr>q_script := sc\<rparr>)"
  | (ok) sc where "create_node m v = (Some (length (q_nodes m)),
        m\<lparr>q_nodes := q_nodes m @ [Some \<lparr>n_value = v, n_next = None, n_prev = None\<rparr>], q_script := sc\<rparr>)"
      and "live_count (q_nodes m) < SIZE_MOD - 1"
  by (rule halloc_cases [of "q_script m" "q_nodes m" "\<lparr>n_value = v, n_next = None, n_prev = None\<rparr>"])
    (auto simp: create_node_def)

text \<open>
  A successful \<open>queue_add\<close>: the new node is the next free address and goes to the end of
  the chain.
\<close>

lemma queue_add_rep:
  assumes rep: "queue_rep m as" and ok: "create_node m v = (Some n, m')"
  shows "\<exists>m''. queue_add m v = Inr (0, m'') \<and> queue_rep m'' (as @ [n]) \<and>
           queue_items m'' = queue_items m @ [v]"
proof -
  let ?nd = "\<lparr>n_value = v, n_next = None, n_prev = None\<rparr>"
  let ?h = "q_nodes m @ [Some ?nd]"
  from ok obtain sc where n: "n = length (q_nodes m)"
    and m': "m' = m\<lparr>q_nodes := ?h, q_script := sc\<rparr>" and lim: "live_count (q_nodes m) < SIZE_MOD - 1"
    by (cases rule: create_node_cases [of m v]) auto
  from rep have dis: "distinct as" and dll: "dll (q_nodes m) None as"
    and live: "\<forall>a\<in>set as. is_live (q_nodes m) a"
    by (auto simp: queue_rep_def dest: dll_live)
  have len: "Suc (length as) < SIZE_MOD"
    using live_count_le [OF dis live] lim by simp
  have new: "n \<notin> set as" using live n by auto
  show ?thesis
  proof (cases "as = []")
    case True
    with rep ok len n m' show ?thesis
      by (auto simp: queue_add_def queue_rep_def queue_items_def queue_addrs_def size_add_small)
  next
    case False
    let ?h1 = "?h[n := Some (?nd\<lparr>n_next := Some (last as)\<rparr>)]"
    let ?h2 = "?h1[last as := Some ((obj ?h1 (last as))\<lparr>n_prev := Some n\<rparr>)]"
    let ?m2 = "m'\<lparr>q_nodes := ?h2, q_obj := (q_obj m)\<lparr>q_tail := Some n, q_size := Suc (length as)\<rparr>\<rparr>"
    have old: "is_live ?h1 a \<and> obj ?h1 a = obj (q_nodes m) a" if "a \<in> set as" for a
      using that live new n by (auto simp del: list_update_append)
    have "dll ?h1 None as" by (rule dll_cong [OF old dll])
    then have "dll ?h2 None (as @ [n])"
      by (rule dll_snoc) (use False dis new n in \<open>auto simp del: list_update_append\<close>)
    then have rep2: "queue_rep ?m2 (as @ [n])"
      using rep len False dis new by (simp add: queue_rep_def)
    have last: "last as \<in> set as" using False by simp
    have add: "queue_add m v = Inr (0, ?m2)"
      using rep ok len False old [OF last] n m'
      by (simp add: queue_add_def queue_rep_def size_add_small del: list_update_append)
    have "n_value (obj ?h2 a) = n_value (obj (q_nodes m) a)" if "a \<in> set as" for a
      using old [OF that] old [OF last] by (simp add: obj_update del: list_update_append)
    moreover have "n_value (obj ?h2 n) = v"
      using new last n by (cases "n = last as") (auto simp del: list_update_append)
    ultimately have "queue_items ?m2 = queue_items m @ [v]"
      using queue_rep_items [OF rep] queue_rep_items [OF rep2] by simp
    with add rep2 show ?thesis by blast
  qed
qed

lemma queue_add_fail:
  assumes "create_node m v = (None, m')"
  shows "queue_add m v = Inr (- 1, m')"
  using assms by (simp add: queue_add_def)

lemma queue_pop_empty: "queue_rep m [] \<Longrightarrow> queue_pop m = Inr (- 1, m)"
  by (simp add: queue_pop_def queue_rep_def)

lemma queue_pop_rep:
  assumes rep: "queue_rep m (a # as)"
  shows "\<exists>m'. queue_pop m = Inr (n_value (obj (q_nodes m) a), m') \<and> queue_rep m' as \<and>
           queue_items m' = tl (queue_items m) \<and> \<not> is_live (q_nodes m') a"
proof -
  let ?h = "q_nodes m"
  from rep have live: "is_live ?h a" and tl: "dll ?h (Some a) as" and new: "a \<notin> set as"
    and dis: "distinct as" and dec: "size_dec (Suc (length as)) = length as"
    by (auto simp: queue_rep_def size_dec_Suc)
  show ?thesis
  proof (cases as)
    case Nil
    with rep live dec show ?thesis
      by (auto simp: queue_pop_def queue_rep_def queue_items_def queue_addrs_def dest: is_live_less)
  next
    case (Cons b bs)
    let ?h1 = "?h[b := Some ((obj ?h b)\<lparr>n_next := None\<rparr>)]"
    let ?h2 = "?h1[a := None]"
    let ?m2 = "m\<lparr>q_nodes := ?h2, q_obj := (q_obj m)\<lparr>q_head := Some b, q_size := length as\<rparr>\<rparr>"
    have ab: "a \<noteq> b" and b: "is_live ?h b" using new tl Cons by auto
    have "dll ?h1 None as" using dll_set_next [of ?h "Some a" b bs None] tl dis Cons by simp
    then have "dll ?h2 None as"
    proof (rule dll_cong [rotated])
      fix c assume "c \<in> set as"
      moreover from this new have "a \<noteq> c" by auto
      ultimately show "is_live ?h2 c \<and> obj ?h2 c = obj ?h1 c"
        using tl dll_live [of ?h "Some a" as c] b by (simp add: is_live_less)
    qed
    then have rep2: "queue_rep ?m2 as"
      using rep Cons by (simp add: queue_rep_def)
    have pop: "queue_pop m = Inr (n_value (obj ?h a), ?m2)"
      using rep Cons live b ab dec by (simp add: queue_pop_def queue_rep_def)
    have "n_value (obj ?h2 c) = n_value (obj ?h c)" if "c \<in> set as" for c
    proof -
      have "a \<noteq> c" using that new by auto
      then show ?thesis by (simp add: obj_update)
    qed
    then have "queue_items ?m2 = tl (queue_items m)"
      using queue_rep_items [OF rep] queue_rep_items [OF rep2] by simp
    with pop rep2 show ?thesis by (auto intro!: exI [of _ ?m2])
  qed
qed


section \<open>The queue as a FIFO\<close>

lemma queue_ok_rep: "queue_ok m \<Longrightarrow> queue_rep m (queue_addrs m)"
  by (simp add: queue_ok_def)

lemma queue_ok_init [simp]: "queue_ok (queue_init m)"
  by (rule queue_rep_ok [OF queue_init_rep])

lemma queue_items_init [simp]: "queue_items (queue_init m) = []"
  by (simp add: queue_rep_items [OF queue_init_rep])

lemma queue_rep_script [simp]: "queue_rep (m\<lparr>q_script := sc\<rparr>) as = queue_rep m as"
  by (simp add: queue_rep_def)

lemma queue_script_simps [simp]:
  "queue_ok (m\<lparr>q_script := sc\<rparr>) = queue_ok m" "queue_items (m\<lparr>q_script := sc\<rparr>) = queue_items m"
  by (simp_all add: queue_ok_def queue_addrs_def queue_items_def)

lemma queue_add_spec:
  assumes "queue_ok m"
  shows "\<exists>r m'. queue_add m v = Inr (r, m') \<and> queue_ok m' \<and>
           (r = 0 \<and> queue_items m' = queue_items m @ [v] \<or> r = - 1 \<and> queue_items m' = queue_items m)"
proof (cases rule: create_node_cases [of m v])
  case (fail sc)
  then show ?thesis using assms queue_add_fail [OF fail] by simp
next
  case (ok sc)
  then show ?thesis using queue_add_rep [OF queue_ok_rep [OF assms] ok(1)] queue_rep_ok by blast
qed

lemma queue_pop_spec:
  assumes "queue_ok m" and "queue_items m = v # vs"
  shows "\<exists>m'. queue_pop m = Inr (v, m') \<and> queue_ok m' \<and> queue_items m' = vs"
proof -
  from assms(2) obtain a as where as: "queue_addrs m = a # as" and v: "v = n_value (obj (q_nodes m) a)"
    by (cases "queue_addrs m") (auto simp: queue_items_def)
  with assms(1) have "queue_rep m (a # as)" using queue_ok_rep by metis
  from queue_pop_rep [OF this] assms(2) v show ?thesis by (auto intro: queue_rep_ok)
qed

lemma queue_pop_spec_empty:
  assumes "queue_ok m" and "queue_items m = []"
  shows "queue_pop m = Inr (- 1, m)"
  using assms queue_ok_rep [OF assms(1)] by (simp add: queue_items_def queue_pop_empty)

interpretation lq: fifo queue_ok queue_items queue_add queue_pop
proof unfold_locales
  fix m v r m'
  assume ok: "queue_ok m"
  note spec = queue_add_spec [OF ok, of v]
  then show "\<exists>r t. queue_add m v = Inr (r, t)" by blast
  assume "queue_add m v = Inr (r, m')"
  with spec show "queue_ok m'"
    and "r = 0 \<and> queue_items m' = queue_items m @ [v] \<or> r = - 1 \<and> queue_items m' = queue_items m"
    by auto
qed (use queue_pop_spec_empty queue_pop_spec in blast)+

text \<open>\<^verbatim>\<open>tests/test_queue.c\<close>: five values go in and come out in the same order.\<close>

fun pops_match :: "int list \<Rightarrow> qmem \<Rightarrow> bool res" where
  "pops_match [] m = Inr (q_size (q_obj m) = 0)"
| "pops_match (v # vs) m =
     (if q_size (q_obj m) = 0 then Inr False
      else bindE (queue_pop m) (\<lambda>(r, m'). if r = v then pops_match vs m' else Inr False))"

definition test_queue :: "qmem \<Rightarrow> bool res" where
  "test_queue m0 =
     (let m = queue_init m0; values = [1, 2, 3, 4, 5]
      in if q_size (q_obj m) \<noteq> 0 then Inr False
         else bindE (foldE (\<lambda>v m. bindE (queue_add m v) (\<lambda>(_, m'). Inr m')) values m) (\<lambda>m.
              if q_size (q_obj m) \<noteq> length values then Inr False else pops_match values m))"

definition empty_mem :: "bool list \<Rightarrow> qmem" where
  "empty_mem sc = \<lparr>q_nodes = [], q_obj = \<lparr>q_head = None, q_tail = None, q_size = 0\<rparr>, q_script = sc\<rparr>"

lemma queue_size: "queue_ok m \<Longrightarrow> q_size (q_obj m) = length (queue_items m)"
  by (simp add: queue_ok_def queue_rep_def queue_items_def)

section \<open>Properties\<close>

text \<open>
  C4: In any sequence of \<open>queue_add\<close> and \<open>queue_pop\<close> calls on a freshly initialised queue,
  whatever \<open>malloc\<close> does, no call faults, the linked structure stays well formed, and the
  values handed out followed by the values still queued are exactly the accepted values in
  their order: nothing is lost, duplicated or reordered.
\<close>

theorem queue_is_fifo:
  assumes "\<And>v. QAdd v \<in> set ops \<Longrightarrow> v \<noteq> - 1"
  shows "\<exists>tr m'. run_queue queue_add queue_pop ops (queue_init m) = Inr (tr, m') \<and> queue_ok m' \<and>
           accepted tr = delivered tr @ queue_items m'"
  using lq.run_fifo [of "queue_init m" ops] assms by simp

theorem queue_is_fifo_witness:
  "\<exists>tr m'. run_queue queue_add queue_pop [QAdd 7, QPop, QAdd 9] (queue_init (empty_mem [])) = Inr (tr, m') \<and>
     queue_ok m' \<and> accepted tr = delivered tr @ queue_items m'"
  by (rule queue_is_fifo) auto

text \<open>
  \<open>queue_pop\<close> on a non-empty well-formed queue returns the oldest value, removes exactly
  it, leaves a well-formed queue, and the removed head node has been freed.
\<close>

theorem queue_pop_head:
  assumes "queue_rep m (a # as)"
  shows "\<exists>m'. queue_pop m = Inr (hd (queue_items m), m') \<and> queue_rep m' as \<and>
           queue_items m' = tl (queue_items m) \<and> \<not> is_live (q_nodes m') a"
  using queue_pop_rep [OF assms] by (simp add: queue_rep_items [OF assms])

theorem queue_pop_head_witness:
  "\<exists>m'. queue_pop \<lparr>q_nodes = [Some \<lparr>n_value = 5, n_next = None, n_prev = None\<rparr>],
          q_obj = \<lparr>q_head = Some 0, q_tail = Some 0, q_size = 1\<rparr>, q_script = []\<rparr> = Inr (5, m') \<and>
     queue_rep m' []"
proof -
  let ?m = "\<lparr>q_nodes = [Some \<lparr>n_value = 5, n_next = None, n_prev = None\<rparr>],
          q_obj = \<lparr>q_head = Some 0, q_tail = Some 0, q_size = 1\<rparr>, q_script = []\<rparr>"
  have rep: "queue_rep ?m [0]" by (simp add: queue_rep_def is_live_def obj_def SIZE_MOD_def)
  then have "hd (queue_items ?m) = 5" by (simp add: queue_rep_items obj_def)
  with queue_pop_head [OF rep] show ?thesis by auto
qed

text \<open>
  A \<open>queue_add\<close> whose \<open>malloc\<close> fails returns -1 and leaves the queue object and its nodes
  untouched; otherwise it returns 0, appends the value, and the size counter, a \<open>size_t\<close>,
  does not wrap around.
\<close>

theorem queue_add_outcome:
  assumes "queue_ok m"
  shows "\<exists>r m'. queue_add m v = Inr (r, m') \<and>
           (r = - 1 \<and> q_obj m' = q_obj m \<and> q_nodes m' = q_nodes m \<or>
            r = 0 \<and> queue_ok m' \<and> queue_items m' = queue_items m @ [v] \<and>
            q_size (q_obj m') = q_size (q_obj m) + 1)"
proof (cases rule: create_node_cases [of m v])
  case (fail sc)
  then show ?thesis using queue_add_fail [OF fail] by simp
next
  case (ok sc)
  from queue_add_rep [OF queue_ok_rep [OF assms] ok(1)] obtain m' where
    "queue_add m v = Inr (0, m')" "queue_ok m'" "queue_items m' = queue_items m @ [v]"
    by (auto intro: queue_rep_ok)
  then show ?thesis by (simp add: queue_size assms)
qed

theorem queue_add_outcome_witness:
  "\<exists>r m'. queue_add (queue_init (empty_mem [False])) 3 = Inr (r, m') \<and>
     (r = - 1 \<and> q_obj m' = q_obj (queue_init (empty_mem [False])) \<and>
        q_nodes m' = q_nodes (queue_init (empty_mem [False])) \<or>
      r = 0 \<and> queue_ok m' \<and> queue_items m' = queue_items (queue_init (empty_mem [False])) @ [3] \<and>
        q_size (q_obj m') = q_size (q_obj (queue_init (empty_mem [False]))) + 1)"
  by (rule queue_add_outcome) simp

text \<open>The repository's own queue test passes on the model when memory does not run out.\<close>

theorem test_queue_passes: "test_queue (empty_mem []) = Inr True"
  by (simp add: test_queue_def empty_mem_def queue_init_def queue_add_def queue_pop_def
      create_node_def halloc_def live_count_def hupd_def hload_def hfree_def
      size_add_def size_dec_def SIZE_MOD_def)

end
