(* ===== verification/Inet.thy ===== *)
theory Inet
  imports C_Strings "HOL-Library.Word"
begin

text \<open>
  IPv4 addresses as the standard library converts them: \<open>inet_ntop (AF_INET, ...)\<close> writes four
  bytes in dotted decimal notation, \<open>inet_pton (AF_INET, ...)\<close> reads four numbers of one to three
  digits that are at most 255. Every program of the repository names its server with one of
  them.
\<close>

definition AF_UNSPEC :: int where "AF_UNSPEC = 0"
definition SOCK_DGRAM :: int where "SOCK_DGRAM = 2"
definition AF_INET :: int where "AF_INET = 2"
definition AF_INET6 :: int where "AF_INET6 = 10"

abbreviation DOT :: char where "DOT \<equiv> CHR ''.''"

type_synonym octets = "8 word list"

fun dotted :: "octets \<Rightarrow> string" where
  "dotted [] = []"
| "dotted [b] = dec (unat b)"
| "dotted (b # bs) = dec (unat b) @ DOT # dotted bs"

text \<open>\<open>None\<close>: the buffer is too small (\<open>ENOSPC\<close>), and nothing is written to it.\<close>

definition inet_ntop4 :: "octets \<Rightarrow> nat \<Rightarrow> string option" where
  "inet_ntop4 bs bufsize = (if length (dotted bs) < bufsize then Some (dotted bs) else None)"

fun split_dots :: "string \<Rightarrow> string list" where
  "split_dots [] = [[]]"
| "split_dots (c # cs) =
     (if c = DOT then [] # split_dots cs
      else case split_dots cs of [] \<Rightarrow> [[c]] | w # ws \<Rightarrow> (c # w) # ws)"

definition octet :: "string \<Rightarrow> 8 word option" where
  "octet s = (if s \<noteq> [] \<and> length s \<le> 3 \<and> list_all c_isdigit s \<and> digits_val 0 s \<le> 255
              then Some (word_of_int (digits_val 0 s)) else None)"

text \<open>The four bytes that are stored, or \<open>None\<close>; and the value that is returned.\<close>

definition inet_pton4 :: "string \<Rightarrow> octets option" where
  "inet_pton4 s =
     (let os = map octet (split_dots s)
      in if length os = 4 \<and> None \<notin> set os then Some (map the os) else None)"

definition inet_pton_ret :: "string \<Rightarrow> int" where
  "inet_pton_ret s = (if inet_pton4 s = None then 0 else 1)"

section \<open>Reading back what was written\<close>

lemma dec_no_dot: "DOT \<notin> set (dec n)"
proof
  assume "DOT \<in> set (dec n)"
  with dec_digits [of n] have "c_isdigit DOT" by blast
  then show False by (simp add: c_isdigit_def byte_def)
qed

lemma split_dots_word: "DOT \<notin> set s \<Longrightarrow> split_dots s = [s]"
  by (induction s) auto

lemma split_dots_append: "DOT \<notin> set s \<Longrightarrow> split_dots (s @ DOT # r) = s # split_dots r"
  by (induction s) auto

lemma split_dotted: "bs \<noteq> [] \<Longrightarrow> split_dots (dotted bs) = map (\<lambda>b. dec (unat b)) bs"
  by (induction bs rule: dotted.induct) (auto simp: split_dots_word split_dots_append dec_no_dot)

lemma unat_octet: "unat (b :: 8 word) < 256"
  using unsigned_less [of b, where ?'a = nat] by simp

lemma octet_dec: "octet (dec (unat b)) = Some b"
proof -
  have "length (dec (unat b)) \<le> 3" using unat_octet [of b] by (intro dec_bound) auto
  moreover have "list_all c_isdigit (dec (unat b))" using dec_digits by (auto simp: list_all_iff)
  moreover have "int (unat b) \<le> 255" using unat_octet [of b] by linarith
  ultimately show ?thesis by (simp add: octet_def digits_val_dec)
qed

lemma inet_pton4_dotted: "length bs = 4 \<Longrightarrow> inet_pton4 (dotted bs) = Some bs"
proof -
  assume len: "length bs = 4"
  then have "split_dots (dotted bs) = map (\<lambda>b. dec (unat b)) bs" by (intro split_dotted) auto
  then have "map octet (split_dots (dotted bs)) = map Some bs" by (simp add: octet_dec)
  with len show ?thesis by (simp add: inet_pton4_def Let_def comp_def image_iff)
qed

lemma dotted_length: "length bs = 4 \<Longrightarrow> length (dotted bs) \<le> 15"
proof -
  assume "length bs = 4"
  then obtain a b c d where bs: "bs = [a, b, c, d]" by (auto simp: length_Suc_conv numeral_eq_Suc)
  have "length (dec (unat w)) \<le> 3" for w :: "8 word" using unat_octet [of w] by (intro dec_bound) auto
  from this [of a] this [of b] this [of c] this [of d] show ?thesis by (simp add: bs)
qed

lemma localhost: "inet_pton4 ''127.0.0.1'' = Some [127, 0, 0, 1]"
  by (simp add: inet_pton4_def octet_def c_isdigit_def byte_def)

lemma localhost_ret: "inet_pton_ret ''127.0.0.1'' = 1"
  by (simp add: inet_pton_ret_def localhost)

end
