(* ===== verification/Net_Setup.thy ===== *)
theory Net_Setup
  imports Inet
begin

text \<open>
  The sequences of calls with which the servers set up their listening socket, and the clients
  their connection, as lists of calls with the test the code makes on each result. \<open>inet_pton\<close> is
  the function of \<open>Inet\<close>, applied to the address all programs use; what a system call
  returns is the argument \<open>ret\<close>: -1 for a failure and 0 or a descriptor otherwise.
\<close>

datatype sys = InetPton | Socket | SetSockOpt | Bind | Listen | EpollCreate | EpollCtlAdd | Connect | SendName

type_synonym sys_results = "sys \<Rightarrow> int"

text \<open>The calls that are made, and whether all of them passed their test.\<close>

fun run_setup :: "(sys \<times> bool) list \<Rightarrow> sys list \<times> bool" where
  "run_setup [] = ([], True)"
| "run_setup ((c, ok) # cs) = (if ok then (c # fst (run_setup cs), snd (run_setup cs)) else ([c], False))"

definition LOCAL_IP :: string where "LOCAL_IP = ''127.0.0.1''"

abbreviation not_minus_one :: "sys_results \<Rightarrow> sys \<Rightarrow> sys \<times> bool" where
  "not_minus_one ret c \<equiv> (c, ret c \<noteq> - 1)"

text \<open>
  What \<open>pthread_create\<close> returns for each of \<open>n\<close> threads. Most programs compare it with -1, although it is
  0 or a positive error number; \<open>threads_started\<close> are the ones that exist.
\<close>

definition no_create_failed :: "(nat \<Rightarrow> int) \<Rightarrow> nat \<Rightarrow> bool" where
  "no_create_failed create n \<longleftrightarrow> list_all (\<lambda>i. create i \<noteq> - 1) [0..<n]"

definition threads_started :: "(nat \<Rightarrow> int) \<Rightarrow> nat \<Rightarrow> nat list" where
  "threads_started create n = filter (\<lambda>i. create i = 0) [0..<n]"

lemma create_failure_unnoticed: "\<forall>i. 0 \<le> create i \<Longrightarrow> no_create_failed create n"
  by (auto simp: no_create_failed_def list_all_iff) (metis neg_0_le_iff_le not_one_le_zero)

section \<open>Servers that exit on failure\<close>

definition pool_setup :: "sys_results \<Rightarrow> sys list \<times> bool" where
  "pool_setup ret = run_setup ((InetPton, \<not> inet_pton_ret LOCAL_IP \<le> 0) #
     map (not_minus_one ret) [Socket, SetSockOpt, Bind, Listen, EpollCreate, EpollCtlAdd])"

definition chat_setup :: "sys_results \<Rightarrow> sys list \<times> bool" where
  "chat_setup ret = run_setup ((InetPton, \<not> inet_pton_ret LOCAL_IP \<le> 0) #
     map (not_minus_one ret) [Socket, SetSockOpt, Bind, Listen, EpollCreate, EpollCtlAdd])"

definition channel_setup :: "sys_results \<Rightarrow> sys list \<times> bool" where
  "channel_setup ret = run_setup ((InetPton, \<not> inet_pton_ret LOCAL_IP \<le> 0) #
     map (not_minus_one ret) [Socket, SetSockOpt, Bind, Listen])"

definition relay_setup :: "sys_results \<Rightarrow> sys list \<times> bool" where
  "relay_setup ret = run_setup ((InetPton, \<not> inet_pton_ret LOCAL_IP \<le> 0) #
     map (not_minus_one ret) [Socket, SetSockOpt, Bind, Listen])"

definition tcp_setup :: "sys_results \<Rightarrow> sys list \<times> bool" where
  "tcp_setup ret = run_setup ((InetPton, \<not> inet_pton_ret LOCAL_IP \<le> 0) #
     map (not_minus_one ret) [Socket, SetSockOpt, Bind, Listen])"

text \<open>Here \<open>bind\<close> and \<open>listen\<close> have to return 0.\<close>

definition counter_setup :: "sys_results \<Rightarrow> sys list \<times> bool" where
  "counter_setup ret = run_setup ((InetPton, \<not> inet_pton_ret LOCAL_IP \<le> 0) #
     map (not_minus_one ret) [Socket, SetSockOpt] @ map (\<lambda>c. (c, ret c = 0)) [Bind, Listen])"

section \<open>The broadcast server with controller\<close>

text \<open>
  \<open>inet_pton\<close> is only compared with -1. The result is the socket, or -1; the socket that was
  opened is not closed on the way out.
\<close>

definition listener_calls :: "sys_results \<Rightarrow> sys list \<times> bool" where
  "listener_calls ret = run_setup ((InetPton, inet_pton_ret LOCAL_IP \<noteq> - 1) #
     map (not_minus_one ret) [Socket, SetSockOpt, Bind, Listen])"

definition create_server_listener :: "sys_results \<Rightarrow> int" where
  "create_server_listener ret = (if snd (listener_calls ret) then ret Socket else - 1)"

definition create_controller_listener :: "sys_results \<Rightarrow> int" where
  "create_controller_listener ret = (if snd (listener_calls ret) then ret Socket else - 1)"

section \<open>Clients\<close>

definition controller_client :: "sys_results \<Rightarrow> sys list \<times> bool" where
  "controller_client ret = run_setup ((InetPton, inet_pton_ret LOCAL_IP \<noteq> - 1) #
     map (not_minus_one ret) [Socket, Connect])"

text \<open>The chat client: its name is the first message it sends.\<close>

definition chat_client_setup :: "sys_results \<Rightarrow> sys list \<times> bool" where
  "chat_client_setup ret = run_setup ((InetPton, \<not> inet_pton_ret LOCAL_IP \<le> 0) #
     map (not_minus_one ret) [Socket, Connect] @ [(SendName, \<not> ret SendName < 0)])"

section \<open>What a setup has done when it succeeds\<close>

lemma run_setup_ok: "snd (run_setup cs) \<longleftrightarrow> (\<forall>c\<in>set cs. snd c)"
  by (induction cs rule: run_setup.induct) auto

lemma run_setup_calls: "snd (run_setup cs) \<Longrightarrow> fst (run_setup cs) = map fst cs"
  by (induction cs rule: run_setup.induct) (auto split: if_splits)

lemma run_setup_failed:
  "\<not> snd (run_setup cs) \<Longrightarrow> \<exists>pre c post. cs = pre @ (c, False) # post \<and> (\<forall>x\<in>set pre. snd x) \<and>
     fst (run_setup cs) = map fst pre @ [c]"
proof (induction cs rule: run_setup.induct)
  case (2 c ok cs)
  show ?case
  proof (cases ok)
    case True
    with 2 obtain pre d post where "cs = pre @ (d, False) # post" "\<forall>x\<in>set pre. snd x"
      "fst (run_setup cs) = map fst pre @ [d]" by auto
    with True show ?thesis by (intro exI [of _ "(c, ok) # pre"] exI [of _ d] exI [of _ post]) simp
  next
    case False
    then show ?thesis by (intro exI [of _ "[]"] exI [of _ c] exI [of _ cs]) simp
  qed
qed simp

lemma local_ip_valid [simp]: "inet_pton_ret LOCAL_IP = 1"
  unfolding LOCAL_IP_def by (rule localhost_ret)

text \<open>The listener's descriptor is lost when a call after \<open>socket\<close> fails.\<close>

lemma listener_leak:
  assumes "ret Socket \<noteq> - 1" and "ret SetSockOpt \<noteq> - 1" and "ret Bind = - 1"
  shows "create_server_listener ret = - 1 \<and> Socket \<in> set (fst (listener_calls ret))"
  using assms by (simp add: create_server_listener_def listener_calls_def)

end
