(* ===== verification/Worker_Pool.thy ===== *)
theory Worker_Pool
  imports Linked_Queue Net_Setup
begin

unbundle bit_operations_syntax

text \<open>
  \<^verbatim>\<open>networking/epoll_example/server.c\<close>: one thread waits on \<open>epoll\<close> and puts the ready
  descriptors into the queue of \<open>Linked_Queue\<close>; 24 workers take them out, under one mutex,
  and sleep on a semaphore when there is nothing to do. The threads interleave at the program
  points below; everything between two of them touches only memory the thread owns or holds
  the mutex for.
\<close>

section \<open>Functions of one thread\<close>

text \<open>
  \<open>getfl\<close> is what \<open>fcntl (F_GETFL)\<close> returns, \<open>setfl\<close> what \<open>fcntl (F_SETFL)\<close> returns for the
  new flags.
\<close>

definition setnonblocking :: "int \<Rightarrow> (int \<Rightarrow> int) \<Rightarrow> int" where
  "setnonblocking getfl setfl =
     (let flags = getfl
      in if flags = - 1 then - 1
         else if setfl (flags OR O_NONBLOCK) = - 1 then - 1
         else 0)"

definition greeting :: "nat \<Rightarrow> string" where
  "greeting wid = ''hello from worker '' @ dec wid"

definition process_client_fd :: "(nat \<Rightarrow> nat) \<Rightarrow> nat \<Rightarrow> int \<Rightarrow> rx \<Rightarrow> io list res" where
  "process_client_fd slack wid client_fd r =
     (let buf_size = 1024
      in case recv_upto (buf_size - 1) r of
           RxData d \<Rightarrow>
             bindE (store_nul slack buf_size (length d)) (\<lambda>_.
             bindE (sprintf_fits slack 100 (greeting wid)) (\<lambda>_.
             Inr [Send client_fd (greeting wid)]))
         | RxEof \<Rightarrow> Inr [Close client_fd]
         | _ \<Rightarrow> Inr [Close client_fd])"

section \<open>The threads\<close>

text \<open>
  Program points of a worker (\<open>process_request\<close>): not created (\<open>pthread_create\<close> returned an error
  number, which \<open>main\<close> does not notice), about to lock the mutex, inside the
  critical section, about to unlock after finding the queue empty, blocked in \<open>sem_wait\<close>,
  about to unlock with a task, processing the task. Of the main thread: in the event loop,
  about to lock for a descriptor, about to add it, about to post the semaphore, about to
  unlock, and after \<open>exit\<close>.
\<close>

datatype worker_pc = WNever | WLock | WTest | WUnlockIdle | WWait | WUnlockTask int | WProcess int

datatype main_pc = MLoop | MLock int | MAdd int | MPost | MUnlock | MExited

datatype thread = TMain | TWorker nat

record pool =
  p_queue :: qmem
  p_mut :: "thread option"        \<comment> \<open>who holds the mutex\<close>
  p_sem :: nat
  p_main :: main_pc
  p_workers :: "worker_pc list"   \<comment> \<open>worker \<open>i\<close> has \<open>id = i + 1\<close>\<close>
  p_out :: "io list"
  p_in :: "int list"              \<comment> \<open>history: descriptors queued so far\<close>
  p_taken :: "int list"           \<comment> \<open>history: descriptors popped so far\<close>

definition N_WORKERS :: nat where "N_WORKERS = 24"

definition pool_init :: "pool \<Rightarrow> bool" where
  "pool_init s \<longleftrightarrow>
     (\<exists>m. p_queue s = queue_init m) \<and> p_mut s = None \<and> p_sem s = 0 \<and> p_main s = MLoop \<and>
     length (p_workers s) = N_WORKERS \<and> set (p_workers s) \<subseteq> {WLock, WNever} \<and> p_out s = [] \<and> p_in s = [] \<and> p_taken s = []"

text \<open>
  The iteration of the event loop for the listening socket: \<open>cs\<close> is what \<open>accept\<close> returns,
  \<open>ctl\<close> what \<open>epoll_ctl\<close> returns. The result of \<open>setnonblocking\<close> is not looked at.
\<close>

definition accept_conn :: "int \<Rightarrow> int \<Rightarrow> pool \<Rightarrow> pool" where
  "accept_conn cs ctl s =
     (if cs = - 1 then s\<lparr>p_main := MExited\<rparr>
      else if ctl = - 1 then s\<lparr>p_main := MExited\<rparr>
      else s\<lparr>p_out := p_out s @ [EpollAdd cs]\<rparr>)"

text \<open>The critical sections: \<open>queue_pop\<close> by a worker, \<open>queue_add\<close> by the main thread.\<close>

definition worker_test :: "nat \<Rightarrow> pool \<Rightarrow> pool res" where
  "worker_test i s =
     (if q_size (q_obj (p_queue s)) = 0
      then Inr (s\<lparr>p_workers := (p_workers s)[i := WUnlockIdle]\<rparr>)
      else bindE (queue_pop (p_queue s)) (\<lambda>(client_fd, q).
           Inr (s\<lparr>p_queue := q, p_workers := (p_workers s)[i := WUnlockTask client_fd],
                  p_taken := p_taken s @ [client_fd]\<rparr>)))"

definition main_add :: "int \<Rightarrow> pool \<Rightarrow> pool res" where
  "main_add fd s =
     bindE (queue_add (p_queue s) fd) (\<lambda>(r, q).
     Inr (s\<lparr>p_queue := q, p_main := MPost, p_in := (if r = 0 then p_in s @ [fd] else p_in s)\<rparr>))"

text \<open>
  One step of one thread. \<open>slack\<close> is the padding behind automatic arrays, \<open>ls\<close> the listening
  socket. After \<open>exit\<close> no thread moves.
\<close>

inductive pool_step :: "(nat \<Rightarrow> nat) \<Rightarrow> int \<Rightarrow> pool \<Rightarrow> pool \<Rightarrow> bool" for slack ls where
  epoll_wait_fails: "p_main s = MLoop \<Longrightarrow> pool_step slack ls s (s\<lparr>p_main := MExited\<rparr>)"
| listen_ready: "p_main s = MLoop \<Longrightarrow> pool_step slack ls s (accept_conn cs ctl s)"
| conn_ready: "p_main s = MLoop \<Longrightarrow> fd \<noteq> ls \<Longrightarrow> 0 \<le> fd \<Longrightarrow> pool_step slack ls s (s\<lparr>p_main := MLock fd\<rparr>)"
| main_lock: "p_main s = MLock fd \<Longrightarrow> p_mut s = None \<Longrightarrow>
     pool_step slack ls s (s\<lparr>p_main := MAdd fd, p_mut := Some TMain\<rparr>)"
| main_adds: "p_main s = MAdd fd \<Longrightarrow> main_add fd s = Inr t \<Longrightarrow> pool_step slack ls s t"
| main_post: "p_main s = MPost \<Longrightarrow> pool_step slack ls s (s\<lparr>p_main := MUnlock, p_sem := p_sem s + 1\<rparr>)"
| main_unlock: "p_main s = MUnlock \<Longrightarrow> pool_step slack ls s (s\<lparr>p_main := MLoop, p_mut := None\<rparr>)"
| worker_lock: "p_main s \<noteq> MExited \<Longrightarrow> i < length (p_workers s) \<Longrightarrow> p_workers s ! i = WLock \<Longrightarrow>
     p_mut s = None \<Longrightarrow>
     pool_step slack ls s (s\<lparr>p_workers := (p_workers s)[i := WTest], p_mut := Some (TWorker i)\<rparr>)"
| worker_tests: "p_main s \<noteq> MExited \<Longrightarrow> i < length (p_workers s) \<Longrightarrow> p_workers s ! i = WTest \<Longrightarrow>
     worker_test i s = Inr t \<Longrightarrow> pool_step slack ls s t"
| worker_unlock_idle: "p_main s \<noteq> MExited \<Longrightarrow> i < length (p_workers s) \<Longrightarrow>
     p_workers s ! i = WUnlockIdle \<Longrightarrow>
     pool_step slack ls s (s\<lparr>p_workers := (p_workers s)[i := WWait], p_mut := None\<rparr>)"
| worker_wake: "p_main s \<noteq> MExited \<Longrightarrow> i < length (p_workers s) \<Longrightarrow> p_workers s ! i = WWait \<Longrightarrow>
     0 < p_sem s \<Longrightarrow>
     pool_step slack ls s (s\<lparr>p_workers := (p_workers s)[i := WLock], p_sem := p_sem s - 1\<rparr>)"
| worker_unlock_task: "p_main s \<noteq> MExited \<Longrightarrow> i < length (p_workers s) \<Longrightarrow>
     p_workers s ! i = WUnlockTask fd \<Longrightarrow>
     pool_step slack ls s (s\<lparr>p_workers := (p_workers s)[i := WProcess fd], p_mut := None\<rparr>)"
| worker_process: "p_main s \<noteq> MExited \<Longrightarrow> i < length (p_workers s) \<Longrightarrow> p_workers s ! i = WProcess fd \<Longrightarrow>
     process_client_fd slack (i + 1) fd r = Inr evs \<Longrightarrow>
     pool_step slack ls s (s\<lparr>p_workers := (p_workers s)[i := WLock], p_out := p_out s @ evs\<rparr>)"

inductive_cases pool_stepE: "pool_step slack ls s t"

text \<open>
  \<open>main\<close> up to the event loop: \<open>None\<close> is \<open>exit (EXIT_FAILURE)\<close>, otherwise the state and the workers that
  run. \<open>m\<close> is what the queue on the stack holds before \<open>queue_init\<close>.
\<close>

definition pool_main :: "qmem \<Rightarrow> (nat \<Rightarrow> int) \<Rightarrow> sys_results \<Rightarrow> (pool \<times> nat list) option" where
  "pool_main m create ret =
     (if \<not> no_create_failed create N_WORKERS then None
      else if \<not> snd (pool_setup ret) then None
      else Some (\<lparr>p_queue = queue_init m, p_mut = None, p_sem = 0, p_main = MLoop,
                  p_workers = map (\<lambda>i. if create i = 0 then WLock else WNever) [0..<N_WORKERS],
                  p_out = [], p_in = [], p_taken = []\<rparr>,
                 threads_started create N_WORKERS))"

lemma pool_main_init: "pool_main m create ret = Some (s, ws) \<Longrightarrow> pool_init s"
  by (auto simp: pool_main_def pool_init_def split: if_splits)

section \<open>The invariant\<close>

text \<open>
  \<open>critical\<close>: a thread between lock and unlock. \<open>awake\<close>: a worker that will look at the queue
  again without being woken. Every queued descriptor has a semaphore unit, an awake worker or
  a post that is still to come.
\<close>

fun worker_critical :: "worker_pc \<Rightarrow> bool" where
  "worker_critical WTest = True"
| "worker_critical WUnlockIdle = True"
| "worker_critical (WUnlockTask _) = True"
| "worker_critical _ = False"

fun main_critical :: "main_pc \<Rightarrow> bool" where
  "main_critical (MAdd _) = True"
| "main_critical MPost = True"
| "main_critical MUnlock = True"
| "main_critical _ = False"

fun awake :: "worker_pc \<Rightarrow> bool" where
  "awake WNever = False"
| "awake WWait = False"
| "awake WUnlockIdle = False"
| "awake _ = True"

definition n_awake :: "pool \<Rightarrow> nat" where
  "n_awake s = length (filter awake (p_workers s))"

definition mutex_agrees :: "main_pc \<Rightarrow> thread option \<Rightarrow> worker_pc list \<Rightarrow> bool" where
  "mutex_agrees mn mut ws \<longleftrightarrow>
     (mn \<noteq> MExited \<longrightarrow> main_critical mn = (mut = Some TMain)) \<and>
     (\<forall>i. (i < length ws \<and> worker_critical (ws ! i)) = (mut = Some (TWorker i)))"

definition mutex_ok :: "pool \<Rightarrow> bool" where
  "mutex_ok s \<longleftrightarrow> mutex_agrees (p_main s) (p_mut s) (p_workers s)"

definition wakeup_ok :: "pool \<Rightarrow> bool" where
  "wakeup_ok s \<longleftrightarrow>
     length (queue_items (p_queue s)) \<le> p_sem s + n_awake s + (if p_main s = MPost then 1 else 0) \<and>
     (\<forall>i<length (p_workers s). p_workers s ! i = WUnlockIdle \<longrightarrow> queue_items (p_queue s) = [])"

definition tasks_ok :: "pool \<Rightarrow> bool" where
  "tasks_ok s \<longleftrightarrow> p_in s = p_taken s @ queue_items (p_queue s)"

definition pool_inv :: "pool \<Rightarrow> bool" where
  "pool_inv s \<longleftrightarrow> queue_ok (p_queue s) \<and> length (p_workers s) = N_WORKERS \<and>
     mutex_ok s \<and> wakeup_ok s \<and> tasks_ok s"

text \<open>A thread that was created.\<close>

definition started :: "worker_pc \<Rightarrow> bool" where
  "started pc \<longleftrightarrow> pc \<noteq> WNever"

lemma started_simps [simp]: "\<not> started WNever" "started WLock" "started WTest" "started WUnlockIdle" "started WWait"
    "started (WUnlockTask fd)" "started (WProcess fd)"
  by (simp_all add: started_def)

lemma pool_inv_init:
  assumes "pool_init s"
  shows "pool_inv s"
proof -
  have "p_workers s ! i \<in> {WLock, WNever}" if "i < length (p_workers s)" for i
    using assms subsetD [OF _ nth_mem [OF that], of "{WLock, WNever}"] by (simp add: pool_init_def)
  then have "\<not> worker_critical (p_workers s ! i) \<and> p_workers s ! i \<noteq> WUnlockIdle" if "i < length (p_workers s)" for i
    using that by fastforce
  with assms show ?thesis
    by (auto simp: pool_init_def pool_inv_def mutex_ok_def mutex_agrees_def wakeup_ok_def tasks_ok_def)
qed

text \<open>What changing one worker's program point does to the number of awake workers.\<close>

lemma length_filter_update:
  "i < length xs \<Longrightarrow>
     length (filter P (xs[i := x])) + (if P (xs ! i) then 1 else 0) =
     length (filter P xs) + (if P x then 1 else 0)"
proof (induction xs arbitrary: i)
  case (Cons y ys)
  then show ?case by (cases i) auto
qed simp


lemma worker_testE:
  assumes "worker_test i s = Inr t"
  obtains (idle) "q_size (q_obj (p_queue s)) = 0" and "t = s\<lparr>p_workers := (p_workers s)[i := WUnlockIdle]\<rparr>"
  | (task) fd q where "q_size (q_obj (p_queue s)) \<noteq> 0" and "queue_pop (p_queue s) = Inr (fd, q)"
      and "t = s\<lparr>p_queue := q, p_workers := (p_workers s)[i := WUnlockTask fd], p_taken := p_taken s @ [fd]\<rparr>"
  using assms by (auto simp: worker_test_def bindE_eq_Inr_iff split: if_splits)

lemma main_addE:
  assumes "main_add fd s = Inr t"
  obtains r q where "queue_add (p_queue s) fd = Inr (r, q)"
    and "t = s\<lparr>p_queue := q, p_main := MPost, p_in := (if r = 0 then p_in s @ [fd] else p_in s)\<rparr>"
  using assms by (auto simp: main_add_def bindE_eq_Inr_iff)

text \<open>A worker may move freely on its side of the lock, take a free mutex, or give back its own.\<close>

lemma mutex_worker:
  assumes "mutex_agrees mn mut ws" and "i < length ws" and "worker_critical x = worker_critical (ws ! i)"
  shows "mutex_agrees mn mut (ws[i := x])"
  using assms unfolding mutex_agrees_def by (metis length_list_update nth_list_update)

lemma mutex_worker_lock:
  assumes "mutex_agrees mn None ws" and "i < length ws" and "worker_critical x"
  shows "mutex_agrees mn (Some (TWorker i)) (ws[i := x])"
  using assms by (auto simp: mutex_agrees_def nth_list_update)

lemma mutex_worker_unlock:
  assumes "mutex_agrees mn mut ws" and "mn \<noteq> MExited" and "i < length ws"
    and "worker_critical (ws ! i)" and "\<not> worker_critical x"
  shows "mutex_agrees mn None (ws[i := x])"
proof -
  from assms(1,3,4) have mut: "mut = Some (TWorker i)" unfolding mutex_agrees_def by blast
  with assms(1) have others: "worker_critical (ws ! j) \<Longrightarrow> j < length ws \<Longrightarrow> j = i" for j
    unfolding mutex_agrees_def by (metis option.inject thread.inject)
  have "\<not> (j < length (ws[i := x]) \<and> worker_critical (ws[i := x] ! j))" for j
    using others [of j] assms(3,5) by (cases "i = j") auto
  with mut assms(1,2) show ?thesis by (simp add: mutex_agrees_def)
qed

lemma mutex_main_unlock: "mutex_agrees MUnlock mut ws \<Longrightarrow> mutex_agrees MLoop None ws"
  by (auto simp: mutex_agrees_def)

lemma mutex_main:
  "mutex_agrees mn mut ws \<Longrightarrow> mn \<noteq> MExited \<Longrightarrow> mn' = MExited \<or> main_critical mn' = main_critical mn \<Longrightarrow>
     mutex_agrees mn' mut ws"
  by (auto simp: mutex_agrees_def)

lemma mutex_main_lock: "mutex_agrees (MLock fd) None ws \<Longrightarrow> mutex_agrees (MAdd fd) (Some TMain) ws"
  by (auto simp: mutex_agrees_def)

lemma mutex_step:
  assumes "pool_step slack ls s t" and "mutex_ok s"
  shows "mutex_ok t"
  using assms(1)
proof (cases rule: pool_step.cases)
  case (main_adds fd)
  with assms(2) show ?thesis
    by (auto simp: mutex_ok_def elim!: main_addE intro: mutex_main)
next
  case (worker_tests i)
  with assms(2) show ?thesis
    by (auto simp: mutex_ok_def elim!: worker_testE intro!: mutex_worker)
qed (use assms(2) in \<open>auto simp: mutex_ok_def accept_conn_def
      intro: mutex_main mutex_main_lock mutex_main_unlock
        mutex_worker mutex_worker_lock mutex_worker_unlock\<close>)

lemma tasks_step:
  assumes "pool_step slack ls s t" and "queue_ok (p_queue s)" and "tasks_ok s"
  shows "queue_ok (p_queue t) \<and> tasks_ok t"
  using assms(1)
proof (cases rule: pool_step.cases)
  case (main_adds fd)
  from main_adds(2) show ?thesis
  proof (cases rule: main_addE)
    case (1 r q)
    with assms show ?thesis
      using lq.add_inv [OF assms(2) 1(1)] lq.add_items [OF assms(2) 1(1)]
      by (auto simp: tasks_ok_def)
  qed
next
  case (worker_tests i)
  from worker_tests(4) show ?thesis
  proof (cases rule: worker_testE)
    case (task fd q)
    then have "queue_items (p_queue s) \<noteq> []" using queue_size [OF assms(2)] by auto
    with task assms lq.pop_inv [OF assms(2) task(2)] show ?thesis
      by (auto simp: tasks_ok_def)
  qed (use assms in \<open>simp add: tasks_ok_def\<close>)
qed (use assms in \<open>auto simp: tasks_ok_def accept_conn_def\<close>)

text \<open>A worker that moves without touching the queue keeps the count of wakeups, if it takes no semaphore unit to sleep.\<close>

lemma wakeup_move:
  assumes "wakeup_ok s" and "i < length (p_workers s)" and "pc \<noteq> WUnlockIdle"
    and "p_workers t = (p_workers s)[i := pc]" and "p_queue t = p_queue s" and "p_main t = p_main s"
    and "p_sem s + (if awake (p_workers s ! i) then 1 else 0) \<le> p_sem t + (if awake pc then 1 else 0)"
  shows "wakeup_ok t"
  using assms length_filter_update [OF assms(2), of awake pc]
  by (auto simp: wakeup_ok_def n_awake_def nth_list_update split: if_splits)

lemma wakeup_step:
  assumes "pool_step slack ls s t" and "queue_ok (p_queue s)" and "mutex_ok s" and "wakeup_ok s"
  shows "wakeup_ok t"
  using assms(1)
proof (cases rule: pool_step.cases)
  case (main_adds fd)
  then have "p_mut s = Some TMain" using assms(3) by (simp add: mutex_ok_def mutex_agrees_def)
  then have none: "\<forall>i<length (p_workers s). p_workers s ! i \<noteq> WUnlockIdle"
    using assms(3) by (force simp: mutex_ok_def mutex_agrees_def)
  from main_adds(2) show ?thesis
  proof (cases rule: main_addE)
    case (1 r q)
    with lq.add_items [OF assms(2) 1(1)] none assms(4) main_adds(1) show ?thesis
      by (auto simp: wakeup_ok_def n_awake_def)
  qed
next
  case (worker_tests i)
  from worker_tests(4) show ?thesis
  proof (cases rule: worker_testE)
    case idle
    then have "queue_items (p_queue s) = []" using queue_size [OF assms(2)] by simp
    with idle show ?thesis by (simp add: wakeup_ok_def)
  next
    case (task fd q)
    then have "queue_items (p_queue s) \<noteq> []" using queue_size [OF assms(2)] by auto
    with lq.pop_inv [OF assms(2) task(2)] task assms(4) worker_tests
      length_filter_update [of i "p_workers s" awake "WUnlockTask fd"]
    show ?thesis by (auto simp: wakeup_ok_def n_awake_def nth_list_update)
  qed
next
  case (worker_lock i)
  then show ?thesis by (intro wakeup_move [OF assms(4), of i WTest]) simp_all
next
  case (worker_unlock_idle i)
  then show ?thesis by (intro wakeup_move [OF assms(4), of i WWait]) simp_all
next
  case (worker_wake i)
  then show ?thesis by (intro wakeup_move [OF assms(4), of i WLock]) simp_all
next
  case (worker_unlock_task i fd)
  then show ?thesis by (intro wakeup_move [OF assms(4), of i "WProcess fd"]) simp_all
next
  case (worker_process i fd r evs)
  then show ?thesis by (intro wakeup_move [OF assms(4), of i WLock]) simp_all
qed (use assms(4) in \<open>auto simp: wakeup_ok_def n_awake_def accept_conn_def\<close>)

lemma workers_step: "pool_step slack ls s t \<Longrightarrow> length (p_workers t) = length (p_workers s)"
  by (cases rule: pool_step.cases) (auto simp: accept_conn_def elim!: worker_testE main_addE)

lemma started_update: "started x = started (ws ! i) \<Longrightarrow> map started (ws[i := x]) = map started ws"
  by (cases "i < length ws") (simp_all add: map_update list_update_same_conv list_update_beyond)

lemma started_step: "pool_step slack ls s t \<Longrightarrow> map started (p_workers t) = map started (p_workers s)"
  by (cases rule: pool_step.cases)
    (auto simp: accept_conn_def elim!: worker_testE main_addE intro!: started_update)

interpretation pool: invariant_system pool_init "pool_step slack ls" pool_inv for slack ls
proof unfold_locales
  fix s t
  assume inv: "pool_inv s" and step: "pool_step slack ls s t"
  with mutex_step [OF step] tasks_step [OF step] wakeup_step [OF step] workers_step [OF step]
  show "pool_inv t" by (simp add: pool_inv_def)
qed (rule pool_inv_init)


section \<open>What a worker and the main thread do\<close>

lemma process_client_fd_total:
  assumes "wid < SIZE_MOD"
  shows "process_client_fd slack wid fd r =
    (case recv_upto 1023 r of RxData d \<Rightarrow> Inr [Send fd (greeting wid)] | _ \<Rightarrow> Inr [Close fd])"
proof -
  from assms have "wid < 10 ^ 20" by (simp add: SIZE_MOD_def)
  then have "length (dec wid) \<le> 20" by (rule dec_bound) simp
  then have "sprintf_fits slack 100 (greeting wid) = Inr ()"
    by (simp add: sprintf_fits_def greeting_def)
  then show ?thesis
    using recv_upto_data [of 1023 r] by (auto simp: process_client_fd_def split: rx.splits)
qed

lemma worker_test_total: "queue_ok (p_queue s) \<Longrightarrow> \<exists>t. worker_test i s = Inr t"
  using lq.pop_total [of "p_queue s"] by (auto simp: worker_test_def)

lemma main_add_total: "queue_ok (p_queue s) \<Longrightarrow> \<exists>t. main_add fd s = Inr t"
  using lq.add_total [of "p_queue s" fd] by (auto simp: main_add_def)

text \<open>A critical worker is never blocked.\<close>

lemma critical_worker_moves:
  assumes "queue_ok (p_queue s)" and "p_main s \<noteq> MExited" and "i < length (p_workers s)"
    and "worker_critical (p_workers s ! i)"
  shows "\<exists>t. pool_step slack ls s t \<and> p_workers t ! i \<noteq> p_workers s ! i"
proof (cases "p_workers s ! i")
  case WTest
  obtain t where t: "worker_test i s = Inr t" using worker_test_total [OF assms(1)] by blast
  then have "p_workers t ! i \<noteq> WTest" using assms(3) by (auto elim!: worker_testE)
  with t WTest assms show ?thesis by (auto intro: worker_tests)
next
  case WUnlockIdle
  from worker_unlock_idle [OF assms(2,3) this] WUnlockIdle assms(3) show ?thesis by force
next
  case (WUnlockTask fd)
  from worker_unlock_task [OF assms(2,3) this] WUnlockTask assms(3) show ?thesis by force
qed (use assms(4) in auto)

lemma awake_worker_moves:
  assumes "pool_inv s" and "p_main s \<noteq> MExited" and "i < length (p_workers s)"
    and "p_mut s = None" and "awake (p_workers s ! i)"
  shows "\<exists>t. pool_step slack ls s t \<and> p_workers t ! i \<noteq> p_workers s ! i"
proof (cases "p_workers s ! i")
  case WLock
  from worker_lock [OF assms(2,3) this assms(4)] WLock assms(3) show ?thesis by force
next
  case (WProcess fd)
  have "i + 1 < SIZE_MOD" using assms(1,3) by (simp add: pool_inv_def N_WORKERS_def SIZE_MOD_def)
  then have "process_client_fd slack (i + 1) fd RxEof = Inr [Close fd]"
    by (simp only: process_client_fd_total) simp
  from worker_process [OF assms(2,3) WProcess this] WProcess assms(3) show ?thesis by force
qed (use assms in \<open>auto simp: pool_inv_def mutex_ok_def mutex_agrees_def\<close>)

lemma some_worker_moves:
  assumes inv: "pool_inv s" and main: "p_main s = MLoop" and q: "queue_items (p_queue s) \<noteq> []"
    and some: "\<exists>pc\<in>set (p_workers s). started pc"
  shows "\<exists>i t. i < N_WORKERS \<and> pool_step slack ls s t \<and> p_workers t ! i \<noteq> p_workers s ! i"
proof -
  from inv have len: "length (p_workers s) = N_WORKERS" and ok: "queue_ok (p_queue s)"
    and mut: "mutex_ok s" and wake: "wakeup_ok s" by (simp_all add: pool_inv_def)
  have main': "p_main s \<noteq> MExited" using main by simp
  consider (held) i where "p_mut s = Some (TWorker i)" | (free) "p_mut s = None"
    using main mut by (metis main_critical.simps(4) main_pc.distinct(9) mutex_ok_def mutex_agrees_def option.exhaust thread.exhaust)
  then show ?thesis
  proof cases
    case (held i)
    with mut have "i < length (p_workers s)" "worker_critical (p_workers s ! i)"
      by (auto simp: mutex_ok_def mutex_agrees_def)
    with critical_worker_moves [OF ok main'] len show ?thesis by metis
  next
    case free
    show ?thesis
    proof (cases "n_awake s")
      case (Suc n)
      then have "filter awake (p_workers s) \<noteq> []" by (auto simp: n_awake_def)
      then obtain i where "i < length (p_workers s)" "awake (p_workers s ! i)"
        by (auto simp: filter_empty_conv in_set_conv_nth)
      with awake_worker_moves [OF inv main' _ free] len show ?thesis by metis
    next
      case 0
      from some obtain i where i: "i < length (p_workers s)" "started (p_workers s ! i)" by (metis in_set_conv_nth)
      then have "\<not> awake (p_workers s ! i)" using 0 by (auto simp: n_awake_def filter_empty_conv)
      moreover have "\<not> worker_critical (p_workers s ! i)" using mut i free by (auto simp: mutex_ok_def mutex_agrees_def)
      ultimately have w: "p_workers s ! i = WWait" using i(2) by (cases "p_workers s ! i") (auto simp: started_def)
      have "length (queue_items (p_queue s)) \<le> p_sem s" using wake 0 main by (simp add: wakeup_ok_def)
      with q have "0 < p_sem s" by (cases "p_sem s") auto
      from worker_wake [OF main' i(1) w this] have
        "pool_step slack ls s (s\<lparr>p_workers := (p_workers s)[i := WLock], p_sem := p_sem s - 1\<rparr>)" .
      moreover have "p_workers (s\<lparr>p_workers := (p_workers s)[i := WLock], p_sem := p_sem s - 1\<rparr>) ! i \<noteq> p_workers s ! i"
        using w i by simp
      ultimately show ?thesis using i(1) len by metis
    qed
  qed
qed

section \<open>Draining the queue\<close>

text \<open>
  The steps of the workers alone: only they change a program point of a worker. Each of them
  makes the work that is left smaller: a queued task is worth a round of a worker, a unit of the
  semaphore a look at the queue.
\<close>

definition worker_step :: "(nat \<Rightarrow> nat) \<Rightarrow> int \<Rightarrow> pool \<Rightarrow> pool \<Rightarrow> bool" where
  "worker_step slack ls s t \<longleftrightarrow> pool_step slack ls s t \<and> p_workers t \<noteq> p_workers s"

fun weight :: "worker_pc \<Rightarrow> nat" where
  "weight WNever = 0"
| "weight WWait = 0"
| "weight WUnlockIdle = 1"
| "weight WTest = 2"
| "weight WLock = 3"
| "weight (WProcess _) = 4"
| "weight (WUnlockTask _) = 5"

definition pool_work :: "pool \<Rightarrow> nat" where
  "pool_work s = 6 * length (queue_items (p_queue s)) + 4 * p_sem s + sum_list (map weight (p_workers s))"

lemma sum_list_update_nat:
  "i < length xs \<Longrightarrow> sum_list (map f (xs[i := x])) + f (xs ! i) = sum_list (map f xs) + (f x :: nat)"
proof (induction xs arbitrary: i)
  case (Cons y ys)
  then show ?case by (cases i) (auto simp: algebra_simps)
qed simp

lemma worker_step_keeps:
  assumes "worker_step slack ls s t"
  shows "p_main t = p_main s" and "p_in t = p_in s"
proof -
  from assms have step: "pool_step slack ls s t" and moved: "p_workers t \<noteq> p_workers s" by (simp_all add: worker_step_def)
  from step have "p_main t = p_main s \<and> p_in t = p_in s"
    by (cases rule: pool_step.cases) (use moved in \<open>auto simp: accept_conn_def split: if_splits elim!: worker_testE main_addE\<close>)
  then show "p_main t = p_main s" and "p_in t = p_in s" by simp_all
qed

lemma worker_step_decreases:
  assumes inv: "pool_inv s" and "worker_step slack ls s t"
  shows "pool_work t < pool_work s"
proof -
  from assms(2) have step: "pool_step slack ls s t" and moved: "p_workers t \<noteq> p_workers s" by (simp_all add: worker_step_def)
  from inv have ok: "queue_ok (p_queue s)" by (simp add: pool_inv_def)
  note w = sum_list_update_nat [of _ "p_workers s" weight]
  from step show ?thesis
  proof (cases rule: pool_step.cases)
    case (worker_lock i)
    with w [of i WTest] show ?thesis by (simp add: pool_work_def)
  next
    case (worker_tests i)
    from worker_tests(4) show ?thesis
    proof (cases rule: worker_testE)
      case idle
      with worker_tests w [of i WUnlockIdle] show ?thesis by (simp add: pool_work_def)
    next
      case (task fd q)
      then have "queue_items (p_queue s) \<noteq> []" using queue_size [OF ok] by auto
      with lq.pop_inv(2) [OF ok task(2)] task worker_tests w [of i "WUnlockTask fd"] show ?thesis
        by (simp add: pool_work_def)
    qed
  next
    case (worker_unlock_idle i)
    with w [of i WWait] show ?thesis by (simp add: pool_work_def)
  next
    case (worker_wake i)
    with w [of i WLock] show ?thesis by (simp add: pool_work_def)
  next
    case (worker_unlock_task i fd)
    with w [of i "WProcess fd"] show ?thesis by (simp add: pool_work_def)
  next
    case (worker_process i fd r evs)
    with w [of i WLock] show ?thesis by (simp add: pool_work_def)
  qed (use moved in \<open>auto simp: accept_conn_def split: if_splits elim!: main_addE\<close>)
qed

text \<open>When no worker can move although the main thread is in its loop, all of them wait for a task.\<close>

definition waits :: "worker_pc \<Rightarrow> worker_pc" where
  "waits pc = (if started pc then WWait else WNever)"

lemma stuck_workers_wait:
  assumes inv: "pool_inv s" and main: "p_main s = MLoop" and stuck: "\<And>t. \<not> worker_step slack ls s t"
    and some: "\<exists>pc\<in>set (p_workers s). started pc"
  shows "queue_items (p_queue s) = [] \<and> p_workers s = map waits (p_workers s) \<and> p_sem s = 0"
proof -
  from inv have ok: "queue_ok (p_queue s)" and mut: "mutex_ok s" by (simp_all add: pool_inv_def)
  have main': "p_main s \<noteq> MExited" using main by simp
  have still: "p_workers t ! i = p_workers s ! i" if "pool_step slack ls s t" for t i
    using stuck [of t] that by (auto simp: worker_step_def)
  have crit: "\<not> worker_critical (p_workers s ! i)" if "i < length (p_workers s)" for i
    using critical_worker_moves [OF ok main' that, of slack ls] still by metis
  have free: "p_mut s = None"
    using mut main crit unfolding mutex_ok_def mutex_agrees_def
    by (metis main_critical.simps(4) main_pc.distinct(9) option.exhaust thread.exhaust)
  have asleep: "\<not> awake (p_workers s ! i)" if "i < length (p_workers s)" for i
    using awake_worker_moves [OF inv main' that free, of slack ls] still by metis
  have wait: "p_workers s ! i = waits (p_workers s ! i)" if "i < length (p_workers s)" for i
    using asleep [OF that] crit [OF that] by (cases "p_workers s ! i") (auto simp: waits_def started_def)
  then have "p_workers s = map waits (p_workers s)" by (simp add: list_eq_iff_nth_eq)
  moreover have "queue_items (p_queue s) = []"
    using some_worker_moves [OF inv main _ some, of slack ls] still by metis
  moreover have "p_sem s = 0"
  proof (rule ccontr)
    assume sem: "p_sem s \<noteq> 0"
    from some obtain i where i: "i < length (p_workers s)" "started (p_workers s ! i)" by (metis in_set_conv_nth)
    with wait [OF i(1)] have w: "p_workers s ! i = WWait" by (simp add: waits_def)
    with sem have "pool_step slack ls s (s\<lparr>p_workers := (p_workers s)[i := WLock], p_sem := p_sem s - 1\<rparr>)"
      by (intro worker_wake [OF main' i(1)]) simp_all
    from still [OF this, of i] w i show False by simp
  qed
  ultimately show ?thesis by simp
qed

lemma worker_steps_bounded:
  "(worker_step slack ls ^^ k) s t \<Longrightarrow> pool_inv s \<Longrightarrow>
     pool_inv t \<and> k + pool_work t \<le> pool_work s \<and> p_main t = p_main s \<and> p_in t = p_in s \<and>
     map started (p_workers t) = map started (p_workers s)"
proof (induction k arbitrary: t)
  case (Suc k)
  then obtain u where u: "(worker_step slack ls ^^ k) s u" and step: "worker_step slack ls u t" by auto
  from Suc.IH [OF u Suc.prems(2)] have IH: "pool_inv u" "k + pool_work u \<le> pool_work s" "p_main u = p_main s" "p_in u = p_in s"
    "map started (p_workers u) = map started (p_workers s)" by simp_all
  have "pool_inv t" using pool.inv_step [OF IH(1)] step by (auto simp: worker_step_def)
  moreover have "map started (p_workers t) = map started (p_workers u)"
    using started_step step by (auto simp: worker_step_def)
  ultimately show ?case using IH worker_step_decreases [OF IH(1) step] worker_step_keeps [OF step] by auto
qed simp

section \<open>Properties\<close>

definition pool_start :: pool where
  "pool_start = \<lparr>p_queue = queue_init (empty_mem []), p_mut = None, p_sem = 0, p_main = MLoop,
     p_workers = replicate N_WORKERS WLock, p_out = [], p_in = [], p_taken = []\<rparr>"

lemma pool_start_init: "pool_init pool_start"
  by (auto simp: pool_init_def pool_start_def)

lemma pool_start_started: "\<exists>pc\<in>set (replicate N_WORKERS WLock). started pc"
  by (simp add: N_WORKERS_def started_def)

text \<open>A run in which descriptor 5 becomes readable and is queued, as far as each point of the main thread.\<close>

definition pool_queued :: "qmem \<Rightarrow> pool" where
  "pool_queued q = pool_start\<lparr>p_queue := q, p_main := MPost, p_mut := Some TMain, p_in := [5]\<rparr>"

lemma pool_queued_reach:
  assumes "ls \<noteq> 5"
  obtains q where "queue_items q = [5]" and "reach pool_init (pool_step slack ls) (pool_queued q)"
proof -
  obtain q where q: "queue_add (queue_init (empty_mem [])) 5 = Inr (0, q)" and items: "queue_items q = [5]"
  proof -
    have "\<exists>m'. create_node (queue_init (empty_mem [])) 5 = (Some 0, m')"
      by (simp add: create_node_def halloc_def queue_init_def empty_mem_def live_count_def SIZE_MOD_def)
    then show ?thesis
      using that queue_add_rep [OF queue_init_rep, of "empty_mem []" 5 0] by auto
  qed
  have "reach pool_init (pool_step slack ls) (pool_queued q)"
  proof -
    let ?s1 = "pool_start\<lparr>p_main := MLock 5\<rparr>"
    let ?s2 = "?s1\<lparr>p_main := MAdd 5, p_mut := Some TMain\<rparr>"
    note start = reach_init [where init = pool_init and step = "pool_step slack ls", OF pool_start_init]
    have "pool_step slack ls pool_start ?s1"
      by (rule conn_ready) (use assms in \<open>auto simp: pool_start_def\<close>)
    with start have r1: "reach pool_init (pool_step slack ls) ?s1" by (rule reach_step)
    have "pool_step slack ls ?s1 ?s2"
      by (rule main_lock) (auto simp: pool_start_def)
    with r1 have r2: "reach pool_init (pool_step slack ls) ?s2" by (rule reach_step)
    have "main_add 5 ?s2 = Inr (pool_queued q)"
      using q by (simp add: main_add_def pool_start_def pool_queued_def)
    then have "pool_step slack ls ?s2 (pool_queued q)" by (intro main_adds) simp_all
    with r2 show ?thesis by (rule reach_step)
  qed
  with items that show ?thesis by blast
qed

text \<open>
  C1: In every reachable state of the server the queue is a well-formed list and the
  descriptors that were queued are the ones the workers have taken, in the same order,
  followed by the ones still in the queue: across all interleavings no task is lost, taken
  twice or overtaken.
\<close>

theorem pool_tasks_conserved:
  assumes "reach pool_init (pool_step slack ls) s"
  shows "queue_ok (p_queue s) \<and> p_in s = p_taken s @ queue_items (p_queue s)"
  using pool.reach_inv [OF assms] by (simp add: pool_inv_def tasks_ok_def)

theorem pool_tasks_conserved_witness:
  "\<exists>q. queue_ok q \<and> p_in (pool_queued q) = p_taken (pool_queued q) @ queue_items q"
proof -
  obtain q where r: "reach pool_init (pool_step (\<lambda>_. 0) 3) (pool_queued q)"
    by (rule pool_queued_reach [of 3 "\<lambda>_. 0"]) auto
  from pool_tasks_conserved [OF r] show ?thesis by (auto simp: pool_queued_def)
qed

text \<open>
  C2: No lost wakeup: whenever the main thread is back in its event loop and a descriptor is
  queued, at least one worker can take a step, in every reachable state, however many of the 24 threads \<open>main\<close> managed
  to create, if it was any. The server never
  sleeps on a non-empty queue, although workers test the queue and go to sleep in two steps.
\<close>

theorem pool_no_lost_wakeup:
  assumes "reach pool_init (pool_step slack ls) s" and "p_main s = MLoop"
    and "queue_items (p_queue s) \<noteq> []" and "\<exists>pc\<in>set (p_workers s). started pc"
  shows "\<exists>i t. i < N_WORKERS \<and> pool_step slack ls s t \<and> p_workers t ! i \<noteq> p_workers s ! i"
  using some_worker_moves [OF pool.reach_inv [OF assms(1)] assms(2,3,4)] .

theorem pool_no_lost_wakeup_witness:
  "\<exists>s i t. i < N_WORKERS \<and> pool_step (\<lambda>_. 0) 3 s t \<and> p_workers t ! i \<noteq> p_workers s ! i"
proof -
  obtain q where q: "queue_items q = [5]"
    and r: "reach pool_init (pool_step (\<lambda>_. 0) 3) (pool_queued q)"
    by (rule pool_queued_reach [of 3 "\<lambda>_. 0"]) auto
  let ?s = "pool_queued q"
  let ?t = "?s\<lparr>p_main := MUnlock, p_sem := p_sem ?s + 1\<rparr>"
  let ?u = "?t\<lparr>p_main := MLoop, p_mut := None\<rparr>"
  have "pool_step (\<lambda>_. 0) 3 ?s ?t" by (rule main_post) (simp add: pool_queued_def)
  with r have rt: "reach pool_init (pool_step (\<lambda>_. 0) 3) ?t" by (rule reach_step)
  have "pool_step (\<lambda>_. 0) 3 ?t ?u" by (rule main_unlock) simp
  with rt have "reach pool_init (pool_step (\<lambda>_. 0) 3) ?u" by (rule reach_step)
  then have "\<exists>i t. i < N_WORKERS \<and> pool_step (\<lambda>_. 0) 3 ?u t \<and> p_workers t ! i \<noteq> p_workers ?u ! i"
    by (rule pool_no_lost_wakeup) (use q pool_start_started in \<open>simp_all add: pool_queued_def pool_start_def\<close>)
  then show ?thesis by blast
qed

text \<open>
  C3: The workers drain the queue: from any reachable state in which the main thread is in its event
  loop, if no further event comes in, the workers can only take \<open>pool_work s\<close> steps, in whatever order
  they are scheduled and whatever they receive, and when none of them can move any more,
  every descriptor that was queued has been taken, once and in order, and every worker that was created waits on the
  semaphore, if there is one at all. There is no deadlock and no endless polling.
\<close>

theorem pool_drains:
  assumes "reach pool_init (pool_step slack ls) s" and "p_main s = MLoop" and "(worker_step slack ls ^^ k) s t"
  shows "k \<le> pool_work s \<and> ((\<forall>u. \<not> worker_step slack ls t u) \<and> (\<exists>pc\<in>set (p_workers s). started pc) \<longrightarrow>
    p_taken t = p_in s \<and> queue_items (p_queue t) = [] \<and> p_sem t = 0 \<and>
    p_workers t = map (\<lambda>pc. if started pc then WWait else WNever) (p_workers s))"
proof -
  from worker_steps_bounded [OF assms(3) pool.reach_inv [OF assms(1)]] have t: "pool_inv t" "k + pool_work t \<le> pool_work s"
    "p_main t = p_main s" "p_in t = p_in s" and st: "map started (p_workers t) = map started (p_workers s)" by simp_all
  have same: "map waits (p_workers t) = map waits (p_workers s)"
    using arg_cong [OF st, of "map (\<lambda>b. if b then WWait else WNever)"] by (simp add: waits_def [abs_def] comp_def)
  have some: "\<exists>pc\<in>set (p_workers t). started pc" if "\<exists>pc\<in>set (p_workers s). started pc"
    using that arg_cong [OF st, of set] by (metis (mono_tags) imageE imageI list.set_map)
  have "p_in t = p_taken t @ queue_items (p_queue t)" using t(1) by (simp add: pool_inv_def tasks_ok_def)
  moreover have "queue_items (p_queue t) = [] \<and> p_workers t = map waits (p_workers s) \<and> p_sem t = 0"
    if "\<forall>u. \<not> worker_step slack ls t u" and "\<exists>pc\<in>set (p_workers s). started pc"
    using stuck_workers_wait [OF t(1) _ _ some [OF that(2)]] t(3) assms(2) that(1) same by metis
  ultimately show ?thesis using t(2,4) by (auto simp: waits_def [abs_def])
qed

theorem pool_drains_witness: "\<exists>t. (worker_step (\<lambda>_. 0) 3 ^^ 1) pool_start t \<and> 1 \<le> pool_work pool_start"
proof -
  let ?t = "pool_start\<lparr>p_workers := (p_workers pool_start)[0 := WTest], p_mut := Some (TWorker 0)\<rparr>"
  have w: "0 < length (p_workers pool_start)" "p_workers pool_start ! 0 = WLock" "p_main pool_start = MLoop" "p_mut pool_start = None"
    by (simp_all add: pool_start_def N_WORKERS_def)
  then have "pool_step (\<lambda>_. 0) 3 pool_start ?t" by (intro worker_lock) simp_all
  moreover have "p_workers ?t ! 0 \<noteq> p_workers pool_start ! 0" using w by simp
  ultimately have "worker_step (\<lambda>_. 0) 3 pool_start ?t" unfolding worker_step_def by (intro conjI) auto
  then have step: "(worker_step (\<lambda>_. 0) 3 ^^ 1) pool_start ?t" by (simp add: eq_OO)
  have "reach pool_init (pool_step (\<lambda>_. 0) 3) pool_start" using pool_start_init by (rule reach_init)
  from pool_drains [OF this w(3) step] step show ?thesis by blast
qed

text \<open>
  C22: Mutual exclusion: in every reachable state of a server that has not exited, at most one
  thread is between \<open>pthread_mutex_lock\<close> and \<open>pthread_mutex_unlock\<close>.
\<close>

theorem pool_mutual_exclusion:
  assumes "reach pool_init (pool_step slack ls) s" and "p_main s \<noteq> MExited"
    and "i < length (p_workers s)" and "worker_critical (p_workers s ! i)"
  shows "\<not> main_critical (p_main s) \<and>
    (\<forall>j<length (p_workers s). worker_critical (p_workers s ! j) \<longrightarrow> j = i)"
proof -
  have agr: "mutex_agrees (p_main s) (p_mut s) (p_workers s)"
    using pool.reach_inv [OF assms(1)] by (simp add: pool_inv_def mutex_ok_def)
  with assms(3,4) have "p_mut s = Some (TWorker i)" unfolding mutex_agrees_def by blast
  with agr assms(2) show ?thesis
    unfolding mutex_agrees_def by (metis option.inject thread.distinct(1) thread.inject)
qed

theorem pool_mutual_exclusion_witness:
  "let s = pool_start\<lparr>p_workers := (p_workers pool_start)[0 := WTest], p_mut := Some (TWorker 0)\<rparr>
   in worker_critical (p_workers s ! 0) \<and> \<not> main_critical (p_main s)"
proof -
  let ?s = "pool_start\<lparr>p_workers := (p_workers pool_start)[0 := WTest], p_mut := Some (TWorker 0)\<rparr>"
  have w: "0 < length (p_workers ?s)" "p_workers ?s ! 0 = WTest"
    by (simp_all add: pool_start_def N_WORKERS_def)
  have "pool_step (\<lambda>_. 0) 3 pool_start ?s"
    by (rule worker_lock) (simp_all add: pool_start_def N_WORKERS_def)
  then have "reach pool_init (pool_step (\<lambda>_. 0) 3) ?s"
    using pool_start_init by (blast intro: reach.intros)
  from pool_mutual_exclusion [OF this _ w(1)] w show ?thesis by (simp add: pool_start_def)
qed

text \<open>
  C18: The critical sections never fault: in every reachable state a worker about to test the
  queue and the main thread about to add a descriptor can complete their call, whatever
  \<open>malloc\<close> answers, and both leave the queue a well-formed list.
\<close>

theorem pool_critical_sections_safe:
  assumes "reach pool_init (pool_step slack ls) s"
  shows "(\<exists>t. worker_test i s = Inr t \<and> queue_ok (p_queue t)) \<and>
         (\<exists>t. main_add fd s = Inr t \<and> queue_ok (p_queue t))"
proof -
  from pool.reach_inv [OF assms] have ok: "queue_ok (p_queue s)" by (simp add: pool_inv_def)
  obtain r q where add: "queue_add (p_queue s) fd = Inr (r, q)" using lq.add_total [OF ok] by blast
  obtain r' q' where pop: "queue_pop (p_queue s) = Inr (r', q')" using lq.pop_total [OF ok] by blast
  from add lq.add_inv [OF ok add] pop lq.pop_inv(1) [OF ok pop] ok show ?thesis
    by (simp add: worker_test_def main_add_def)
qed

theorem pool_critical_sections_safe_witness:
  "\<exists>t. main_add 8 pool_start = Inr t \<and> queue_ok (p_queue t)"
proof -
  have "reach pool_init (pool_step (\<lambda>_. 0) 3) pool_start"
    using pool_start_init by (rule reach_init)
  from pool_critical_sections_safe [OF this] show ?thesis by blast
qed

text \<open>
  A worker answers a readable descriptor with exactly one greeting that carries its own
  number, and closes it otherwise; its two stack buffers are large enough for every worker
  number a \<open>size_t\<close> can hold. Note that \<open>EAGAIN\<close>, which a second worker sees when two events
  for one descriptor are queued, also closes the connection.
\<close>

theorem process_client_fd_behaviour:
  assumes "wid < SIZE_MOD"
  shows "process_client_fd slack wid fd r =
    (case r of RxData (c # d) \<Rightarrow> Inr [Send fd (greeting wid)] | _ \<Rightarrow> Inr [Close fd])"
  using process_client_fd_total [OF assms] by (auto split: rx.splits list.splits)

theorem process_client_fd_behaviour_witness:
  "process_client_fd (\<lambda>_. 0) 24 9 RxAgain = Inr [Close 9]"
proof -
  have "24 < SIZE_MOD" by (simp add: SIZE_MOD_def)
  from process_client_fd_behaviour [OF this] show ?thesis by simp
qed

end
