(* ===== verification/Chat_Clients.thy ===== *)
theory Chat_Clients
  imports Interfaces
begin

text \<open>
  \<^verbatim>\<open>networking/epoll_chat_server/server.c\<close>, the table of connected clients: \<open>Client\<close>
  objects on the heap, an array of pointers to them that doubles when it is full, insertion,
  lookup by socket, the naming of a client, and removal. The table object is \<open>None\<close> once
  \<open>clients_destroy\<close> has freed it; the server keeps the pointer.
\<close>

section \<open>Data\<close>

record Client =
  c_sock :: int
  c_name :: "string option"   \<comment> \<open>\<open>None\<close>: the null pointer of a failed \<open>strndup\<close>\<close>

record Clients =
  cl_items :: "addr blk"
  cl_len :: nat
  cl_cap :: nat

record chat =
  ch_heap :: "Client store"
  ch_clients :: "Clients option"
  ch_script :: "bool list"
  ch_out :: "io list"

definition START_CLIENTS :: nat where "START_CLIENTS = 100"
definition MAX_CLIENTS :: nat where "MAX_CLIENTS = 1000000"
definition MAX_NAME_LEN :: nat where "MAX_NAME_LEN = 100"

definition get_clients :: "chat \<Rightarrow> Clients res" where
  "get_clients s = (case ch_clients s of None \<Rightarrow> Inl UseAfterFree | Some c \<Rightarrow> Inr c)"

section \<open>Operations\<close>

definition client_create :: "chat \<Rightarrow> int \<Rightarrow> string \<Rightarrow> ptr \<times> chat" where
  "client_create s sock name =
     (let (c, h, sc) = halloc (ch_script s) (ch_heap s) \<lparr>c_sock = sock, c_name = None\<rparr>
      in case c of
           None \<Rightarrow> (None, s\<lparr>ch_heap := h, ch_script := sc\<rparr>)
         | Some a \<Rightarrow>
             (let (nm, sc') = c_strndup sc name MAX_NAME_LEN
              in (Some a, s\<lparr>ch_heap := h[a := Some \<lparr>c_sock = sock, c_name = nm\<rparr>], ch_script := sc'\<rparr>)))"

definition client_destroy :: "ptr \<Rightarrow> chat \<Rightarrow> chat res" where
  "client_destroy c s =
     bindE (hload (ch_heap s) c) (\<lambda>_.
     bindE (hfree (ch_heap s) c) (\<lambda>h. Inr (s\<lparr>ch_heap := h\<rparr>)))"

definition client_update_name :: "ptr \<Rightarrow> string \<Rightarrow> bool \<Rightarrow> chat \<Rightarrow> (bool \<times> chat) res" where
  "client_update_name c name overwrite s =
     bindE (hload (ch_heap s) c) (\<lambda>cl.
     bindE (if overwrite then Inr False
            else case c_name cl of None \<Rightarrow> Inl NullDeref | Some n \<Rightarrow> Inr (\<not> c_strneq n [] 1)) (\<lambda>taken.
     if taken then Inr (False, s)
     else let (nm, sc) = c_strndup (ch_script s) name MAX_NAME_LEN
          in bindE (hupd (ch_heap s) c (\<lambda>cl. cl\<lparr>c_name := nm\<rparr>)) (\<lambda>h.
             Inr (True, s\<lparr>ch_heap := h, ch_script := sc\<rparr>))))"

definition clients_create :: "bool list \<Rightarrow> nat \<Rightarrow> Clients option \<times> bool list" where
  "clients_create sc cap =
     (let (ok, sc) = next_outcome sc
      in if \<not> ok then (None, sc)
         else let (items, sc) = c_malloc_array sc PTR_SIZE (size_mul cap PTR_SIZE)
              in case items of
                   None \<Rightarrow> (None, sc)
                 | Some b \<Rightarrow> (Some \<lparr>cl_items = b, cl_len = 0, cl_cap = cap\<rparr>, sc))"

definition clients_destroy :: "chat \<Rightarrow> chat res" where
  "clients_destroy s =
     bindE (get_clients s) (\<lambda>c.
     bindE (foldE (\<lambda>i s. bindE (aread (cl_items c) i) (\<lambda>a. client_destroy (Some a) s)) [0..<cl_len c] s) (\<lambda>s.
     Inr (s\<lparr>ch_clients := None\<rparr>)))"

text \<open>
  The part of \<open>clients_add\<close> that makes room. \<open>None\<close> means that \<open>clients_add\<close> returns -1
  here: the table is at its limit, or \<open>realloc\<close> failed and the table has been destroyed.
\<close>

definition clients_grow :: "chat \<Rightarrow> (Clients option \<times> chat) res" where
  "clients_grow s =
     bindE (get_clients s) (\<lambda>c.
     if cl_cap c \<le> cl_len c \<and> MAX_CLIENTS \<le> cl_cap c then Inr (None, s)
     else if cl_cap c \<le> cl_len c \<and> cl_cap c < MAX_CLIENTS then
       (let new_cap = size_mul (cl_cap c) 2
        in bindE (c_realloc (ch_script s) PTR_SIZE (cl_items c) (size_mul new_cap PTR_SIZE)) (\<lambda>(r, sc).
           let s = s\<lparr>ch_script := sc\<rparr>
           in case r of
                None \<Rightarrow> bindE (clients_destroy s) (\<lambda>s. Inr (None, s))
              | Some b \<Rightarrow>
                  (let c = c\<lparr>cl_items := b, cl_cap := new_cap\<rparr>
                   in Inr (Some c, s\<lparr>ch_clients := Some c\<rparr>))))
     else Inr (Some c, s))"

definition clients_add :: "int \<Rightarrow> string \<Rightarrow> chat \<Rightarrow> (int \<times> chat) res" where
  "clients_add sock name s =
     bindE (clients_grow s) (\<lambda>(room, s).
     case room of
       None \<Rightarrow> Inr (- 1, s)
     | Some c \<Rightarrow>
         (let (p, s) = client_create s sock name
          in case p of
               None \<Rightarrow> Inr (- 1, s)
             | Some a \<Rightarrow>
                 bindE (awrite (cl_items c) (cl_len c) a) (\<lambda>b.
                 Inr (0, s\<lparr>ch_clients := Some (c\<lparr>cl_items := b, cl_len := size_add (cl_len c) 1\<rparr>)\<rparr>))))"

fun find_sock :: "Client store \<Rightarrow> addr blk \<Rightarrow> int \<Rightarrow> nat list \<Rightarrow> ptr res" where
  "find_sock h items sock [] = Inr None"
| "find_sock h items sock (i # is) =
     bindE (aread items i) (\<lambda>a.
     bindE (hload h (Some a)) (\<lambda>c.
     if c_sock c = sock then Inr (Some a) else find_sock h items sock is))"

definition clients_get_by_socket :: "int \<Rightarrow> chat \<Rightarrow> ptr res" where
  "clients_get_by_socket sock s =
     bindE (get_clients s) (\<lambda>c. find_sock (ch_heap s) (cl_items c) sock [0..<cl_len c])"

text \<open>
  One iteration of the loop of \<open>client_disconnect\<close>, with the variable \<open>move\<close>. The loop goes on
  after it has freed the client.
\<close>

definition disconnect_body :: "ptr \<Rightarrow> nat \<Rightarrow> bool \<times> chat \<Rightarrow> (bool \<times> chat) res" where
  "disconnect_body client i ms =
     (let (move, s) = ms
      in bindE (get_clients s) (\<lambda>c.
         bindE (aread (cl_items c) i) (\<lambda>a.
         bindE (hload (ch_heap s) (Some a)) (\<lambda>ci.
         bindE (hload (ch_heap s) client) (\<lambda>cc.
         bindE (if c_sock ci = c_sock cc
                then bindE (client_destroy client (s\<lparr>ch_out := ch_out s @ [Close (c_sock cc)]\<rparr>)) (\<lambda>s. Inr (True, s))
                else Inr (move, s)) (\<lambda>(move, s).
         if move \<and> i < cl_len c
         then bindE (araw (cl_items c) (i + 1)) (\<lambda>v.
              bindE (aput (cl_items c) i v) (\<lambda>b.
              Inr (move, s\<lparr>ch_clients := Some (c\<lparr>cl_items := b\<rparr>)\<rparr>)))
         else Inr (move, s)))))))"

definition client_disconnect :: "ptr \<Rightarrow> chat \<Rightarrow> chat res" where
  "client_disconnect client s =
     bindE (hload (ch_heap s) client) (\<lambda>cc.
     let s = s\<lparr>ch_out := ch_out s @ [EpollDel (c_sock cc)]\<rparr>
     in bindE (get_clients s) (\<lambda>c.
        bindE (foldE (disconnect_body client) [0..<cl_len c] (False, s)) (\<lambda>(move, s).
        if move then bindE (get_clients s) (\<lambda>c. Inr (s\<lparr>ch_clients := Some (c\<lparr>cl_len := size_dec (cl_len c)\<rparr>)\<rparr>))
        else Inr s)))"

section \<open>The table as a list\<close>

text \<open>
  \<open>table_rep s as\<close>: the table object exists, its first \<open>len\<close> slots hold the distinct addresses
  \<open>as\<close> of live clients, and its block has \<open>cap\<close> slots of a size \<open>malloc\<close> grants.
\<close>

definition clients_rep :: "Clients \<Rightarrow> addr list \<Rightarrow> bool" where
  "clients_rep c as \<longleftrightarrow> cl_len c = length as \<and> block_rep PTR_SIZE (cl_items c) (cl_cap c) as \<and>
     cl_cap c < 2 * MAX_CLIENTS"

definition table_rep :: "chat \<Rightarrow> addr list \<Rightarrow> bool" where
  "table_rep s as \<longleftrightarrow>
     (case ch_clients s of None \<Rightarrow> False | Some c \<Rightarrow> clients_rep c as) \<and>
     distinct as \<and> (\<forall>a\<in>set as. is_live (ch_heap s) a)"

definition table_addrs :: "chat \<Rightarrow> addr list" where
  "table_addrs s = (case ch_clients s of None \<Rightarrow> [] | Some c \<Rightarrow> slots (cl_items c) (cl_len c))"

definition table_ok :: "chat \<Rightarrow> bool" where
  "table_ok s \<longleftrightarrow> table_rep s (table_addrs s)"

text \<open>No client has been forgotten: every one that is alive is in the table.\<close>

definition no_leak :: "chat \<Rightarrow> bool" where
  "no_leak s \<longleftrightarrow> (\<forall>a. is_live (ch_heap s) a \<longrightarrow> a \<in> set (table_addrs s))"

definition entry :: "chat \<Rightarrow> addr \<Rightarrow> int \<times> string option" where
  "entry s a = (c_sock (obj (ch_heap s) a), c_name (obj (ch_heap s) a))"

definition table_view :: "chat \<Rightarrow> (int \<times> string option) list" where
  "table_view s = map (entry s) (table_addrs s)"

text \<open>How many clients the array has slots for.\<close>

definition table_cap :: "chat \<Rightarrow> nat" where
  "table_cap s = (case ch_clients s of None \<Rightarrow> 0 | Some c \<Rightarrow> cl_cap c)"

lemma table_rep_addrs: "table_rep s as \<Longrightarrow> table_addrs s = as"
  by (auto simp: table_rep_def table_addrs_def clients_rep_def block_rep_def slots_holds split: option.splits)

lemma no_leak_rep: "table_rep s as \<Longrightarrow> no_leak s \<longleftrightarrow> (\<forall>a. is_live (ch_heap s) a \<longrightarrow> a \<in> set as)"
  by (simp add: no_leak_def table_rep_addrs)

lemma no_leak_out [simp]: "no_leak (s\<lparr>ch_out := e\<rparr>) = no_leak s"
  and no_leak_script [simp]: "no_leak (s\<lparr>ch_script := e'\<rparr>) = no_leak s"
  by (simp_all add: no_leak_def table_addrs_def)

lemma table_rep_ok: "table_rep s as \<Longrightarrow> table_ok s"
  by (simp add: table_ok_def table_rep_addrs)

lemma table_rep_view: "table_rep s as \<Longrightarrow> table_view s = map (entry s) as"
  by (simp add: table_view_def table_rep_addrs)

lemma table_repE:
  assumes "table_rep s as"
  obtains c where "ch_clients s = Some c" "get_clients s = Inr c" "clients_rep c as"
    "distinct as" "\<forall>a\<in>set as. is_live (ch_heap s) a"
  using assms by (auto simp: table_rep_def get_clients_def split: option.splits)

lemma clients_rep_len: "clients_rep c as \<Longrightarrow> cl_len c = length as"
  by (simp add: clients_rep_def)

lemma clients_rep_aread: "clients_rep c as \<Longrightarrow> i < length as \<Longrightarrow> aread (cl_items c) i = Inr (as ! i)"
  unfolding clients_rep_def by (blast intro: block_rep_aread)

lemma clients_rep_holds: "clients_rep c as \<Longrightarrow> holds (cl_items c) as"
  by (simp add: clients_rep_def block_rep_def)

lemma clients_rep_room: "clients_rep c as \<Longrightarrow> length as \<le> cl_cap c \<and> length (cl_items c) = cl_cap c"
  unfolding clients_rep_def by (blast dest: block_rep_room)

lemma clients_rep_small: "clients_rep c as \<Longrightarrow> Suc (length as) < SIZE_MOD"
  unfolding clients_rep_def by (auto intro: block_rep_small simp: PTR_SIZE_def)

lemma table_rep_out [simp]: "table_rep (s\<lparr>ch_out := e\<rparr>) as = table_rep s as"
  and table_rep_script [simp]: "table_rep (s\<lparr>ch_script := e'\<rparr>) as = table_rep s as"
  by (simp_all add: table_rep_def)

lemma table_view_simps [simp]:
  "table_view (s\<lparr>ch_out := e\<rparr>) = table_view s" "table_view (s\<lparr>ch_script := e'\<rparr>) = table_view s"
  by (simp_all add: table_view_def table_addrs_def entry_def)

section \<open>Lookup\<close>

lemma find_sock_holds:
  assumes "holds b as" and "\<forall>a\<in>set as. is_live h a" and "set is \<subseteq> {0..<length as}"
  shows "find_sock h b sock is = Inr (find (\<lambda>a. c_sock (obj h a) = sock) (map ((!) as) is))"
  using assms(3)
proof (induction "is")
  case (Cons i "is")
  then have "i < length as" by simp
  with assms Cons show ?case by simp
qed simp

lemma get_by_socket_rep:
  assumes "table_rep s as"
  shows "clients_get_by_socket sock s = Inr (find (\<lambda>a. c_sock (obj (ch_heap s) a) = sock) as)"
  using assms
proof (cases rule: table_repE)
  case (1 c)
  then have "find_sock (ch_heap s) (cl_items c) sock [0..<length as] =
      Inr (find (\<lambda>a. c_sock (obj (ch_heap s) a) = sock) as)"
    using find_sock_holds [OF clients_rep_holds, of c as "ch_heap s" "[0..<length as]" sock]
    by (simp add: map_nth)
  with 1 show ?thesis by (simp add: clients_get_by_socket_def clients_rep_def)
qed


section \<open>Destruction\<close>

lemma client_destroy_live:
  "is_live (ch_heap s) a \<Longrightarrow> client_destroy (Some a) s = Inr (s\<lparr>ch_heap := (ch_heap s)[a := None]\<rparr>)"
  by (simp add: client_destroy_def)

lemma destroy_all:
  "distinct as \<Longrightarrow> \<forall>a\<in>set as. is_live (ch_heap s) a \<Longrightarrow>
     \<exists>h. foldE (\<lambda>a s. client_destroy (Some a) s) as s = Inr (s\<lparr>ch_heap := h\<rparr>) \<and>
         (\<forall>a. is_live h a = (is_live (ch_heap s) a \<and> a \<notin> set as))"
proof (induction as arbitrary: s)
  case Nil
  show ?case by (rule exI [of _ "ch_heap s"]) simp
next
  case (Cons a as)
  let ?s = "s\<lparr>ch_heap := (ch_heap s)[a := None]\<rparr>"
  from Cons.prems have "distinct as" "\<forall>b\<in>set as. is_live (ch_heap ?s) b" by auto
  from Cons.IH [OF this] obtain h where
    "foldE (\<lambda>a s. client_destroy (Some a) s) as ?s = Inr (?s\<lparr>ch_heap := h\<rparr>)"
    "\<forall>b. is_live h b = (is_live (ch_heap ?s) b \<and> b \<notin> set as)" by blast
  with Cons.prems show ?case by (auto simp: client_destroy_live)
qed

lemma clients_destroy_rep:
  assumes "table_rep s as"
  shows "\<exists>h. clients_destroy s = Inr (s\<lparr>ch_heap := h, ch_clients := None\<rparr>) \<and>
           (\<forall>a. is_live h a = (is_live (ch_heap s) a \<and> a \<notin> set as))"
  using assms
proof (cases rule: table_repE)
  case (1 c)
  from destroy_all [OF 1(4,5)] obtain h where
    h: "foldE (\<lambda>a s. client_destroy (Some a) s) as s = Inr (s\<lparr>ch_heap := h\<rparr>)"
    "\<forall>a. is_live h a = (is_live (ch_heap s) a \<and> a \<notin> set as)" by blast
  from 1 h(1) have "clients_destroy s = Inr (s\<lparr>ch_heap := h, ch_clients := None\<rparr>)"
    using foldE_index [OF clients_rep_holds, of c as "\<lambda>a s. client_destroy (Some a) s" s]
    by (simp add: clients_destroy_def clients_rep_len)
  with h(2) show ?thesis by blast
qed

section \<open>Insertion\<close>

lemma client_create_cases:
  obtains (fail) sc where "client_create s sock name = (None, s\<lparr>ch_script := sc\<rparr>)"
  | (ok) nm sc where "client_create s sock name =
        (Some (length (ch_heap s)), s\<lparr>ch_heap := ch_heap s @ [Some \<lparr>c_sock = sock, c_name = nm\<rparr>], ch_script := sc\<rparr>)"
      and "nm \<in> {None, Some (take MAX_NAME_LEN name)}"
proof (cases rule: halloc_cases [of "ch_script s" "ch_heap s" "\<lparr>c_sock = sock, c_name = None\<rparr>"])
  case fail
  then show ?thesis using that(1) by (simp add: client_create_def)
next
  case (ok sc)
  then show ?thesis
    by (cases "next_outcome sc"; cases "fst (next_outcome sc)")
      (auto simp: client_create_def c_strndup_def intro: that(2))
qed

lemma clients_grow_rep:
  assumes "table_rep s as"
  obtains (full) "clients_grow s = Inr (None, s)" and "MAX_CLIENTS \<le> length as"
  | (lost) h sc where "clients_grow s = Inr (None, s\<lparr>ch_script := sc, ch_heap := h, ch_clients := None\<rparr>)"
      and "fst (next_outcome (ch_script s)) = False" and "\<forall>a. is_live h a = (is_live (ch_heap s) a \<and> a \<notin> set as)"
  | (ok) c sc where "clients_grow s = Inr (Some c, s\<lparr>ch_clients := Some c, ch_script := sc\<rparr>)"
      and "clients_rep c as" and "length as < cl_cap c" and "table_cap s \<le> cl_cap c"
      and "sc = ch_script s \<or> sc = snd (next_outcome (ch_script s))"
  using assms
proof (cases rule: table_repE)
  case (1 c)
  then have cap: "table_cap s = cl_cap c" and len: "cl_len c = length as"
    and b: "block_rep PTR_SIZE (cl_items c) (cl_cap c) as" by (simp_all add: table_cap_def clients_rep_def)
  let ?sc = "snd (next_outcome (ch_script s))"
  consider (room) "length as < cl_cap c" | (limit) "\<not> length as < cl_cap c" "MAX_CLIENTS \<le> cl_cap c"
    | (grow) "\<not> length as < cl_cap c" "cl_cap c < MAX_CLIENTS" by linarith
  then show ?thesis
  proof cases
    case room
    with 1 len have "clients_grow s = Inr (Some c, s\<lparr>ch_clients := Some c, ch_script := ch_script s\<rparr>)"
      by (simp add: clients_grow_def)
    from ok [OF this 1(3) room] cap show ?thesis by simp
  next
    case limit
    with 1 len show ?thesis by (intro full) (simp_all add: clients_grow_def)
  next
    case grow
    have "0 < PTR_SIZE" by (simp add: PTR_SIZE_def)
    with b show ?thesis using grow(1)
    proof (cases rule: block_double_cases [where sc = "ch_script s"])
      case granted
      let ?c = "c\<lparr>cl_items := cl_items c @ replicate (cl_cap c) None, cl_cap := 2 * cl_cap c\<rparr>"
      have "clients_rep ?c as" using 1(3) granted grow(2) by (simp add: clients_rep_def)
      moreover have "clients_grow s = Inr (Some ?c, s\<lparr>ch_clients := Some ?c, ch_script := ?sc\<rparr>)"
        using 1(2) len grow granted by (simp add: clients_grow_def Let_def)
      ultimately show ?thesis using granted cap by (intro ok [of ?c ?sc]) auto
    next
      case refused
      have no: "fst (next_outcome (ch_script s)) = False"
        using refused(4) grow(2) by (auto simp: MAX_CLIENTS_def PTRDIFF_MAX_def PTR_SIZE_def)
      have "table_rep (s\<lparr>ch_script := ?sc\<rparr>) as" using assms by simp
      from clients_destroy_rep [OF this] obtain h where
        h: "clients_destroy (s\<lparr>ch_script := ?sc\<rparr>) = Inr (s\<lparr>ch_script := ?sc, ch_heap := h, ch_clients := None\<rparr>)"
          "\<forall>a. is_live h a = (is_live (ch_heap s) a \<and> a \<notin> set as)" by auto
      have "clients_grow s = Inr (None, s\<lparr>ch_script := ?sc, ch_heap := h, ch_clients := None\<rparr>)"
        using 1(2) len grow refused h by (simp add: clients_grow_def Let_def)
      with h(2) no show ?thesis by (intro lost) auto
    qed
  qed
qed

text \<open>The insertion itself, when there is room for it and memory for the client.\<close>

lemma clients_add_at:
  fixes nm sc' s sock c "as"
  defines "t \<equiv> s\<lparr>ch_heap := ch_heap s @ [Some \<lparr>c_sock = sock, c_name = nm\<rparr>], ch_script := sc',
    ch_clients := Some (c\<lparr>cl_items := (cl_items c)[length as := Some (length (ch_heap s))], cl_len := Suc (length as)\<rparr>)\<rparr>"
  assumes rep: "table_rep s as" and grow: "clients_grow s = Inr (Some c, s\<lparr>ch_clients := Some c, ch_script := sc\<rparr>)"
    and c: "clients_rep c as" "length as < cl_cap c"
    and create: "client_create (s\<lparr>ch_clients := Some c, ch_script := sc\<rparr>) sock name = (Some (length (ch_heap s)),
      s\<lparr>ch_heap := ch_heap s @ [Some \<lparr>c_sock = sock, c_name = nm\<rparr>], ch_clients := Some c, ch_script := sc'\<rparr>)"
  shows "clients_add sock name s = Inr (0, t)" and "table_rep t (as @ [length (ch_heap s)])"
    and "table_view t = table_view s @ [(sock, nm)]" and "table_cap t = cl_cap c"
proof -
  from rep have live: "\<forall>a\<in>set as. is_live (ch_heap s) a" and dis: "distinct as"
    by (auto simp: table_rep_def)
  show "clients_add sock name s = Inr (0, t)"
    using grow create c clients_rep_room [OF c(1)] clients_rep_small [OF c(1)] clients_rep_len [OF c(1)]
    by (simp add: clients_add_def size_add_small t_def)
  have "clients_rep (c\<lparr>cl_items := (cl_items c)[length as := Some (length (ch_heap s))], cl_len := Suc (length as)\<rparr>)
      (as @ [length (ch_heap s)])"
    using c block_rep_snoc [of PTR_SIZE "cl_items c" "cl_cap c" as] by (simp add: clients_rep_def)
  then show rep': "table_rep t (as @ [length (ch_heap s)])"
    using live dis by (auto simp: table_rep_def t_def dest: is_live_less)
  show "table_view t = table_view s @ [(sock, nm)]"
    using live table_rep_view [OF rep'] table_rep_view [OF rep] by (simp add: entry_def t_def)
  show "table_cap t = cl_cap c" by (simp add: table_cap_def t_def)
qed

text \<open>What the table is after \<open>clients_add\<close>, on every branch.\<close>

lemma clients_add_rep:
  assumes "table_rep s as"
  obtains (added) s' nm where "clients_add sock name s = Inr (0, s')"
      and "table_rep s' (as @ [length (ch_heap s)])" and "table_view s' = table_view s @ [(sock, nm)]"
      and "nm \<in> {None, Some (take MAX_NAME_LEN name)}" and "no_leak s \<longrightarrow> no_leak s'"
  | (refused) s' where "clients_add sock name s = Inr (- 1, s')" and "table_rep s' as"
      and "table_view s' = table_view s" and "no_leak s \<longrightarrow> no_leak s'"
  | (destroyed) s' where "clients_add sock name s = Inr (- 1, s')" and "ch_clients s' = None"
      and "\<forall>a\<in>set as. \<not> is_live (ch_heap s') a" and "fst (next_outcome (ch_script s)) = False"
      and "no_leak s \<longrightarrow> no_leak s'"
  using assms
proof (cases rule: clients_grow_rep)
  case full
  then show ?thesis using assms by (intro refused [of s]) (simp_all add: clients_add_def)
next
  case (lost h sc)
  let ?t = "s\<lparr>ch_script := sc, ch_heap := h, ch_clients := None\<rparr>"
  have "no_leak s \<Longrightarrow> no_leak ?t" using lost(3) by (simp add: no_leak_rep [OF assms]) (auto simp: no_leak_def)
  with lost show ?thesis by (intro destroyed [of ?t]) (simp_all add: clients_add_def)
next
  case (ok c sc)
  let ?s = "s\<lparr>ch_clients := Some c, ch_script := sc\<rparr>"
  show ?thesis
  proof (cases rule: client_create_cases [of ?s sock name])
    case (fail sc')
    let ?t = "?s\<lparr>ch_script := sc'\<rparr>"
    have rep: "table_rep ?t as" using ok(2) assms by (auto simp: table_rep_def)
    then have "table_view ?t = table_view s"
      using table_rep_view [OF rep] table_rep_view [OF assms] by (simp add: entry_def)
    moreover have "no_leak s \<Longrightarrow> no_leak ?t" unfolding no_leak_rep [OF rep] no_leak_rep [OF assms] by simp
    ultimately show ?thesis using rep fail ok by (intro refused [of ?t]) (simp_all add: clients_add_def)
  next
    case create: (ok nm sc')
    have "client_create ?s sock name = (Some (length (ch_heap s)),
        s\<lparr>ch_heap := ch_heap s @ [Some \<lparr>c_sock = sock, c_name = nm\<rparr>], ch_clients := Some c, ch_script := sc'\<rparr>)"
      using create(1) by simp
    note at = clients_add_at [OF assms ok(1-3) this]
    have "no_leak s \<Longrightarrow> no_leak (s\<lparr>ch_heap := ch_heap s @ [Some \<lparr>c_sock = sock, c_name = nm\<rparr>], ch_script := sc',
      ch_clients := Some (c\<lparr>cl_items := (cl_items c)[length as := Some (length (ch_heap s))], cl_len := Suc (length as)\<rparr>)\<rparr>)"
      by (simp add: no_leak_rep [OF at(2)] no_leak_rep [OF assms])
    with at create(2) show ?thesis by (intro added) auto
  qed
qed

text \<open>With memory available an insertion below the limit succeeds.\<close>

lemma clients_add_ok:
  assumes rep: "table_rep s as" and sc: "ch_script s = []"
    and mem: "live_count (ch_heap s) + 1 < SIZE_MOD" and lim: "length as < MAX_CLIENTS"
  shows "\<exists>t. clients_add sock name s = Inr (0, t) \<and> table_rep t (as @ [length (ch_heap s)]) \<and>
           table_view t = table_view s @ [(sock, Some (take MAX_NAME_LEN name))] \<and> ch_script t = [] \<and>
           live_count (ch_heap t) = Suc (live_count (ch_heap s)) \<and> ch_out t = ch_out s \<and> table_cap s \<le> table_cap t"
  using rep
proof (cases rule: clients_grow_rep)
  case full
  with lim show ?thesis by simp
next
  case (lost h sc)
  with sc show ?thesis by simp
next
  case (ok c sc')
  have "sc' = []" using ok(5) sc by auto
  then have create: "client_create (s\<lparr>ch_clients := Some c, ch_script := sc'\<rparr>) sock name = (Some (length (ch_heap s)),
      s\<lparr>ch_heap := ch_heap s @ [Some \<lparr>c_sock = sock, c_name = Some (take MAX_NAME_LEN name)\<rparr>],
        ch_clients := Some c, ch_script := []\<rparr>)"
    using mem by (simp add: client_create_def halloc_ok c_strndup_def)
  note t = clients_add_at [OF rep ok(1-3) create]
  show ?thesis by (rule exI, intro conjI, rule t(1), rule t(2), rule t(3)) (simp_all add: t(4) ok(4))
qed

definition table_roomy :: "nat \<Rightarrow> chat \<Rightarrow> bool" where
  "table_roomy n s \<longleftrightarrow> ch_script s = [] \<and> live_count (ch_heap s) + n < SIZE_MOD \<and>
     length (table_addrs s) + n \<le> MAX_CLIENTS"

interpretation clients: growing_array table_ok table_view
  "\<lambda>(sock, name). (sock, Some (take MAX_NAME_LEN name))" table_roomy
  "\<lambda>s (sock, name). clients_add sock name s"
proof
  fix s n and x :: "int \<times> string"
  assume ok: "table_ok s" and room: "table_roomy (Suc n) s"
  obtain sock name where x: "x = (sock, name)" by fastforce
  from ok have rep: "table_rep s (table_addrs s)" by (simp add: table_ok_def)
  have "\<exists>t. clients_add sock name s = Inr (0, t) \<and> table_rep t (table_addrs s @ [length (ch_heap s)]) \<and>
           table_view t = table_view s @ [(sock, Some (take MAX_NAME_LEN name))] \<and> ch_script t = [] \<and>
           live_count (ch_heap t) = Suc (live_count (ch_heap s)) \<and> ch_out t = ch_out s \<and> table_cap s \<le> table_cap t"
    by (rule clients_add_ok [OF rep]) (use room in \<open>auto simp: table_roomy_def\<close>)
  then obtain t where t: "clients_add sock name s = Inr (0, t)"
      "table_rep t (table_addrs s @ [length (ch_heap s)])"
      "table_view t = table_view s @ [(sock, Some (take MAX_NAME_LEN name))]" "ch_script t = []"
      "live_count (ch_heap t) = Suc (live_count (ch_heap s))" by blast
  with room have "table_roomy n t" by (simp add: table_roomy_def table_rep_addrs)
  with t x show "\<exists>t. (case x of (sock, name) \<Rightarrow> clients_add sock name s) = Inr (0, t) \<and> table_ok t \<and>
      table_roomy n t \<and> table_view t = table_view s @ [case x of (sock, name) \<Rightarrow> (sock, Some (take MAX_NAME_LEN name))]"
    by (auto intro: table_rep_ok)
qed

section \<open>Removal\<close>

text \<open>Before the loop reaches the client it changes nothing.\<close>

lemma disconnect_skip:
  assumes rep: "table_rep s as" and a: "is_live (ch_heap s) a" and "is \<le> length as"
    and "\<forall>b\<in>set (take is as). c_sock (obj (ch_heap s) b) \<noteq> c_sock (obj (ch_heap s) a)"
  shows "foldE (disconnect_body (Some a)) [0..<is] (False, s) = Inr (False, s)"
  using assms(3,4)
proof (induction "is")
  case (Suc i)
  then have "foldE (disconnect_body (Some a)) [0..<i] (False, s) = Inr (False, s)"
    by (simp add: take_Suc_conv_app_nth)
  moreover have "disconnect_body (Some a) i (False, s) = Inr (False, s)"
    using rep
  proof (cases rule: table_repE)
    case (1 c)
    with Suc.prems a show ?thesis
      by (simp add: disconnect_body_def clients_rep_aread take_Suc_conv_app_nth)
  qed
  ultimately show ?case by (simp add: foldE_append)
qed simp

lemma disconnect_start:
  assumes "table_rep s as" and "a \<in> set as"
  obtains c where "ch_clients s = Some c" and "clients_rep c as"
    and "client_disconnect (Some a) s =
      bindE (foldE (disconnect_body (Some a)) [0..<length as]
               (False, s\<lparr>ch_out := ch_out s @ [EpollDel (c_sock (obj (ch_heap s) a))]\<rparr>)) (\<lambda>(move, s).
        if move then bindE (get_clients s) (\<lambda>c. Inr (s\<lparr>ch_clients := Some (c\<lparr>cl_len := size_dec (cl_len c)\<rparr>)\<rparr>))
        else Inr s)"
  using assms(1)
proof (cases rule: table_repE)
  case (1 c)
  have "client_disconnect (Some a) s =
      bindE (foldE (disconnect_body (Some a)) [0..<length as]
               (False, s\<lparr>ch_out := ch_out s @ [EpollDel (c_sock (obj (ch_heap s) a))]\<rparr>)) (\<lambda>(move, s).
        if move then bindE (get_clients s) (\<lambda>c. Inr (s\<lparr>ch_clients := Some (c\<lparr>cl_len := size_dec (cl_len c)\<rparr>)\<rparr>))
        else Inr s)"
    using 1 assms(2) by (simp add: client_disconnect_def get_clients_def clients_rep_len)
  then show ?thesis by (rule that [OF 1(1,3)])
qed

text \<open>
  The iteration that finds the client: it is closed and freed, and its slot takes the value of
  the next one, if that is still inside the array.
\<close>

lemma disconnect_hit:
  assumes rep: "table_rep s as" and i: "i < length as" and a: "as ! i = a"
    and c: "ch_clients s = Some c"
  shows "disconnect_body (Some a) i (False, s) =
    (if i + 1 < cl_cap c
     then Inr (True, s\<lparr>ch_out := ch_out s @ [Close (c_sock (obj (ch_heap s) a))],
            ch_heap := (ch_heap s)[a := None],
            ch_clients := Some (c\<lparr>cl_items := (cl_items c)[i := cl_items c ! (i + 1)]\<rparr>)\<rparr>)
     else Inl OutOfBounds)"
  using rep
proof (cases rule: table_repE)
  case (1 c')
  have "is_live (ch_heap s) a" using 1 i a by auto
  moreover have "i < length (cl_items c)" "length (cl_items c) = cl_cap c"
    using 1 i c clients_rep_room by fastforce+
  ultimately show ?thesis
    using 1 i a c by (simp add: disconnect_body_def clients_rep_aread clients_rep_len client_destroy_live araw_def)
qed

text \<open>The client in the last slot, with a slot to spare behind it.\<close>

lemma disconnect_last_run:
  assumes rep: "table_rep s (as @ [a])" and c: "ch_clients s = Some c"
    and others: "\<forall>b\<in>set as. c_sock (obj (ch_heap s) b) \<noteq> c_sock (obj (ch_heap s) a)"
  shows "client_disconnect (Some a) s =
    (if length as + 1 < cl_cap c
     then Inr (s\<lparr>ch_out := ch_out s @ [EpollDel (c_sock (obj (ch_heap s) a)), Close (c_sock (obj (ch_heap s) a))],
       ch_heap := (ch_heap s)[a := None],
       ch_clients := Some (c\<lparr>cl_items := (cl_items c)[length as := cl_items c ! (length as + 1)], cl_len := length as\<rparr>)\<rparr>)
     else Inl OutOfBounds)"
proof -
  let ?s = "s\<lparr>ch_out := ch_out s @ [EpollDel (c_sock (obj (ch_heap s) a))]\<rparr>"
  from rep have live: "is_live (ch_heap s) a" "\<forall>b\<in>set as. is_live (ch_heap s) b \<and> b \<noteq> a"
    and crep: "clients_rep c (as @ [a])"
    using c by (auto simp: table_rep_def)
  have reps: "table_rep ?s (as @ [a])" using rep by simp
  have skip: "foldE (disconnect_body (Some a)) [0..<length as] (False, ?s) = Inr (False, ?s)"
    by (rule disconnect_skip [OF reps]) (use live others in auto)
  have dec: "size_dec (Suc (length as)) = length as"
    using clients_rep_small [OF crep] by (intro size_dec_Suc) simp
  have "client_disconnect (Some a) s =
      bindE (disconnect_body (Some a) (length as) (False, ?s)) (\<lambda>(move, s).
        if move then bindE (get_clients s) (\<lambda>c. Inr (s\<lparr>ch_clients := Some (c\<lparr>cl_len := size_dec (cl_len c)\<rparr>)\<rparr>))
        else Inr s)"
    by (rule disconnect_start [OF rep, of a]) (simp_all add: foldE_append skip cong: if_cong)
  then show ?thesis
    using disconnect_hit [OF reps, of "length as" a c] c dec clients_rep_len [OF crep]
    by (simp add: get_clients_def nth_append)
qed

lemma client_disconnect_last:
  assumes rep: "table_rep s (as @ [a])" and c: "ch_clients s = Some c"
    and others: "\<forall>b\<in>set as. c_sock (obj (ch_heap s) b) \<noteq> c_sock (obj (ch_heap s) a)"
  shows "length as + 1 < cl_cap c \<Longrightarrow> \<exists>t. client_disconnect (Some a) s = Inr t \<and> table_rep t as \<and>
           table_view t = butlast (table_view s) \<and> \<not> is_live (ch_heap t) a \<and>
           ch_out t = ch_out s @ [EpollDel (c_sock (obj (ch_heap s) a)), Close (c_sock (obj (ch_heap s) a))] \<and>
           table_cap t = table_cap s \<and> ch_script t = ch_script s \<and> live_count (ch_heap t) \<le> live_count (ch_heap s) \<and>
           (no_leak s \<longrightarrow> no_leak t)"
    and "length as + 1 = cl_cap c \<Longrightarrow> client_disconnect (Some a) s = Inl OutOfBounds"
proof -
  note run = disconnect_last_run [OF rep c others]
  then show "length as + 1 = cl_cap c \<Longrightarrow> client_disconnect (Some a) s = Inl OutOfBounds" by simp
  assume room: "length as + 1 < cl_cap c"
  from rep have live: "is_live (ch_heap s) a" "\<forall>b\<in>set as. is_live (ch_heap s) b \<and> b \<noteq> a"
    and crep: "clients_rep c (as @ [a])" and dis: "distinct as"
    using c by (auto simp: table_rep_def)
  let ?c = "c\<lparr>cl_items := (cl_items c)[length as := cl_items c ! (length as + 1)], cl_len := length as\<rparr>"
  let ?t = "s\<lparr>ch_out := ch_out s @ [EpollDel (c_sock (obj (ch_heap s) a)), Close (c_sock (obj (ch_heap s) a))],
    ch_heap := (ch_heap s)[a := None], ch_clients := Some ?c\<rparr>"
  have "clients_rep ?c as"
    using crep by (auto simp: clients_rep_def block_rep_def holds_iff nth_append)
  then have rep': "table_rep ?t as" using live dis by (auto simp: table_rep_def)
  have "table_view ?t = butlast (table_view s)"
    using live table_rep_view [OF rep'] table_rep_view [OF rep] by (auto simp: entry_def)
  moreover have "client_disconnect (Some a) s = Inr ?t" using run room by simp
  moreover have "live_count (ch_heap ?t) \<le> live_count (ch_heap s)" by (simp add: live_count_free)
  moreover have "no_leak s \<longrightarrow> no_leak ?t" unfolding no_leak_rep [OF rep'] no_leak_rep [OF rep] by auto
  ultimately show "\<exists>t. client_disconnect (Some a) s = Inr t \<and> table_rep t as \<and>
           table_view t = butlast (table_view s) \<and> \<not> is_live (ch_heap t) a \<and>
           ch_out t = ch_out s @ [EpollDel (c_sock (obj (ch_heap s) a)), Close (c_sock (obj (ch_heap s) a))] \<and>
           table_cap t = table_cap s \<and> ch_script t = ch_script s \<and> live_count (ch_heap t) \<le> live_count (ch_heap s) \<and>
           (no_leak s \<longrightarrow> no_leak t)"
    using rep' c by (intro exI [of _ ?t]) (simp add: table_cap_def)
qed


text \<open>
  Any other client: the iteration after the one that freed it compares with the socket of the
  freed object.
\<close>

lemma client_disconnect_inner:
  assumes rep: "table_rep s (as @ a # b # bs)"
    and others: "\<forall>x\<in>set as. c_sock (obj (ch_heap s) x) \<noteq> c_sock (obj (ch_heap s) a)"
  shows "client_disconnect (Some a) s = Inl UseAfterFree"
proof -
  let ?all = "as @ a # b # bs"
  let ?k = "c_sock (obj (ch_heap s) a)"
  let ?s = "s\<lparr>ch_out := ch_out s @ [EpollDel ?k]\<rparr>"
  have "a \<in> set ?all" by simp
  with rep obtain c where c: "ch_clients s = Some c" and crep: "clients_rep c ?all"
    and run: "client_disconnect (Some a) s =
      bindE (foldE (disconnect_body (Some a)) [0..<length ?all] (False, ?s)) (\<lambda>(move, s).
        if move then bindE (get_clients s) (\<lambda>c. Inr (s\<lparr>ch_clients := Some (c\<lparr>cl_len := size_dec (cl_len c)\<rparr>)\<rparr>))
        else Inr s)"
    by (rule disconnect_start)
  from rep have live: "is_live (ch_heap s) a" "is_live (ch_heap s) b" "a \<noteq> b"
    using c by (auto simp: table_rep_def)
  have reps: "table_rep ?s ?all" using rep by simp
  have skip: "foldE (disconnect_body (Some a)) [0..<length as] (False, ?s) = Inr (False, ?s)"
    by (rule disconnect_skip [OF reps]) (use live others in auto)
  let ?n = "length as"
  have room: "?n + 1 < cl_cap c" "length (cl_items c) = cl_cap c" "cl_len c = length ?all"
    using clients_rep_room [OF crep] clients_rep_len [OF crep] by simp_all
  let ?c = "c\<lparr>cl_items := (cl_items c)[?n := cl_items c ! (?n + 1)]\<rparr>"
  let ?t = "s\<lparr>ch_out := ch_out s @ [EpollDel ?k, Close ?k], ch_heap := (ch_heap s)[a := None], ch_clients := Some ?c\<rparr>"
  have hit: "disconnect_body (Some a) ?n (False, ?s) = Inr (True, ?t)"
    using disconnect_hit [OF reps, of ?n a c] c room by simp
  have "cl_items c ! (?n + 1) = Some b"
    using clients_rep_holds [OF crep] by (auto simp: holds_iff nth_append)
  then have "aread (cl_items ?c) (?n + 1) = Inr b" using room by (simp add: aread_def)
  moreover have "hload ((ch_heap s)[a := None]) (Some a) = Inl UseAfterFree"
    using live by (intro hload_freed) (auto dest: is_live_less)
  ultimately have miss: "disconnect_body (Some a) (?n + 1) (True, ?t) = Inl UseAfterFree"
    using live by (simp add: disconnect_body_def get_clients_def)
  have idx: "[0..<length ?all] = [0..<?n] @ ?n # (?n + 1) # [?n + 2..<length ?all]"
    using upt_add_eq_append [of 0 ?n "length (a # b # bs)"] upt_conv_Cons [of ?n "length ?all"]
      upt_conv_Cons [of "?n + 1" "length ?all"] by simp
  have "foldE (disconnect_body (Some a)) [0..<length ?all] (False, ?s) = Inl UseAfterFree"
    unfolding idx foldE_append using skip hit miss by simp
  then show ?thesis unfolding run by simp
qed

section \<open>Naming\<close>

lemma update_name_live:
  assumes "is_live (ch_heap s) a"
  shows "client_update_name (Some a) name False s =
    (case c_name (obj (ch_heap s) a) of
       None \<Rightarrow> Inl NullDeref
     | Some [] \<Rightarrow>
         (let (nm, sc) = c_strndup (ch_script s) name MAX_NAME_LEN
          in Inr (True, s\<lparr>ch_heap := (ch_heap s)[a := Some ((obj (ch_heap s) a)\<lparr>c_name := nm\<rparr>)], ch_script := sc\<rparr>))
     | Some (c # cs) \<Rightarrow> Inr (False, s))"
  using assms
  by (auto simp: client_update_name_def c_strneq_def c_strndup_def split: option.splits list.splits prod.splits)

lemma update_name_rep:
  assumes "table_rep s as" and "is_live (ch_heap s) a"
  shows "table_rep (s\<lparr>ch_heap := (ch_heap s)[a := Some x]\<rparr>) as"
    and "no_leak (s\<lparr>ch_heap := (ch_heap s)[a := Some x]\<rparr>) = no_leak s"
  using assms by (auto simp: table_rep_def no_leak_def table_addrs_def dest: is_live_less)

section \<open>Properties\<close>

text \<open>
  \<open>clients_add\<close> on a well-formed table, whatever the allocator answers, ends in one of
  three ways: it returns 0 and the new client, with its name cut to 100 bytes (or a null name
  when \<open>strndup\<close> fails), is appended; it returns -1 and the table is as before; or \<open>realloc\<close>
  failed, every client has been freed with the table, and every later lookup is a use after
  free, because the server keeps running.
\<close>

theorem clients_add_outcome:
  assumes "table_ok s"
  shows "\<exists>r t. clients_add sock name s = Inr (r, t) \<and>
    (r = 0 \<and> table_ok t \<and> (table_view t = table_view s @ [(sock, Some (take MAX_NAME_LEN name))] \<or>
                           table_view t = table_view s @ [(sock, None)]) \<or>
     r = - 1 \<and> table_ok t \<and> table_view t = table_view s \<or>
     r = - 1 \<and> fst (next_outcome (ch_script s)) = False \<and>
       (\<forall>k. clients_get_by_socket k t = Inl UseAfterFree))"
proof -
  from assms have "table_rep s (table_addrs s)" by (simp add: table_ok_def)
  then show ?thesis
    by (cases rule: clients_add_rep [of _ _ sock name])
      (auto simp: clients_get_by_socket_def get_clients_def intro: table_rep_ok)
qed

definition chat_two :: "bool list \<Rightarrow> chat" where
  "chat_two sc = \<lparr>ch_heap = [Some \<lparr>c_sock = 4, c_name = Some ''ann''\<rparr>, Some \<lparr>c_sock = 5, c_name = Some []\<rparr>],
     ch_clients = Some \<lparr>cl_items = [Some 0, Some 1, None], cl_len = 2, cl_cap = 3\<rparr>,
     ch_script = sc, ch_out = []\<rparr>"

lemma chat_two_rep: "table_rep (chat_two sc) [0, 1]"
  by (auto simp: table_rep_def chat_two_def clients_rep_def block_rep_def size_defs holds_def is_live_def MAX_CLIENTS_def less_Suc_eq nth_Cons')

lemma chat_two_ok: "table_ok (chat_two sc)"
  by (rule table_rep_ok [OF chat_two_rep])

lemma chat_two_view: "table_view (chat_two sc) = [(4, Some ''ann''), (5, Some [])]"
  by (simp add: table_rep_view [OF chat_two_rep]) (simp add: chat_two_def entry_def obj_def)

theorem clients_add_outcome_witness:
  "\<exists>r t. clients_add 9 ''bob'' (chat_two [True, False]) = Inr (r, t) \<and> (r = 0 \<or> r = - 1)"
  using clients_add_outcome [OF chat_two_ok, of 9 "''bob''" "[True, False]"] by blast

text \<open>
  As long as memory lasts and the limit of a million is not reached, a sequence of
  insertions builds exactly the list of its clients, in order, through every doubling of the
  array.
\<close>

theorem clients_add_many:
  assumes "table_ok s" and "table_roomy (length xs) s"
  shows "\<exists>t. run_adds (\<lambda>s (sock, name). clients_add sock name s) xs s = Inr (replicate (length xs) 0, t) \<and>
    table_ok t \<and> table_view t = table_view s @ map (\<lambda>(sock, name). (sock, Some (take MAX_NAME_LEN name))) xs"
  using clients.run_adds_ok [OF assms] by blast

theorem clients_add_many_witness:
  "\<exists>t. run_adds (\<lambda>s (sock, name). clients_add sock name s) [(7, []), (8, [])] (chat_two []) = Inr ([0, 0], t) \<and>
     table_view t = [(4, Some ''ann''), (5, Some []), (7, Some []), (8, Some [])]"
proof -
  have room: "table_roomy (length [(7::int, []::string), (8, [])]) (chat_two [])"
    by (simp add: table_roomy_def table_rep_addrs [OF chat_two_rep])
      (simp add: chat_two_def live_count_def SIZE_MOD_def MAX_CLIENTS_def)
  from clients_add_many [OF chat_two_ok room] show ?thesis
    by (auto simp: chat_two_view numeral_2_eq_2)
qed

text \<open>
  Lookup by socket returns the first client of the table with that socket and the null
  pointer when there is none; it never faults on a well-formed table.
\<close>

theorem clients_lookup_first:
  assumes "table_ok s"
  shows "clients_get_by_socket sock s = Inr (find (\<lambda>a. fst (entry s a) = sock) (table_addrs s))"
  using get_by_socket_rep [of s "table_addrs s" sock] assms by (simp add: table_ok_def entry_def)

theorem clients_lookup_first_witness: "clients_get_by_socket 5 (chat_two []) = Inr (Some 1)"
  using clients_lookup_first [OF chat_two_ok, of 5 "[]"]
  by (simp add: table_rep_addrs [OF chat_two_rep]) (simp add: chat_two_def entry_def obj_def)

text \<open>
  Disconnecting the client in the last slot, when the array has a slot to spare, removes
  exactly that client: it is unregistered from \<open>epoll\<close>, then closed, its object is freed and
  the rest of the table is unchanged.
\<close>

theorem disconnect_last_removes:
  assumes "table_rep s (as @ [a])" and "ch_clients s = Some c" and "length as + 1 < cl_cap c"
    and "\<forall>b\<in>set as. fst (entry s b) \<noteq> fst (entry s a)"
  shows "\<exists>t. client_disconnect (Some a) s = Inr t \<and> table_rep t as \<and>
           table_view t = butlast (table_view s) \<and> \<not> is_live (ch_heap t) a \<and>
           ch_out t = ch_out s @ [EpollDel (fst (entry s a)), Close (fst (entry s a))]"
  using client_disconnect_last(1) [OF assms(1,2) _ assms(3)] assms(4) by (auto simp: entry_def)

theorem disconnect_last_removes_witness:
  "\<exists>t. client_disconnect (Some 1) (chat_two []) = Inr t \<and> table_view t = [(4, Some ''ann'')] \<and>
     ch_out t = [EpollDel 5, Close 5]"
proof -
  have rep: "table_rep (chat_two []) ([0] @ [1])" using chat_two_rep by simp
  have c: "ch_clients (chat_two []) = Some \<lparr>cl_items = [Some 0, Some 1, None], cl_len = 2, cl_cap = 3\<rparr>"
    by (simp add: chat_two_def)
  have e: "entry (chat_two []) 0 = (4, Some ''ann'')" "entry (chat_two []) 1 = (5, Some [])"
    by (simp_all add: entry_def chat_two_def obj_def)
  from disconnect_last_removes [OF rep c] e chat_two_view show ?thesis
    by (auto simp: chat_two_def)
qed

text \<open>
  C35: Disconnecting any client that is not in the last slot is a use after free: the loop goes
  on after \<open>client_destroy\<close> and compares the next entry with \<open>client->sock\<close>.
\<close>

theorem disconnect_inner_use_after_free:
  assumes "table_rep s (as @ a # b # bs)" and "\<forall>x\<in>set as. fst (entry s x) \<noteq> fst (entry s a)"
  shows "client_disconnect (Some a) s = Inl UseAfterFree"
  using client_disconnect_inner [OF assms(1)] assms(2) by (simp add: entry_def)

theorem disconnect_inner_use_after_free_witness:
  "client_disconnect (Some 0) (chat_two []) = Inl UseAfterFree"
  using disconnect_inner_use_after_free [of "chat_two []" "[]" 0 1 "[]"] chat_two_rep by simp

text \<open>
  A client is named once: \<open>client_update_name\<close> without \<open>overwrite\<close> sets an empty name to
  the first 100 bytes of the text and refuses, changing nothing, when the client already has a
  name; the other clients and the order of the table stay the same.
\<close>

theorem update_name_once:
  assumes "table_rep s as" and "a \<in> set as" and "c_name (obj (ch_heap s) a) = Some n"
    and "ch_script s = []"
  shows "\<exists>t. client_update_name (Some a) name False s = Inr (n = [], t) \<and> table_rep t as \<and>
    (\<forall>b\<in>set as. entry t b = (if b = a \<and> n = [] then (fst (entry s a), Some (take MAX_NAME_LEN name)) else entry s b))"
proof -
  from assms(1,2) have live: "is_live (ch_heap s) a" by (auto simp: table_rep_def)
  show ?thesis
  proof (cases n)
    case Nil
    let ?t = "s\<lparr>ch_heap := (ch_heap s)[a := Some ((obj (ch_heap s) a)\<lparr>c_name := Some (take MAX_NAME_LEN name)\<rparr>)]\<rparr>"
    have "client_update_name (Some a) name False s = Inr (True, ?t)"
      using update_name_live [OF live, of name] assms(3,4) Nil by (simp add: c_strndup_def)
    with Nil update_name_rep [OF assms(1) live] live show ?thesis
      by (auto simp: entry_def obj_update is_live_less intro!: exI [of _ ?t])
  next
    case (Cons c cs)
    with assms update_name_live [OF live, of name] show ?thesis by simp
  qed
qed

theorem update_name_once_witness:
  "\<exists>t. client_update_name (Some 1) ''bob'' False (chat_two []) = Inr (True, t) \<and> entry t 1 = (5, Some ''bob'')"
proof -
  have n: "c_name (obj (ch_heap (chat_two [])) 1) = Some []"
    and e: "entry (chat_two []) 1 = (5, Some [])" by (simp_all add: chat_two_def obj_def entry_def)
  from update_name_once [OF chat_two_rep _ n, of "''bob''"] e show ?thesis
    by (auto simp: chat_two_def MAX_NAME_LEN_def)
qed

end
