(* ===== verification/Chat_Server.thy ===== *)
theory Chat_Server
  imports Chat_Clients
begin

unbundle bit_operations_syntax

text \<open>
  \<^verbatim>\<open>networking/epoll_chat_server/server.c\<close>, the server around the table of \<open>Chat_Clients\<close>:
  trimming of a received line, broadcasting, the commands, the handler of a readable
  descriptor (edge triggered: it calls \<open>recv\<close> until \<open>EAGAIN\<close>) and the event loop.
\<close>

section \<open>Operations\<close>

definition MSG_EXIT :: string where "MSG_EXIT = ''exit''"
definition BUF_SIZE :: nat where "BUF_SIZE = 1024"

definition trimmed :: "char \<Rightarrow> bool" where
  "trimmed c \<longleftrightarrow> c_isspace c \<or> byte c < 32 \<or> byte c > 126"

text \<open>
  The loop of \<open>etrim_whitespaces\<close>; the argument is \<open>end + 1 - str\<close>. It never moves \<open>end\<close> below
  the first character.
\<close>

fun trim_len :: "char list \<Rightarrow> nat \<Rightarrow> nat" where
  "trim_len str 0 = 0"
| "trim_len str (Suc end) = (if 0 < end \<and> trimmed (str ! end) then trim_len str end else Suc end)"

definition etrim_whitespaces :: "char list \<Rightarrow> char list res" where
  "etrim_whitespaces str =
     bindE (c_str str 0) (\<lambda>s. Inr (str[trim_len str (length s) := NUL]))"

definition broadcast_text :: "string \<Rightarrow> string \<Rightarrow> string" where
  "broadcast_text name msg = ''['' @ name @ ''] '' @ msg @ [NEWLINE]"

definition broadcast :: "(nat \<Rightarrow> nat) \<Rightarrow> string \<Rightarrow> ptr \<Rightarrow> chat \<Rightarrow> chat res" where
  "broadcast slack msg client s =
     bindE (hload (ch_heap s) client) (\<lambda>cl.
     case c_name cl of None \<Rightarrow> Inl NullDeref
     | Some name \<Rightarrow>
         (let len = length msg + 4 + length name; buf = broadcast_text name msg
          in bindE (sprintf_fits slack len buf) (\<lambda>_.
             bindE (get_clients s) (\<lambda>c.
             foldE (\<lambda>i s.
               bindE (aread (cl_items c) i) (\<lambda>a.
               bindE (hload (ch_heap s) (Some a)) (\<lambda>ci.
               bindE (hload (ch_heap s) client) (\<lambda>cc.
               if c_sock ci \<noteq> c_sock cc
               then Inr (s\<lparr>ch_out := ch_out s @ [Send (c_sock ci) (take len buf)]\<rparr>)
               else Inr s)))) [0..<cl_len c] s))))"

definition process_message :: "(nat \<Rightarrow> nat) \<Rightarrow> string \<Rightarrow> ptr \<Rightarrow> chat \<Rightarrow> (bool \<times> chat) res" where
  "process_message slack msg client s =
     bindE (hload (ch_heap s) client) (\<lambda>cl.
     case c_name cl of None \<Rightarrow> Inl NullDeref
     | Some _ \<Rightarrow>
         if c_strneq msg MSG_EXIT (length MSG_EXIT)
         then bindE (client_disconnect client s) (\<lambda>s. Inr (True, s))
         else bindE (broadcast slack msg client s) (\<lambda>s. Inr (False, s)))"

text \<open>\<open>client && strlen (client->name) == 0\<close>\<close>

definition is_unnamed :: "ptr \<Rightarrow> chat \<Rightarrow> bool res" where
  "is_unnamed client s =
     (if client = None then Inr False
      else bindE (hload (ch_heap s) client) (\<lambda>cl.
           case c_name cl of None \<Rightarrow> Inl NullDeref | Some n \<Rightarrow> Inr (length n = 0)))"

text \<open>What the handler does with one received line; the flag says that it leaves its loop.\<close>

definition handle_line :: "(nat \<Rightarrow> nat) \<Rightarrow> int \<Rightarrow> string \<Rightarrow> chat \<Rightarrow> (bool \<times> chat) res" where
  "handle_line slack sock line s =
     bindE (clients_get_by_socket sock s) (\<lambda>client.
     bindE (is_unnamed client s) (\<lambda>unnamed.
     if unnamed
     then bindE (client_update_name client line False s) (\<lambda>(updated, s).
          if updated
          then bindE (hload (ch_heap s) client) (\<lambda>cl.
               if c_name cl = None then Inl NullDeref else Inr (False, s))
          else Inr (False, s))
     else process_message slack line client s))"

text \<open>
  The loop of \<open>handle_request\<close>: \<open>rs\<close> are the results of its \<open>recv\<close> calls, after them the socket
  has nothing more to read. The buffer is cleared before the loop only.
\<close>

fun request_loop :: "(nat \<Rightarrow> nat) \<Rightarrow> int \<Rightarrow> rx list \<Rightarrow> char list \<Rightarrow> chat \<Rightarrow> chat res" where
  "request_loop slack sock [] buf s = Inr s"
| "request_loop slack sock (r # rs) buf s =
     (case recv_upto (BUF_SIZE - 1) r of
        RxData d \<Rightarrow>
          bindE (etrim_whitespaces (buf_write buf d)) (\<lambda>buf.
          bindE (c_str buf 0) (\<lambda>line.
          bindE (handle_line slack sock line s) (\<lambda>(disconnected, s).
          if disconnected then Inr s else request_loop slack sock rs buf s)))
      | RxEof \<Rightarrow>
          bindE (clients_get_by_socket sock s) (\<lambda>client.
          if client = None then Inr s else client_disconnect client s)
      | RxAgain \<Rightarrow> Inr s
      | RxErr \<Rightarrow> Inr (s\<lparr>ch_out := ch_out s @ [Close sock]\<rparr>))"

definition handle_request :: "(nat \<Rightarrow> nat) \<Rightarrow> int \<Rightarrow> rx list \<Rightarrow> chat \<Rightarrow> chat res" where
  "handle_request slack sock rs s = request_loop slack sock rs (replicate BUF_SIZE NUL) s"

text \<open>
  \<open>getfl\<close> is what \<open>fcntl (F_GETFL)\<close> returns, \<open>setfl\<close> what \<open>fcntl (F_SETFL)\<close> returns for the new
  flags. \<open>main\<close> does not look at the result.
\<close>

definition chat_setnonblocking :: "int \<Rightarrow> (int \<Rightarrow> int) \<Rightarrow> int" where
  "chat_setnonblocking getfl setfl =
     (let flags = getfl
      in if flags = - 1 then - 1
         else let flags = setfl (flags OR O_NONBLOCK)
              in if flags = - 1 then - 1 else 0)"

lemma chat_setnonblocking_ok:
  "chat_setnonblocking getfl setfl = 0 \<longleftrightarrow> getfl \<noteq> - 1 \<and> setfl (getfl OR O_NONBLOCK) \<noteq> - 1"
  by (simp add: chat_setnonblocking_def Let_def)

lemma nonblocking_keeps_flags: "(flags OR O_NONBLOCK) AND O_NONBLOCK = O_NONBLOCK" "flags AND (flags OR O_NONBLOCK) = flags"
  by (simp_all add: bit_eq_iff bit_simps) auto

text \<open>
  One event of the loop in \<open>main\<close>: a new connection (what \<open>accept\<close> and \<open>epoll_ctl\<close> return) or a
  readable descriptor. \<open>None\<close> is \<open>exit (EXIT_FAILURE)\<close>. The result of \<open>clients_add\<close> is not
  looked at.
\<close>

datatype chat_event = ListenReady int int | ConnReady int "rx list"

definition main_event :: "(nat \<Rightarrow> nat) \<Rightarrow> chat_event \<Rightarrow> chat \<Rightarrow> chat option res" where
  "main_event slack ev s =
     (case ev of
        ListenReady cs ctl \<Rightarrow>
          if cs = - 1 then Inr None
          else if ctl = - 1 then Inr (Some s)
          else bindE (clients_add cs [] (s\<lparr>ch_out := ch_out s @ [EpollAdd cs]\<rparr>)) (\<lambda>(_, s). Inr (Some s))
      | ConnReady fd rs \<Rightarrow> bindE (handle_request slack fd rs s) (\<lambda>s. Inr (Some s)))"

fun main_loop :: "(nat \<Rightarrow> nat) \<Rightarrow> chat_event list \<Rightarrow> chat \<Rightarrow> chat option res" where
  "main_loop slack [] s = Inr (Some s)"
| "main_loop slack (ev # evs) s =
     bindE (main_event slack ev s) (\<lambda>r. case r of None \<Rightarrow> Inr None | Some t \<Rightarrow> main_loop slack evs t)"

lemma main_loop_append:
  "main_loop slack (xs @ ys) s = bindE (main_loop slack xs s) (\<lambda>r. case r of None \<Rightarrow> Inr None | Some t \<Rightarrow> main_loop slack ys t)"
  by (induction xs arbitrary: s) (auto simp: bindE_def split: sum.splits option.splits)

section \<open>Trimming\<close>

lemma trim_len_le: "trim_len str n \<le> n"
  by (induction n) auto

lemma trim_len_pos: "0 < n \<Longrightarrow> 0 < trim_len str n"
  by (induction n) auto

lemma trim_len_last: "1 < trim_len str n \<Longrightarrow> \<not> trimmed (str ! (trim_len str n - 1))"
  by (induction n) auto

lemma trim_len_cut: "trim_len str n \<le> i \<Longrightarrow> i < n \<Longrightarrow> trimmed (str ! i)"
proof (induction n)
  case (Suc n)
  then show ?case by (cases "i = n") (auto split: if_splits)
qed simp

lemma trim_len_cong: "(\<And>i. i < n \<Longrightarrow> a ! i = b ! i) \<Longrightarrow> trim_len a n = trim_len b n"
  by (induction n) auto

text \<open>The text a line is reduced to.\<close>

definition trim :: "string \<Rightarrow> string" where
  "trim s = take (trim_len s (length s)) s"

lemma trim_id: "s = [] \<or> \<not> trimmed (last s) \<Longrightarrow> trim s = s"
  by (cases s rule: rev_cases) (auto simp: trim_def)

text \<open>The reference definition: the end is dropped, but the first character stays.\<close>

definition etrim_ref :: "string \<Rightarrow> string" where
  "etrim_ref s = (case s of [] \<Rightarrow> [] | c # cs \<Rightarrow> c # rev (dropWhile trimmed (rev cs)))"

lemma trim_snoc: "trim ((c # cs) @ [x]) = (if trimmed x then trim (c # cs) else (c # cs) @ [x])"
proof -
  let ?s = "(c # cs) @ [x]"
  have last: "?s ! Suc (length cs) = x" by (simp add: nth_append)
  have "trim_len ?s (Suc (length cs)) = trim_len (c # cs) (Suc (length cs))"
    by (rule trim_len_cong) (simp only: nth_append length_Cons if_True)
  moreover have "trim_len ?s (Suc (Suc (length cs))) =
      (if trimmed x then trim_len ?s (Suc (length cs)) else Suc (Suc (length cs)))"
    by (subst trim_len.simps(2)) (simp only: last zero_less_Suc simp_thms)
  moreover have "take n ?s = take n (c # cs)" if "n \<le> Suc (length cs)" for n
    using that by (subst take_append) simp
  ultimately show ?thesis
    using trim_len_le [of "c # cs" "Suc (length cs)"] by (simp add: trim_def del: trim_len.simps)
qed

lemma trim_ref: "trim s = etrim_ref s"
proof (cases s)
  case (Cons c cs)
  have "trim (c # cs) = c # rev (dropWhile trimmed (rev cs))"
  proof (induction cs rule: rev_induct)
    case (snoc x xs)
    with trim_snoc [of c xs x] show ?case by simp
  qed (simp add: trim_def)
  with Cons show ?thesis by (simp add: etrim_ref_def)
qed (simp add: trim_def etrim_ref_def)

lemma c_str_split:
  assumes "c_str buf 0 = Inr s"
  obtains rest where "buf = s @ NUL # rest" and "NUL \<notin> set s"
proof -
  from assms have "NUL \<in> set buf" and s: "s = takeWhile (\<lambda>c. c \<noteq> NUL) buf"
    by (auto simp: c_str_def split: if_splits)
  then obtain xs ys where "buf = xs @ NUL # ys" "NUL \<notin> set xs" by (metis split_list_first)
  moreover from this s have "s = xs" by (simp add: takeWhile_no_NUL)
  ultimately show ?thesis using that by simp
qed

lemma etrim_buf:
  assumes "NUL \<notin> set s"
  shows "\<exists>rest'. etrim_whitespaces (s @ NUL # rest) = Inr (trim s @ NUL # rest') \<and>
     trim s @ NUL # rest' = (s @ NUL # rest)[length (trim s) := NUL]"
proof -
  let ?n = "trim_len s (length s)"
  have n: "?n \<le> length s" by (rule trim_len_le)
  have "trim_len (s @ NUL # rest) (length s) = ?n"
    by (rule trim_len_cong) (simp add: nth_append)
  then have e: "etrim_whitespaces (s @ NUL # rest) = Inr ((s @ NUL # rest)[?n := NUL])"
    using assms by (simp add: etrim_whitespaces_def c_str_terminated)
  have len: "length (trim s) = ?n" using n by (simp add: trim_def)
  have "(s @ NUL # rest)[?n := NUL] = take ?n (s @ NUL # rest) @ NUL # drop (Suc ?n) (s @ NUL # rest)"
    using n by (simp add: upd_conv_take_nth_drop)
  also have "\<dots> = trim s @ NUL # drop (Suc ?n) (s @ NUL # rest)"
    using n by (simp add: trim_def)
  finally show ?thesis using e len by metis
qed

lemma NUL_trim: "NUL \<notin> set s \<Longrightarrow> NUL \<notin> set (trim s)"
  by (auto simp: trim_def dest: in_set_takeD)

lemma etrim_c_str:
  assumes "c_str buf 0 = Inr s"
  shows "\<exists>buf'. etrim_whitespaces buf = Inr buf' \<and> length buf' = length buf \<and> c_str buf' 0 = Inr (trim s)"
proof -
  from assms obtain rest where b: "buf = s @ NUL # rest" "NUL \<notin> set s" by (rule c_str_split)
  from etrim_buf [OF b(2), of rest] obtain rest' where
    "etrim_whitespaces buf = Inr (trim s @ NUL # rest')"
    "trim s @ NUL # rest' = buf[length (trim s) := NUL]" using b by blast
  moreover from this(2) have "length (trim s @ NUL # rest') = length buf" by simp
  moreover have "c_str (trim s @ NUL # rest') 0 = Inr (trim s)"
    by (rule c_str_terminated [OF NUL_trim [OF b(2)]])
  ultimately show ?thesis by metis
qed

section \<open>Broadcasting\<close>

text \<open>Who receives a message of the client with socket \<open>k\<close>: everyone else, in table order.\<close>

definition recipients :: "int \<Rightarrow> (int \<times> string option) list \<Rightarrow> int list" where
  "recipients k view = filter (\<lambda>x. x \<noteq> k) (map fst view)"

lemma broadcast_loop:
  assumes "\<forall>a\<in>set as. is_live (ch_heap s) a" and "is_live (ch_heap s) cl"
  shows "foldE (\<lambda>a s.
               bindE (hload (ch_heap s) (Some a)) (\<lambda>ci.
               bindE (hload (ch_heap s) (Some cl)) (\<lambda>cc.
               if c_sock ci \<noteq> c_sock cc
               then Inr (s\<lparr>ch_out := ch_out s @ [Send (c_sock ci) m]\<rparr>)
               else Inr s))) as s =
     Inr (s\<lparr>ch_out := ch_out s @ map (\<lambda>k. Send k m) (recipients (fst (entry s cl)) (map (entry s) as))\<rparr>)"
  using assms
proof (induction as arbitrary: s)
  case Nil
  then show ?case by (simp add: recipients_def)
next
  case (Cons a as)
  let ?t = "s\<lparr>ch_out := ch_out s @ [Send (c_sock (obj (ch_heap s) a)) m]\<rparr>"
  have e: "entry ?t = entry s" by (rule ext) (simp add: entry_def)
  from Cons.IH [of s] Cons.IH [of ?t] Cons.prems show ?case
    by (simp add: e) (simp add: recipients_def entry_def)
qed

lemma broadcast_rep:
  assumes rep: "table_rep s as" and a: "a \<in> set as" and name: "c_name (obj (ch_heap s) a) = Some name"
  shows "broadcast slack msg (Some a) s =
    (if 0 < slack (length msg + 4 + length name)
     then Inr (s\<lparr>ch_out := ch_out s @
            map (\<lambda>k. Send k (broadcast_text name msg)) (recipients (fst (entry s a)) (table_view s))\<rparr>)
     else Inl OutOfBounds)"
  using rep
proof (cases rule: table_repE)
  case (1 c)
  then have b: "holds (cl_items c) as" "cl_len c = length as" and live: "is_live (ch_heap s) a"
    using a by (simp_all add: clients_rep_len clients_rep_holds)
  have len: "length (broadcast_text name msg) = length msg + 4 + length name"
    by (simp add: broadcast_text_def)
  then have whole: "take (length msg + 4 + length name) (broadcast_text name msg) = broadcast_text name msg"
    by simp
  show ?thesis
    unfolding broadcast_def hload_live [OF live] bindE_Inr name option.case Let_def sprintf_fits_def len
      1(2) b(2) whole
    by (simp add: foldE_index [OF b(1)] broadcast_loop [OF 1(5) live] table_rep_view [OF rep])
qed


section \<open>The table under the handlers\<close>

text \<open>\<open>client_disconnect\<close> either faults or removes the client that the lookup has found.\<close>

lemma disconnect_found:
  assumes rep: "table_rep s as" and "find (\<lambda>a. c_sock (obj (ch_heap s) a) = sock) as = Some a"
    and ret: "client_disconnect (Some a) s = Inr t"
  shows "table_ok t \<and> table_view t = butlast (table_view s) \<and> (no_leak s \<longrightarrow> no_leak t)"
  using assms(2)
proof (rule find_SomeE)
  fix xs ys
  assume as: "as = xs @ a # ys" and k: "c_sock (obj (ch_heap s) a) = sock"
    and xs: "\<forall>x\<in>set xs. c_sock (obj (ch_heap s) x) \<noteq> sock"
  show ?thesis
  proof (cases ys)
    case (Cons b bs)
    with client_disconnect_inner [of s xs a b bs] rep as k xs ret show ?thesis by simp
  next
    case Nil
    with rep as have rep': "table_rep s (xs @ [a])" by simp
    then obtain c where c: "ch_clients s = Some c" and crep: "clients_rep c (xs @ [a])"
      by (rule table_repE)
    have "length xs + 1 < cl_cap c \<or> length xs + 1 = cl_cap c"
      using clients_rep_room [OF crep] by auto
    then show ?thesis
      using client_disconnect_last [OF rep' c] k xs ret by (auto intro: table_rep_ok)
  qed
qed

lemma update_name_ok:
  assumes "table_ok s" and "client_update_name (Some a) line False s = Inr (u, t)"
    and live: "is_live (ch_heap s) a"
  shows "table_ok t \<and> (no_leak s \<longrightarrow> no_leak t)"
proof -
  from assms(1) have rep: "table_rep s (table_addrs s)" by (simp add: table_ok_def)
  then have "table_rep t (table_addrs s) \<and> (no_leak s \<longrightarrow> no_leak t)"
    using assms(2) update_name_live [OF live] update_name_rep [OF rep live]
    by (auto simp: c_strndup_def Let_def split: option.splits list.splits prod.splits if_splits)
  then show ?thesis by (auto intro: table_rep_ok)
qed

lemma process_message_ok:
  assumes ok: "table_ok s" and "clients_get_by_socket sock s = Inr client"
    and "process_message slack line client s = Inr (d, t)"
  shows "table_ok t \<and> (no_leak s \<longrightarrow> no_leak t)"
proof -
  from ok have rep: "table_rep s (table_addrs s)" by (simp add: table_ok_def)
  from assms(3) obtain a name where client: "client = Some a" and n: "c_name (obj (ch_heap s) a) = Some name"
    by (cases client) (auto simp: process_message_def bindE_eq_Inr_iff hload_def obj_def split: option.splits if_splits)
  with assms(2) get_by_socket_rep [OF rep] have f: "find (\<lambda>a. c_sock (obj (ch_heap s) a) = sock) (table_addrs s) = Some a"
    by simp
  then have a: "a \<in> set (table_addrs s)" by (simp add: find_in_set)
  with rep have "is_live (ch_heap s) a" by (auto simp: table_rep_def)
  with assms(3) client n consider (exit) "client_disconnect (Some a) s = Inr t"
    | (talk) "broadcast slack line (Some a) s = Inr t"
    by (auto simp: process_message_def bindE_eq_Inr_iff split: if_splits)
  then show ?thesis
  proof cases
    case exit
    with disconnect_found [OF rep f] show ?thesis by simp
  next
    case talk
    with broadcast_rep [OF rep a n, of slack line] have "table_rep t (table_addrs s) \<and> no_leak t = no_leak s"
      using rep by (auto split: if_splits)
    then show ?thesis by (auto intro: table_rep_ok)
  qed
qed

lemma handle_line_ok:
  assumes ok: "table_ok s" and ret: "handle_line slack sock line s = Inr (d, t)"
  shows "table_ok t \<and> (no_leak s \<longrightarrow> no_leak t)"
proof -
  from ok have rep: "table_rep s (table_addrs s)" by (simp add: table_ok_def)
  from ret obtain client u where client: "clients_get_by_socket sock s = Inr client"
    and u: "is_unnamed client s = Inr u"
    by (auto simp: handle_line_def bindE_eq_Inr_iff)
  show ?thesis
  proof (cases u)
    case True
    with u obtain a where a: "client = Some a" by (auto simp: is_unnamed_def split: if_splits)
    with client get_by_socket_rep [OF rep] have "a \<in> set (table_addrs s)" by (auto dest: find_in_set)
    with rep have live: "is_live (ch_heap s) a" by (auto simp: table_rep_def)
    from ret True client u a obtain v where "client_update_name (Some a) line False s = Inr (v, t)"
      by (auto simp: handle_line_def bindE_eq_Inr_iff split: if_splits)
    from update_name_ok [OF ok this live] show ?thesis .
  next
    case False
    with ret client u have "process_message slack line client s = Inr (d, t)"
      by (simp add: handle_line_def)
    with ok client show ?thesis by (rule process_message_ok)
  qed
qed

lemma request_loop_ok:
  "table_ok s \<Longrightarrow> request_loop slack sock rs buf s = Inr t \<Longrightarrow> table_ok t \<and> (no_leak s \<longrightarrow> no_leak t)"
proof (induction rs arbitrary: buf s)
  case Nil
  then show ?case by simp
next
  case (Cons r rs)
  show ?case
  proof (cases "recv_upto (BUF_SIZE - 1) r")
    case (RxData d)
    with Cons.prems obtain buf' line u v where h: "handle_line slack sock line s = Inr (u, v)"
      and "u \<and> t = v \<or> \<not> u \<and> request_loop slack sock rs buf' v = Inr t"
      by (auto simp: bindE_eq_Inr_iff split: if_splits)
    with handle_line_ok [OF Cons.prems(1) h] Cons.IH show ?thesis by blast
  next
    case RxEof
    from Cons.prems(1) have rep: "table_rep s (table_addrs s)" by (simp add: table_ok_def)
    show ?thesis
      using RxEof Cons.prems get_by_socket_rep [OF rep, of sock] disconnect_found [OF rep]
      by (auto simp: bindE_eq_Inr_iff split: if_splits)
  next
    case RxAgain
    with Cons.prems show ?thesis by simp
  next
    case RxErr
    with Cons.prems show ?thesis by (auto simp: table_ok_def table_addrs_def no_leak_def)
  qed
qed

text \<open>Once the table is destroyed it stays destroyed.\<close>

lemma request_loop_gone:
  "ch_clients s = None \<Longrightarrow> request_loop slack sock rs buf s = Inr t \<Longrightarrow> ch_clients t = None \<and> ch_heap t = ch_heap s"
proof (induction rs)
  case (Cons r rs)
  then show ?case
    by (cases "recv_upto (BUF_SIZE - 1) r")
      (auto simp: bindE_eq_Inr_iff handle_line_def clients_get_by_socket_def get_clients_def)
qed simp

definition chat_inv :: "chat \<Rightarrow> bool" where
  "chat_inv s \<longleftrightarrow> (table_ok s \<or> ch_clients s = None) \<and> no_leak s"

lemma table_ok_out [simp]: "table_ok (s\<lparr>ch_out := e\<rparr>) = table_ok s"
  by (simp add: table_ok_def table_addrs_def)

lemma clients_add_inv:
  assumes "chat_inv s" and "clients_add sock name s = Inr (r, t)"
  shows "chat_inv t"
proof (cases "table_ok s")
  case True
  then have rep: "table_rep s (table_addrs s)" by (simp add: table_ok_def)
  have nl: "no_leak s" using assms(1) by (simp add: chat_inv_def)
  from rep show ?thesis
  proof (cases rule: clients_add_rep [of _ _ sock name])
    case (added s' nm)
    with assms(2) nl show ?thesis by (auto simp: chat_inv_def intro: table_rep_ok)
  next
    case (refused s')
    with assms(2) nl show ?thesis by (auto simp: chat_inv_def intro: table_rep_ok)
  next
    case (destroyed s')
    with assms(2) nl show ?thesis by (simp add: chat_inv_def)
  qed
next
  case False
  with assms show ?thesis
    by (simp add: chat_inv_def clients_add_def clients_grow_def get_clients_def)
qed

lemma main_event_inv:
  assumes "chat_inv s" and "main_event slack ev s = Inr (Some t)"
  shows "chat_inv t"
proof (cases ev)
  case (ListenReady cs ctl)
  with assms have "t = s \<or> (\<exists>r. clients_add cs [] (s\<lparr>ch_out := ch_out s @ [EpollAdd cs]\<rparr>) = Inr (r, t))"
    by (auto simp: main_event_def bindE_eq_Inr_iff split: if_splits)
  moreover have "chat_inv (s\<lparr>ch_out := ch_out s @ [EpollAdd cs]\<rparr>)"
    using assms(1) by (simp add: chat_inv_def)
  ultimately show ?thesis using assms(1) clients_add_inv by blast
next
  case (ConnReady fd rs)
  with assms have loop: "request_loop slack fd rs (replicate BUF_SIZE NUL) s = Inr t"
    by (simp add: main_event_def handle_request_def bindE_eq_Inr_iff)
  show ?thesis
  proof (cases "table_ok s")
    case True
    from request_loop_ok [OF True loop] assms(1) show ?thesis by (simp add: chat_inv_def)
  next
    case False
    with assms(1) have "ch_clients s = None" by (simp add: chat_inv_def)
    from request_loop_gone [OF this loop] assms(1) \<open>ch_clients s = None\<close> show ?thesis
      by (simp add: chat_inv_def no_leak_def table_addrs_def)
  qed
qed

lemma main_loop_inv: "chat_inv s \<Longrightarrow> main_loop slack evs s = Inr (Some t) \<Longrightarrow> chat_inv t"
proof (induction evs arbitrary: s)
  case (Cons ev evs)
  then obtain u where "main_event slack ev s = Inr (Some u)" "main_loop slack evs u = Inr (Some t)"
    by (auto simp: bindE_eq_Inr_iff split: option.splits)
  with Cons.IH main_event_inv [OF Cons.prems(1)] show ?case by blast
qed simp

section \<open>One line of a known client\<close>

lemma is_unnamed_live:
  "is_live (ch_heap s) a \<Longrightarrow> c_name (obj (ch_heap s) a) = Some n \<Longrightarrow> is_unnamed (Some a) s = Inr (n = [])"
  by (simp add: is_unnamed_def)

lemma handle_line_talk:
  assumes rep: "table_rep s as" and f: "find (\<lambda>a. fst (entry s a) = sock) as = Some a"
    and name: "c_name (obj (ch_heap s) a) = Some (c # cs)"
    and line: "\<not> c_strneq line MSG_EXIT (length MSG_EXIT)"
    and slack: "\<forall>n. 0 < slack n"
  shows "handle_line slack sock line s = Inr (False, s\<lparr>ch_out := ch_out s @
    map (\<lambda>k. Send k (broadcast_text (c # cs) line)) (recipients sock (table_view s))\<rparr>)"
proof -
  from f have a: "a \<in> set as" "fst (entry s a) = sock" by (auto dest: find_in_set)
  with rep have live: "is_live (ch_heap s) a" by (auto simp: table_rep_def)
  have "clients_get_by_socket sock s = Inr (Some a)"
    using get_by_socket_rep [OF rep, of sock] f by (simp add: entry_def)
  then show ?thesis
    using is_unnamed_live [OF live name] broadcast_rep [OF rep a(1) name, of slack line] live name line slack a(2)
    by (simp add: handle_line_def process_message_def)
qed

text \<open>The first bytes of a cleared buffer.\<close>

lemma etrim_first:
  assumes "NUL \<notin> set d" and "length d < n"
  shows "\<exists>buf. etrim_whitespaces (buf_write (replicate n NUL) d) = Inr buf \<and> c_str buf 0 = Inr (trim d)"
proof -
  have "buf_write (replicate n NUL) d = d @ NUL # replicate (n - length d - 1) NUL"
    using assms(2) by (cases "n - length d") (auto simp: buf_write_def)
  then have "c_str (buf_write (replicate n NUL) d) 0 = Inr d" using assms(1) by (simp add: c_str_terminated)
  from etrim_c_str [OF this] show ?thesis by blast
qed

text \<open>
  A second line in the same call of the handler, shorter than the first one, which was not
  trimmed: the rest of the first line is still there.
\<close>

lemma etrim_second:
  assumes d1: "NUL \<notin> set d1" "d1 \<noteq> []" "\<not> trimmed (last d1)" "length d1 < n"
    and d2: "NUL \<notin> set d2" "length d2 < length d1"
  shows "\<exists>buf1 buf2. etrim_whitespaces (buf_write (replicate n NUL) d1) = Inr buf1 \<and> c_str buf1 0 = Inr d1 \<and>
     etrim_whitespaces (buf_write buf1 d2) = Inr buf2 \<and> c_str buf2 0 = Inr (d2 @ drop (length d2) d1)"
proof -
  let ?r = "replicate (n - length d1 - 1) NUL"
  let ?d = "d2 @ drop (length d2) d1"
  have w1: "buf_write (replicate n NUL) d1 = d1 @ NUL # ?r"
    using d1(4) by (cases "n - length d1") (auto simp: buf_write_def)
  have t1: "trim d1 = d1" using d1 by (intro trim_id) auto
  from etrim_buf [OF d1(1), of ?r] obtain r1 where
    e1: "etrim_whitespaces (d1 @ NUL # ?r) = Inr (d1 @ NUL # r1)" by (auto simp: t1)
  have w2: "buf_write (d1 @ NUL # r1) d2 = ?d @ NUL # r1"
    using d2(2) by (simp add: buf_write_def)
  have nd: "NUL \<notin> set ?d" using d1(1) d2(1) by (auto dest: in_set_dropD)
  have "last ?d = last d1" using d2(2) by simp
  then have t2: "trim ?d = ?d" using d1(3) by (intro trim_id) simp
  from etrim_buf [OF nd, of r1] obtain r2 where
    e2: "etrim_whitespaces (?d @ NUL # r1) = Inr (?d @ NUL # r2)" by (auto simp: t2)
  have "c_str (d1 @ NUL # r1) 0 = Inr d1" "c_str (?d @ NUL # r2) 0 = Inr ?d"
    using c_str_terminated [OF d1(1)] c_str_terminated [OF nd] by blast+
  with w1 e1 w2 e2 show ?thesis by (intro exI [of _ "d1 @ NUL # r1"] exI [of _ "?d @ NUL # r2"]) simp
qed

section \<open>Properties\<close>

text \<open>
  C8: In every run of the event loop that returns, the client table is a well-formed table of
  distinct live clients, or it has been destroyed after a failed \<open>realloc\<close>: no sequence of
  connections, lines, disconnects and errors leaves a half-updated table behind. And no client is
  forgotten: every one that is alive is in the table, and when the table is destroyed, none is alive.
\<close>

theorem chat_table_invariant:
  assumes "table_ok s \<or> ch_clients s = None" and "no_leak s" and "main_loop slack evs s = Inr (Some t)"
  shows "(table_ok t \<or> ch_clients t = None) \<and> no_leak t"
  using main_loop_inv [of s slack evs t] assms by (simp add: chat_inv_def)

theorem chat_table_invariant_witness:
  "\<exists>t. main_loop (\<lambda>_. 1) [ListenReady 7 0, ConnReady 4 [RxErr]] (chat_two []) = Inr (Some t) \<and>
     table_view t = table_view (chat_two []) @ [(7, Some [])] \<and> (table_ok t \<or> ch_clients t = None) \<and> no_leak t"
proof -
  let ?s = "(chat_two [])\<lparr>ch_out := [EpollAdd 7]\<rparr>"
  have rep: "table_rep ?s [0, 1]" using chat_two_rep [of "[]"] by simp
  have mem: "ch_script ?s = []" "live_count (ch_heap ?s) + 1 < SIZE_MOD" "length [0::nat, 1] < MAX_CLIENTS"
    by (simp_all add: chat_two_def live_count_def SIZE_MOD_def MAX_CLIENTS_def)
  from clients_add_ok [OF rep mem, of 7 "[]"] obtain u where
    u: "clients_add 7 [] ?s = Inr (0, u)" "table_view u = table_view (chat_two []) @ [(7, Some [])]" by auto
  let ?t = "u\<lparr>ch_out := ch_out u @ [Close 4]\<rparr>"
  have "ch_out (chat_two []) = []" by (simp add: chat_two_def)
  with u(1) have r: "main_loop (\<lambda>_. 1) [ListenReady 7 0, ConnReady 4 [RxErr]] (chat_two []) = Inr (Some ?t)"
    by (simp add: main_event_def handle_request_def)
  have "no_leak (chat_two [])" unfolding no_leak_rep [OF chat_two_rep] by (auto simp: chat_two_def is_live_def less_Suc_eq)
  from chat_table_invariant [OF disjI1 [OF chat_two_ok] this r] have "(table_ok ?t \<or> ch_clients ?t = None) \<and> no_leak ?t" by blast
  with r u(2) show ?thesis by auto
qed

text \<open>
  C24: \<open>etrim_whitespaces\<close> is equivalent to its reference definition: on a terminated buffer it never
  faults, keeps the size of the buffer, and leaves the text without the white space and the
  non-printable bytes at its end, except that the first character always stays.
\<close>

theorem etrim_matches_reference:
  assumes "c_str buf 0 = Inr s"
  shows "\<exists>buf'. etrim_whitespaces buf = Inr buf' \<and> length buf' = length buf \<and> c_str buf' 0 = Inr (etrim_ref s)"
  using etrim_c_str [OF assms] by (simp add: trim_ref)

theorem etrim_matches_reference_witness:
  "\<exists>buf'. etrim_whitespaces [CHR ''h'', CHR ''i'', SPACE, NEWLINE, NUL] = Inr buf' \<and> c_str buf' 0 = Inr ''hi''"
proof -
  have "c_str [CHR ''h'', CHR ''i'', SPACE, NEWLINE, NUL] 0 = Inr [CHR ''h'', CHR ''i'', SPACE, NEWLINE]"
    by (simp add: c_str_def)
  from etrim_matches_reference [OF this] show ?thesis
    by (auto simp: etrim_ref_def trimmed_def c_isspace_def byte_def)
qed

text \<open>
  A broadcast by a named client sends the text \<open>[name] msg\<close> with a line feed exactly once
  to every client of the table whose socket differs from the sender's, in table order, and
  changes nothing else, provided the compiler leaves at least one unused byte behind the
  buffer.
\<close>

theorem broadcast_reaches_others:
  assumes "table_rep s as" and "a \<in> set as" and "c_name (obj (ch_heap s) a) = Some name"
    and "0 < slack (length msg + 4 + length name)"
  shows "broadcast slack msg (Some a) s = Inr (s\<lparr>ch_out := ch_out s @
    map (\<lambda>k. Send k (''['' @ name @ ''] '' @ msg @ [NEWLINE])) (filter (\<lambda>k. k \<noteq> fst (entry s a)) (map fst (table_view s)))\<rparr>)"
  using broadcast_rep [OF assms(1-3), of slack msg] assms(4)
  by (simp add: recipients_def broadcast_text_def)

theorem broadcast_reaches_others_witness:
  "broadcast (\<lambda>_. 1) ''hey'' (Some 0) (chat_two []) =
     Inr ((chat_two [])\<lparr>ch_out := [Send 5 (''[ann] hey'' @ [NEWLINE])]\<rparr>)"
proof -
  have n: "c_name (obj (ch_heap (chat_two [])) 0) = Some ''ann''"
    and e: "entry (chat_two []) 0 = (4, Some ''ann'')" and o: "ch_out (chat_two []) = []"
    by (simp_all add: chat_two_def obj_def entry_def)
  have "(0::nat) \<in> set [0, 1]" by simp
  from broadcast_reaches_others [OF chat_two_rep this n, of "\<lambda>_. 1" "''hey''"] e o show ?thesis
    by (simp add: chat_two_view)
qed

text \<open>
  C36: With no padding behind the buffer, which is all C promises, every broadcast writes past
  its end: the array has room for the text but not for the terminating NUL of \<open>sprintf\<close>.
\<close>

theorem broadcast_overflows:
  assumes "table_rep s as" and "a \<in> set as" and "c_name (obj (ch_heap s) a) = Some name"
  shows "broadcast (\<lambda>_. 0) msg (Some a) s = Inl OutOfBounds"
  using broadcast_rep [OF assms, of "\<lambda>_. 0"] by simp

theorem broadcast_overflows_witness: "broadcast (\<lambda>_. 0) ''hey'' (Some 0) (chat_two []) = Inl OutOfBounds"
proof -
  have n: "c_name (obj (ch_heap (chat_two [])) 0) = Some ''ann''" by (simp add: chat_two_def obj_def)
  have "(0::nat) \<in> set [0, 1]" by simp
  from broadcast_overflows [OF chat_two_rep this n] show ?thesis .
qed

text \<open>
  The first line a client sends becomes its name, trimmed and cut to 100 bytes; it is not
  sent to anybody, and no other entry of the table changes.
\<close>

lemma request_first_line:
  assumes rep: "table_rep s as" and f: "find (\<lambda>a. fst (entry s a) = sock) as = Some a"
    and unnamed: "c_name (obj (ch_heap s) a) = Some []" and "ch_script s = []"
    and d: "NUL \<notin> set d" "d \<noteq> []" "length d < BUF_SIZE"
  shows "\<exists>t. handle_request slack sock [RxData d] s = Inr t \<and> table_rep t as \<and> ch_out t = ch_out s \<and>
    ch_script t = [] \<and> table_cap t = table_cap s \<and> live_count (ch_heap t) = live_count (ch_heap s) \<and>
    (\<forall>b\<in>set as. entry t b = (if b = a then (sock, Some (take MAX_NAME_LEN (trim d))) else entry s b))"
proof -
  from f have a: "a \<in> set as" "fst (entry s a) = sock" by (auto dest: find_in_set)
  with rep have live: "is_live (ch_heap s) a" by (auto simp: table_rep_def)
  let ?cl = "(obj (ch_heap s) a)\<lparr>c_name := Some (take MAX_NAME_LEN (trim d))\<rparr>"
  let ?t = "s\<lparr>ch_heap := (ch_heap s)[a := Some ?cl]\<rparr>"
  have "clients_get_by_socket sock s = Inr (Some a)"
    using get_by_socket_rep [OF rep, of sock] f by (simp add: entry_def)
  then have line: "handle_line slack sock (trim d) s = Inr (False, ?t)"
    using is_unnamed_live [OF live unnamed] update_name_live [OF live, of "trim d"] unnamed live assms(4)
    by (simp add: handle_line_def c_strndup_def is_live_less)
  from etrim_first [OF d(1,3)] obtain buf where
    "etrim_whitespaces (buf_write (replicate BUF_SIZE NUL) d) = Inr buf" "c_str buf 0 = Inr (trim d)" by blast
  with line d have "handle_request slack sock [RxData d] s = Inr ?t"
    by (simp add: handle_request_def BUF_SIZE_def)
  moreover have "\<forall>b\<in>set as. entry ?t b = (if b = a then (sock, Some (take MAX_NAME_LEN (trim d))) else entry s b)"
    using live a(2) by (auto simp: entry_def obj_update is_live_less)
  moreover have "live_count (ch_heap ?t) = live_count (ch_heap s)" using live by (simp add: live_count_update)
  ultimately show ?thesis using update_name_rep [OF rep live] assms(4) by (intro exI [of _ ?t]) (simp add: table_cap_def)
qed

text \<open>
  A line of a named client that does not start with \<open>exit\<close> is broadcast under its name to
  everyone else, once, and the table is unchanged.
\<close>

lemma request_later_line:
  assumes rep: "table_rep s as" and f: "find (\<lambda>a. fst (entry s a) = sock) as = Some a"
    and name: "c_name (obj (ch_heap s) a) = Some (c # cs)"
    and d: "NUL \<notin> set d" "d \<noteq> []" "length d < BUF_SIZE"
    and line: "\<not> c_strneq (trim d) MSG_EXIT (length MSG_EXIT)" and slack: "\<forall>n. 0 < slack n"
  shows "handle_request slack sock [RxData d] s = Inr (s\<lparr>ch_out := ch_out s @
    map (\<lambda>k. Send k (broadcast_text (c # cs) (trim d))) (recipients sock (table_view s))\<rparr>)"
proof -
  from etrim_first [OF d(1,3)] obtain buf where
    "etrim_whitespaces (buf_write (replicate BUF_SIZE NUL) d) = Inr buf" "c_str buf 0 = Inr (trim d)" by blast
  with handle_line_talk [OF rep f name line slack] d show ?thesis
    by (simp add: handle_request_def BUF_SIZE_def)
qed

text \<open>A line that starts with \<open>exit\<close> disconnects the client.\<close>

lemma request_exit_line:
  assumes rep: "table_rep s as" and f: "find (\<lambda>a. fst (entry s a) = sock) as = Some a"
    and name: "c_name (obj (ch_heap s) a) = Some (c # cs)"
    and d: "NUL \<notin> set d" "d \<noteq> []" "length d < BUF_SIZE"
    and line: "c_strneq (trim d) MSG_EXIT (length MSG_EXIT)"
  shows "handle_request slack sock [RxData d] s = client_disconnect (Some a) s"
proof -
  from f have "a \<in> set as" by (auto dest: find_in_set)
  with rep have live: "is_live (ch_heap s) a" by (auto simp: table_rep_def)
  have "clients_get_by_socket sock s = Inr (Some a)"
    using get_by_socket_rep [OF rep, of sock] f by (simp add: entry_def)
  then have l: "handle_line slack sock (trim d) s = bindE (client_disconnect (Some a) s) (\<lambda>s. Inr (True, s))"
    using is_unnamed_live [OF live name] live name line by (simp add: handle_line_def process_message_def)
  from etrim_first [OF d(1,3)] obtain buf where
    "etrim_whitespaces (buf_write (replicate BUF_SIZE NUL) d) = Inr buf" "c_str buf 0 = Inr (trim d)" by blast
  with l d show ?thesis by (cases "client_disconnect (Some a) s") (simp_all add: handle_request_def BUF_SIZE_def)
qed

lemma chat_two_ann:
  "find (\<lambda>a. fst (entry (chat_two []) a) = 4) [0, 1] = Some 0"
  "c_name (obj (ch_heap (chat_two [])) 0) = Some ''ann''" "ch_out (chat_two []) = []"
  by (simp_all add: chat_two_def obj_def entry_def)

text \<open>
  C37: The receive buffer is cleared once per readiness event, not once per \<open>recv\<close>: when two
  lines arrive in one event and the second one is shorter, the others receive the second line
  followed by the rest of the first. (This is for a compiler that leaves at least a byte behind the buffer of
  \<open>broadcast\<close>; without it the broadcast itself is out of bounds.)
\<close>

theorem second_line_keeps_tail:
  assumes rep: "table_rep s as" and f: "find (\<lambda>a. fst (entry s a) = sock) as = Some a"
    and name: "c_name (obj (ch_heap s) a) = Some (c # cs)"
    and d1: "NUL \<notin> set d1" "d1 \<noteq> []" "\<not> trimmed (last d1)" "length d1 < BUF_SIZE"
    and d2: "NUL \<notin> set d2" "d2 \<noteq> []" "length d2 < length d1"
    and l1: "\<not> c_strneq d1 MSG_EXIT (length MSG_EXIT)"
    and l2: "\<not> c_strneq (d2 @ drop (length d2) d1) MSG_EXIT (length MSG_EXIT)"
    and slack: "\<forall>n. 0 < slack n"
  shows "handle_request slack sock [RxData d1, RxData d2] s = Inr (s\<lparr>ch_out := ch_out s @
    map (\<lambda>k. Send k (broadcast_text (c # cs) d1)) (recipients sock (table_view s)) @
    map (\<lambda>k. Send k (broadcast_text (c # cs) (d2 @ drop (length d2) d1))) (recipients sock (table_view s))\<rparr>)"
proof -
  let ?t = "s\<lparr>ch_out := ch_out s @ map (\<lambda>k. Send k (broadcast_text (c # cs) d1)) (recipients sock (table_view s))\<rparr>"
  have e: "entry ?t = entry s" by (rule ext) (simp add: entry_def)
  have rep': "table_rep ?t as" using rep by simp
  have f': "find (\<lambda>a. fst (entry ?t a) = sock) as = Some a" using f by (simp add: e)
  have name': "c_name (obj (ch_heap ?t) a) = Some (c # cs)" using name by simp
  note h1 = handle_line_talk [OF rep f name l1 slack]
  note h2 = handle_line_talk [OF rep' f' name' l2 slack]
  from etrim_second [OF d1 d2(1,3)] obtain buf1 buf2 where b:
    "etrim_whitespaces (buf_write (replicate BUF_SIZE NUL) d1) = Inr buf1" "c_str buf1 0 = Inr d1"
    "etrim_whitespaces (buf_write buf1 d2) = Inr buf2" "c_str buf2 0 = Inr (d2 @ drop (length d2) d1)"
    by blast
  have "recv_upto (BUF_SIZE - 1) (RxData d1) = RxData d1" "recv_upto (BUF_SIZE - 1) (RxData d2) = RxData d2"
    using d1 d2 by (simp_all add: BUF_SIZE_def)
  with b h1 h2 show ?thesis by (simp add: handle_request_def)
qed

theorem second_line_keeps_tail_witness:
  "handle_request (\<lambda>_. 1) 4 [RxData ''hello'', RxData ''abc''] (chat_two []) =
     Inr ((chat_two [])\<lparr>ch_out := [Send 5 (''[ann] hello'' @ [NEWLINE]), Send 5 (''[ann] abclo'' @ [NEWLINE])]\<rparr>)"
proof -
  have "NUL \<notin> set ''hello''" "''hello'' \<noteq> []" "\<not> trimmed (last ''hello'')" "length ''hello'' < BUF_SIZE"
    "NUL \<notin> set ''abc''" "''abc'' \<noteq> []" "length ''abc'' < length ''hello''"
    "\<not> c_strneq ''hello'' MSG_EXIT (length MSG_EXIT)"
    "\<not> c_strneq (''abc'' @ drop (length ''abc'') ''hello'') MSG_EXIT (length MSG_EXIT)"
    "\<forall>n::nat. 0 < (\<lambda>_. 1::nat) n"
    by (simp_all add: BUF_SIZE_def c_strneq_def MSG_EXIT_def trimmed_def c_isspace_def byte_def)
  from second_line_keeps_tail [OF chat_two_rep chat_two_ann(1,2) this] show ?thesis
    by (simp add: chat_two_ann(3) chat_two_view recipients_def broadcast_text_def)
qed

text \<open>
  Data on a socket that is not in the table (its \<open>clients_add\<close> was refused, which the
  event loop does not notice) makes the handler dereference a null client.
\<close>

theorem unknown_socket_null_deref:
  assumes "table_ok s" and "sock \<notin> set (map fst (table_view s))"
    and "NUL \<notin> set d" and "d \<noteq> []" and "length d < BUF_SIZE"
  shows "handle_request slack sock (RxData d # rs) s = Inl NullDeref"
proof -
  from assms(1) have rep: "table_rep s (table_addrs s)" by (simp add: table_ok_def)
  have "find (\<lambda>a. c_sock (obj (ch_heap s) a) = sock) (table_addrs s) = None"
    using assms(2) by (auto simp: find_None_iff table_view_def entry_def)
  with get_by_socket_rep [OF rep, of sock] have "clients_get_by_socket sock s = Inr None" by simp
  then have "handle_line slack sock line s = Inl NullDeref" for line
    by (simp add: handle_line_def is_unnamed_def process_message_def)
  moreover from etrim_first [OF assms(3,5)] obtain buf where
    "etrim_whitespaces (buf_write (replicate BUF_SIZE NUL) d) = Inr buf" "c_str buf 0 = Inr (trim d)" by blast
  ultimately show ?thesis using assms(4,5) by (simp add: handle_request_def BUF_SIZE_def)
qed

theorem unknown_socket_null_deref_witness:
  "handle_request (\<lambda>_. 0) 9 [RxData ''x''] (chat_two []) = Inl NullDeref"
  by (rule unknown_socket_null_deref [OF chat_two_ok]) (simp_all add: chat_two_view BUF_SIZE_def)

text \<open>
  C38: After a failed \<open>recv\<close> the handler closes the socket but leaves the client in the table.
  When the system gives the same descriptor to the next connection, the lookup still finds the
  old entry: the first line of the new client is broadcast under the old client's name, where there is
  a byte behind the buffer of \<open>broadcast\<close> (without it the broadcast itself is out of bounds).
\<close>

theorem stale_entry_impersonates:
  assumes rep: "table_rep s as" and f: "find (\<lambda>a. fst (entry s a) = sock) as = Some a"
    and name: "c_name (obj (ch_heap s) a) = Some (c # cs)" and sock: "sock \<noteq> - 1"
    and mem: "ch_script s = []" "live_count (ch_heap s) + 1 < SIZE_MOD" "length as < MAX_CLIENTS"
    and d: "NUL \<notin> set d" "d \<noteq> []" "length d < BUF_SIZE"
    and line: "\<not> c_strneq (trim d) MSG_EXIT (length MSG_EXIT)" and slack: "\<forall>n. 0 < slack n"
  shows "\<exists>t. main_loop slack [ConnReady sock [RxErr], ListenReady sock 0, ConnReady sock [RxData d]] s = Inr (Some t) \<and>
    ch_out t = ch_out s @ [Close sock, EpollAdd sock] @
      map (\<lambda>k. Send k (broadcast_text (c # cs) (trim d))) (recipients sock (table_view s))"
proof -
  let ?s2 = "s\<lparr>ch_out := ch_out s @ [Close sock, EpollAdd sock]\<rparr>"
  have rep2: "table_rep ?s2 as" using rep by simp
  have mem2: "ch_script ?s2 = []" "live_count (ch_heap ?s2) + 1 < SIZE_MOD" using mem by simp_all
  from clients_add_ok [OF rep2 mem2 mem(3), of sock "[]"] obtain s3 where
    add: "clients_add sock [] ?s2 = Inr (0, s3)" and rep3: "table_rep s3 (as @ [length (ch_heap s)])"
    and view3: "table_view s3 = table_view s @ [(sock, Some (take MAX_NAME_LEN []))]" and out3: "ch_out s3 = ch_out ?s2"
    by auto
  have old: "entry s3 b = entry s b" if "b \<in> set as" for b
  proof -
    have "map (entry s3) as = map (entry s) as"
      using view3 table_rep_view [OF rep3] table_rep_view [OF rep] by simp
    with that show ?thesis by (auto simp: map_eq_conv)
  qed
  have "find (\<lambda>a. fst (entry s3 a) = sock) as = find (\<lambda>a. fst (entry s a) = sock) as"
    by (rule find_cong) (simp_all add: old)
  with f have f3: "find (\<lambda>a. fst (entry s3 a) = sock) (as @ [length (ch_heap s)]) = Some a"
    by (simp add: find_append_Some)
  have "a \<in> set as" using f by (auto dest: find_in_set)
  from old [OF this] have name3: "c_name (obj (ch_heap s3) a) = Some (c # cs)"
    using name by (simp add: entry_def)
  let ?ev = "map (\<lambda>k. Send k (broadcast_text (c # cs) (trim d))) (recipients sock (table_view s3))"
  have e1: "main_event slack (ConnReady sock [RxErr]) s = Inr (Some (s\<lparr>ch_out := ch_out s @ [Close sock]\<rparr>))"
    by (simp add: main_event_def handle_request_def)
  have e2: "main_event slack (ListenReady sock 0) (s\<lparr>ch_out := ch_out s @ [Close sock]\<rparr>) = Inr (Some s3)"
    using add sock by (simp add: main_event_def)
  have e3: "main_event slack (ConnReady sock [RxData d]) s3 = Inr (Some (s3\<lparr>ch_out := ch_out s3 @ ?ev\<rparr>))"
    using request_later_line [OF rep3 f3 name3 d line slack] by (simp add: main_event_def)
  have "recipients sock (table_view s3) = recipients sock (table_view s)"
    using view3 by (simp add: recipients_def)
  with e1 e2 e3 out3 show ?thesis by simp
qed

theorem stale_entry_impersonates_witness:
  "\<exists>t. main_loop (\<lambda>_. 1) [ConnReady 4 [RxErr], ListenReady 4 0, ConnReady 4 [RxData ''hey'']] (chat_two []) = Inr (Some t) \<and>
     ch_out t = [Close 4, EpollAdd 4, Send 5 (''[ann] hey'' @ [NEWLINE])]"
proof -
  have t: "trim ''hey'' = ''hey''" by (rule trim_id) (simp add: trimmed_def c_isspace_def byte_def)
  have h: "(4::int) \<noteq> - 1" "ch_script (chat_two []) = []" "live_count (ch_heap (chat_two [])) + 1 < SIZE_MOD"
    "length [0::nat, 1] < MAX_CLIENTS" "NUL \<notin> set ''hey''" "''hey'' \<noteq> []" "length ''hey'' < BUF_SIZE"
    "\<not> c_strneq (trim ''hey'') MSG_EXIT (length MSG_EXIT)" "\<forall>n::nat. 0 < (\<lambda>_. 1::nat) n"
    by (simp_all add: chat_two_def live_count_def SIZE_MOD_def MAX_CLIENTS_def BUF_SIZE_def c_strneq_def MSG_EXIT_def t)
  from stale_entry_impersonates [OF chat_two_rep chat_two_ann(1,2) h] t show ?thesis
    by (simp add: chat_two_ann(3) chat_two_view recipients_def broadcast_text_def)
qed

end
