(* ===== verification/Channel_Store.thy ===== *)
theory Channel_Store
  imports Interfaces
begin

text \<open>
  \<^verbatim>\<open>networking/threaded_chat_server_with_channels/server.c\<close>, the data: the channels a
  connection has registered for, the connections, the queue of events, and the manager that
  owns them. Connections and events are objects in stores of their own, because several parts
  of the server hold pointers to them; an array's owner is \<open>None\<close> once it has been freed.
\<close>

section \<open>Data\<close>

record Channels =
  chn_items :: "int blk"
  chn_cap :: nat
  chn_size :: nat

record Conn =
  cn_sock :: int
  cn_channels :: "Channels option"

record Event =
  ev_conn :: addr
  ev_msg :: "string option"
  ev_channel :: int

record EvQueue =
  evq_events :: "addr blk"
  evq_size :: nat
  evq_cap :: nat

record Conns =
  cs_items :: "addr blk"
  cs_size :: nat
  cs_cap :: nat

record Manager =
  m_conns :: "Conns option"
  m_q_idx :: nat
  m_q :: "EvQueue option"

record srv =
  sv_conns :: "Conn store"
  sv_events :: "Event store"
  sv_mgr :: Manager
  sv_script :: "bool list"
  sv_out :: "io list"

definition CH_BUF_SIZE :: nat where "CH_BUF_SIZE = 1024"

definition put_q :: "EvQueue option \<Rightarrow> srv \<Rightarrow> srv" where
  "put_q q s = s\<lparr>sv_mgr := (sv_mgr s)\<lparr>m_q := q\<rparr>\<rparr>"

definition put_conns :: "Conns option \<Rightarrow> srv \<Rightarrow> srv" where
  "put_conns c s = s\<lparr>sv_mgr := (sv_mgr s)\<lparr>m_conns := c\<rparr>\<rparr>"

definition get_q :: "srv \<Rightarrow> EvQueue res" where
  "get_q s = (case m_q (sv_mgr s) of None \<Rightarrow> Inl UseAfterFree | Some q \<Rightarrow> Inr q)"

definition get_conns :: "srv \<Rightarrow> Conns res" where
  "get_conns s = (case m_conns (sv_mgr s) of None \<Rightarrow> Inl UseAfterFree | Some c \<Rightarrow> Inr c)"

section \<open>Channels\<close>

definition channels_create :: "bool list \<Rightarrow> nat \<Rightarrow> Channels option \<times> bool list" where
  "channels_create sc cap =
     (let (ok, sc) = next_outcome sc
      in if \<not> ok then (None, sc)
         else let (items, sc) = c_malloc_array sc INT_SIZE (size_mul cap INT_SIZE)
              in case items of
                   None \<Rightarrow> (None, sc)
                 | Some b \<Rightarrow> (Some \<lparr>chn_items = b, chn_cap = cap, chn_size = 0\<rparr>, sc))"

definition channels_free :: "Channels option \<Rightarrow> Channels option res" where
  "channels_free ch = (case ch of None \<Rightarrow> Inl UseAfterFree | Some _ \<Rightarrow> Inr None)"

text \<open>The channels object after the call is \<open>None\<close> when a failed \<open>realloc\<close> has freed it.\<close>

definition channels_add ::
  "Channels option \<times> bool list \<Rightarrow> int \<Rightarrow> (int \<times> Channels option \<times> bool list) res" where
  "channels_add chsc channel =
     (let (chp, sc) = chsc
      in case chp of None \<Rightarrow> Inl UseAfterFree
         | Some ch \<Rightarrow>
             bindE (if chn_cap ch \<le> chn_size ch
                    then let new_cap = size_mul (chn_cap ch) 2
                         in bindE (c_realloc sc INT_SIZE (chn_items ch) (size_mul new_cap INT_SIZE)) (\<lambda>(r, sc).
                            case r of
                              None \<Rightarrow> bindE (channels_free (Some ch)) (\<lambda>_. Inr (None, sc))
                            | Some b \<Rightarrow> Inr (Some (ch\<lparr>chn_cap := new_cap, chn_items := b\<rparr>), sc))
                    else Inr (Some ch, sc)) (\<lambda>(room, sc).
             case room of
               None \<Rightarrow> Inr (- 1, None, sc)
             | Some ch \<Rightarrow>
                 bindE (awrite (chn_items ch) (chn_size ch) channel) (\<lambda>b.
                 Inr (0, Some (ch\<lparr>chn_items := b, chn_size := size_add (chn_size ch) 1\<rparr>), sc))))"

section \<open>Connections\<close>

definition conn_create :: "int \<Rightarrow> srv \<Rightarrow> ptr \<times> srv" where
  "conn_create sock s =
     (let (c, h, sc) = halloc (sv_script s) (sv_conns s) \<lparr>cn_sock = sock, cn_channels = None\<rparr>
      in case c of
           None \<Rightarrow> (None, s\<lparr>sv_script := sc\<rparr>)
         | Some a \<Rightarrow>
             (let (channels, sc) = channels_create sc 100
              in case channels of
                   None \<Rightarrow> (None, s\<lparr>sv_conns := h[a := None], sv_script := sc\<rparr>)
                 | Some ch \<Rightarrow>
                     (Some a, s\<lparr>sv_conns := h[a := Some \<lparr>cn_sock = sock, cn_channels = Some ch\<rparr>], sv_script := sc\<rparr>)))"

definition conn_free :: "ptr \<Rightarrow> srv \<Rightarrow> srv res" where
  "conn_free conn s =
     bindE (hload (sv_conns s) conn) (\<lambda>cn.
     bindE (channels_free (cn_channels cn)) (\<lambda>_.
     bindE (hfree (sv_conns s) conn) (\<lambda>h. Inr (s\<lparr>sv_conns := h\<rparr>))))"

definition conns_create :: "bool list \<Rightarrow> nat \<Rightarrow> Conns option \<times> bool list" where
  "conns_create sc cap =
     (let (ok, sc) = next_outcome sc
      in if \<not> ok then (None, sc)
         else let (items, sc) = c_malloc_array sc PTR_SIZE (size_mul cap PTR_SIZE)
              in case items of
                   None \<Rightarrow> (None, sc)
                 | Some b \<Rightarrow> (Some \<lparr>cs_items = b, cs_size = 0, cs_cap = cap\<rparr>, sc))"

definition conns_free :: "srv \<Rightarrow> srv res" where
  "conns_free s =
     bindE (get_conns s) (\<lambda>c.
     bindE (foldE (\<lambda>i s. bindE (aread (cs_items c) i) (\<lambda>a. conn_free (Some a) s)) [0..<cs_size c] s) (\<lambda>s.
     Inr (put_conns None s)))"

definition conns_grow :: "srv \<Rightarrow> (Conns option \<times> srv) res" where
  "conns_grow s =
     bindE (get_conns s) (\<lambda>c.
     if cs_cap c \<le> cs_size c then
       (let new_cap = size_mul (cs_cap c) 2
        in bindE (c_realloc (sv_script s) PTR_SIZE (cs_items c) (size_mul new_cap PTR_SIZE)) (\<lambda>(r, sc).
           let s = s\<lparr>sv_script := sc\<rparr>
           in case r of
                None \<Rightarrow> bindE (conns_free s) (\<lambda>s. Inr (None, s))
              | Some b \<Rightarrow>
                  (let c = c\<lparr>cs_items := b, cs_cap := new_cap\<rparr>
                   in Inr (Some c, put_conns (Some c) s))))
     else Inr (Some c, s))"

definition conns_add :: "int \<Rightarrow> srv \<Rightarrow> (ptr \<times> srv) res" where
  "conns_add sock s =
     bindE (conns_grow s) (\<lambda>(room, s).
     case room of
       None \<Rightarrow> Inr (None, s)
     | Some c \<Rightarrow>
         (let (conn, s) = conn_create sock s
          in case conn of
               None \<Rightarrow> Inr (None, s)
             | Some a \<Rightarrow>
                 bindE (awrite (cs_items c) (cs_size c) a) (\<lambda>b.
                 Inr (Some a, put_conns (Some (c\<lparr>cs_items := b, cs_size := size_add (cs_size c) 1\<rparr>)) s))))"

text \<open>The loop of \<open>conns_remove\<close> over the remaining indices: it stops at the first match.\<close>

fun remove_loop :: "Conn store \<Rightarrow> int \<Rightarrow> nat list \<Rightarrow> Conns \<Rightarrow> Conns res" where
  "remove_loop h sock [] c = Inr c"
| "remove_loop h sock (i # is) c =
     bindE (aread (cs_items c) i) (\<lambda>a.
     bindE (hload h (Some a)) (\<lambda>cn.
     if cn_sock cn = sock
     then let n = size_dec (cs_size c)
          in bindE (araw (cs_items c) n) (\<lambda>v.
             bindE (aput (cs_items c) i v) (\<lambda>b.
             Inr (c\<lparr>cs_items := b, cs_size := n\<rparr>)))
     else remove_loop h sock is c))"

definition conns_remove :: "int \<Rightarrow> srv \<Rightarrow> srv res" where
  "conns_remove sock s =
     bindE (get_conns s) (\<lambda>c.
     bindE (remove_loop (sv_conns s) sock [0..<cs_size c] c) (\<lambda>c. Inr (put_conns (Some c) s)))"

section \<open>Events and their queue\<close>

definition event_create :: "addr \<Rightarrow> string \<Rightarrow> int \<Rightarrow> srv \<Rightarrow> ptr \<times> srv" where
  "event_create conn msg channel s =
     (let (e, h, sc) = halloc (sv_script s) (sv_events s) \<lparr>ev_conn = conn, ev_msg = None, ev_channel = 0\<rparr>
      in case e of
           None \<Rightarrow> (None, s\<lparr>sv_script := sc\<rparr>)
         | Some a \<Rightarrow>
             (let (m, sc) = c_strdup sc msg
              in (Some a, s\<lparr>sv_events := h[a := Some \<lparr>ev_conn = conn, ev_msg = m, ev_channel = channel\<rparr>],
                           sv_script := sc\<rparr>)))"

definition event_free :: "ptr \<Rightarrow> srv \<Rightarrow> srv res" where
  "event_free ev s =
     bindE (hload (sv_events s) ev) (\<lambda>_.
     bindE (hfree (sv_events s) ev) (\<lambda>h. Inr (s\<lparr>sv_events := h\<rparr>)))"

definition evqueue_create :: "bool list \<Rightarrow> nat \<Rightarrow> EvQueue option \<times> bool list" where
  "evqueue_create sc cap =
     (let (ok, sc) = next_outcome sc
      in if \<not> ok then (None, sc)
         else let (events, sc) = c_malloc_array sc PTR_SIZE (size_mul cap PTR_SIZE)
              in case events of
                   None \<Rightarrow> (None, sc)
                 | Some b \<Rightarrow> (Some \<lparr>evq_events = b, evq_size = 0, evq_cap = cap\<rparr>, sc))"

definition evqueue_free :: "srv \<Rightarrow> srv res" where
  "evqueue_free s =
     bindE (get_q s) (\<lambda>q.
     bindE (foldE (\<lambda>i s. bindE (aread (evq_events q) i) (\<lambda>a. event_free (Some a) s)) [0..<evq_size q] s) (\<lambda>s.
     Inr (put_q None s)))"

text \<open>
  \<open>parse_message\<close>: the loop that copies the first word into a cleared buffer (\<open>k\<close> is what is
  left of \<open>msg_len\<close>; source and destination index advance together), then \<open>atoi\<close>. The result
  is \<open>None\<close> for -1 and otherwise the channel with the offset of the message, one past the
  character the loop stopped at.
\<close>

fun copy_word :: "char list \<Rightarrow> nat \<Rightarrow> nat \<Rightarrow> char list \<Rightarrow> (nat \<times> char list) res" where
  "copy_word msg i 0 buf = Inr (i, buf)"
| "copy_word msg i (Suc k) buf =
     (if msg ! i \<noteq> SPACE
      then if i < length buf then copy_word msg (Suc i) k (buf[i := msg ! i]) else Inl OutOfBounds
      else Inr (i, buf))"

definition parse_message :: "char list \<Rightarrow> (int \<times> nat) option res" where
  "parse_message msg =
     bindE (c_str msg 0) (\<lambda>text.
     bindE (copy_word msg 0 (length text) (replicate CH_BUF_SIZE NUL)) (\<lambda>(i, buf).
     bindE (c_str buf 0) (\<lambda>word.
     bindE (c_atoi word) (\<lambda>channel.
     if channel = 0 then Inr None else Inr (Some (channel, i + 1))))))"

definition evq_grow :: "srv \<Rightarrow> (EvQueue option \<times> srv) res" where
  "evq_grow s =
     bindE (get_q s) (\<lambda>q.
     if evq_cap q \<le> evq_size q then
       (let new_cap = size_mul (evq_cap q) 2
        in bindE (c_realloc (sv_script s) PTR_SIZE (evq_events q) (size_mul new_cap PTR_SIZE)) (\<lambda>(r, sc).
           let s = s\<lparr>sv_script := sc\<rparr>
           in case r of
                None \<Rightarrow> bindE (evqueue_free s) (\<lambda>s. Inr (None, s))
              | Some b \<Rightarrow>
                  (let q = q\<lparr>evq_events := b, evq_cap := new_cap\<rparr>
                   in Inr (Some q, put_q (Some q) s))))
     else Inr (Some q, s))"

text \<open>
  \<open>queue_add\<close> for a message in the receiver's buffer \<open>msg\<close>. The block \<open>parsed_msg\<close> is allocated
  and then forgotten: \<open>parse_message\<close> overwrites the pointer.
\<close>

definition evqueue_add :: "addr \<Rightarrow> char list \<Rightarrow> srv \<Rightarrow> (int \<times> srv) res" where
  "evqueue_add conn msg s =
     bindE (evq_grow s) (\<lambda>(room, s).
     case room of
       None \<Rightarrow> Inr (- 1, s)
     | Some q \<Rightarrow>
         (let (ok, sc) = next_outcome (sv_script s); s = s\<lparr>sv_script := sc\<rparr>
          in if \<not> ok then Inr (- 1, s)
             else bindE (parse_message msg) (\<lambda>r.
                  case r of
                    None \<Rightarrow> Inr (- 1, s)
                  | Some (channel, off) \<Rightarrow>
                      bindE (c_str msg off) (\<lambda>parsed_msg.
                      let (ev, s) = event_create conn parsed_msg channel s
                      in case ev of
                           None \<Rightarrow> Inr (- 1, s)
                         | Some e \<Rightarrow>
                             bindE (awrite (evq_events q) (evq_size q) e) (\<lambda>b.
                             Inr (0, put_q (Some (q\<lparr>evq_events := b, evq_size := size_add (evq_size q) 1\<rparr>)) s))))))"

definition evqueue_peek :: "srv \<Rightarrow> ptr res" where
  "evqueue_peek s =
     bindE (get_q s) (\<lambda>q.
     if 0 < evq_size q
     then bindE (aread (evq_events q) (size_dec (evq_size q))) (\<lambda>a. Inr (Some a))
     else Inr None)"

section \<open>The manager\<close>

definition manager_create :: "bool list \<Rightarrow> Manager option \<times> bool list" where
  "manager_create sc =
     (let (ok, sc) = next_outcome sc
      in if \<not> ok then (None, sc)
         else let (q, sc) = evqueue_create sc 1000
              in case q of None \<Rightarrow> (None, sc)
                 | Some q \<Rightarrow>
                     (let (conns, sc) = conns_create sc 1000
                      in case conns of None \<Rightarrow> (None, sc)
                         | Some c \<Rightarrow> (Some \<lparr>m_conns = Some c, m_q_idx = 0, m_q = Some q\<rparr>, sc)))"

definition manager_free :: "srv \<Rightarrow> srv res" where
  "manager_free s = bindE (evqueue_free s) conns_free"

end
