(* ===== verification/Channel_Table.thy ===== *)
theory Channel_Table
  imports Channel_Store
begin

text \<open>
  What the operations of \<open>Channel_Store\<close> do to well-formed data: the message parser, the
  growing array of a connection's channels, the table of connections with its swap-with-last
  removal, and the event queue, which only ever grows and is read at its newest end.
\<close>

section \<open>The parser\<close>

abbreviation word_of :: "string \<Rightarrow> string" where
  "word_of s \<equiv> takeWhile (\<lambda>c. c \<noteq> SPACE) s"

lemma copy_word_steps:
  assumes "i + length s < length buf" and "i + length s \<le> length msg" and "\<And>j. j < length s \<Longrightarrow> msg ! (i + j) = s ! j"
  shows "copy_word msg i (length s) buf =
    Inr (i + length (word_of s), take i buf @ word_of s @ drop (i + length (word_of s)) buf)"
  using assms
proof (induction s arbitrary: i buf)
  case Nil
  then show ?case by simp
next
  case (Cons c s)
  have c: "msg ! i = c" using Cons.prems(3) [of 0] by simp
  have rest: "msg ! (Suc i + j) = s ! j" if "j < length s" for j
    using Cons.prems(3) [of "Suc j"] that by simp
  show ?case
  proof (cases "c = SPACE")
    case True
    with c show ?thesis by simp
  next
    case False
    let ?buf = "buf[i := c]"
    have IH: "copy_word msg (Suc i) (length s) ?buf =
        Inr (Suc i + length (word_of s), take (Suc i) ?buf @ word_of s @ drop (Suc i + length (word_of s)) ?buf)"
      using Cons.prems rest by (intro Cons.IH) simp_all
    have "take (Suc i) ?buf = take i buf @ [c]"
      using Cons.prems(1) by (simp add: take_Suc_conv_app_nth)
    with IH False c Cons.prems(1) show ?thesis by simp
  qed
qed

lemma parse_message_text:
  assumes s: "c_str msg 0 = Inr s" and len: "length msg \<le> CH_BUF_SIZE"
  shows "parse_message msg =
    bindE (c_atoi (word_of s)) (\<lambda>channel.
      Inr (if channel = 0 then None else Some (channel, length (word_of s) + 1)))"
proof -
  let ?z = "replicate CH_BUF_SIZE NUL"
  have ls: "length s < length msg" using c_str_length [OF s] by simp
  have pre: "msg ! j = s ! j" if "j < length s" for j
  proof -
    have "s = takeWhile (\<lambda>c. c \<noteq> NUL) msg" using s by (auto simp: c_str_def split: if_splits)
    with that show ?thesis by (simp add: takeWhile_nth)
  qed
  have lw: "length (word_of s) \<le> length s" by (rule length_takeWhile_le)
  have "copy_word msg 0 (length s) ?z = Inr (length (word_of s), word_of s @ drop (length (word_of s)) ?z)"
    using copy_word_steps [of 0 s ?z msg] ls len pre by simp
  moreover have "c_str (word_of s @ drop (length (word_of s)) ?z) 0 = Inr (word_of s)"
  proof -
    have "drop (length (word_of s)) ?z = NUL # replicate (CH_BUF_SIZE - length (word_of s) - 1) NUL"
      using lw ls len by (cases "CH_BUF_SIZE - length (word_of s)") auto
    moreover have "NUL \<notin> set (word_of s)"
      using c_str_no_NUL [OF s] by (auto dest: set_takeWhileD)
    ultimately show ?thesis by (simp add: c_str_terminated)
  qed
  ultimately show ?thesis using s by (simp add: parse_message_def if_distrib cong: if_cong)
qed

lemma word_of_append: "SPACE \<notin> set w \<Longrightarrow> word_of (w @ SPACE # r) = w"
  by (induction w) auto

lemma word_of_all: "SPACE \<notin> set w \<Longrightarrow> word_of w = w"
  by (induction w) auto

lemma SPACE_dec: "SPACE \<notin> set (dec n)"
  using dec_digits [of n] by (auto simp: c_isdigit_def byte_def)

lemma NUL_dec: "NUL \<notin> set (dec n)"
  using dec_digits [of n] by (auto simp: c_isdigit_def byte_def)

lemma c_atoi_dec: "int n \<le> INT_MAX \<Longrightarrow> c_atoi (dec n) = Inr (int n)"
  using atoi_val_dec [of "[]" n] by (simp add: c_atoi_def INT_MIN_def)

section \<open>Registered channels\<close>

definition channels_rep :: "Channels \<Rightarrow> int list \<Rightarrow> bool" where
  "channels_rep ch xs \<longleftrightarrow> chn_size ch = length xs \<and> block_rep INT_SIZE (chn_items ch) (chn_cap ch) xs"

lemmas channels_rep_iff = channels_rep_def [unfolded block_rep_def]

definition channels_list :: "Channels \<Rightarrow> int list" where
  "channels_list ch = slots (chn_items ch) (chn_size ch)"

lemma channels_rep_list: "channels_rep ch xs \<Longrightarrow> channels_list ch = xs"
  by (auto simp: channels_rep_iff channels_list_def slots_holds)

text \<open>The doubled array is still one that \<open>malloc\<close> grants.\<close>

definition channels_fit :: "nat \<Rightarrow> Channels \<Rightarrow> bool" where
  "channels_fit n ch \<longleftrightarrow> 2 * max (chn_cap ch) (2 * (chn_size ch + n)) * INT_SIZE \<le> PTRDIFF_MAX"

lemma channels_add_room:
  assumes "channels_rep ch xs" and "length xs < chn_cap ch" and "chn_size ch + 1 < SIZE_MOD"
  shows "\<exists>ch'. channels_add (Some ch, sc) x = Inr (0, Some ch', sc) \<and> channels_rep ch' (xs @ [x]) \<and>
           chn_cap ch' = chn_cap ch"
  using assms holds_snoc [of "chn_items ch" xs x]
  by (auto simp: channels_add_def channels_rep_iff size_add_small)

lemma channels_add_full:
  assumes rep: "channels_rep ch xs" and full: "length xs = chn_cap ch"
  shows "channels_add (Some ch, sc) x =
    (if fst (next_outcome sc) \<and> 2 * chn_cap ch * INT_SIZE \<le> PTRDIFF_MAX
     then channels_add (Some (ch\<lparr>chn_items := chn_items ch @ replicate (chn_cap ch) None, chn_cap := 2 * chn_cap ch\<rparr>),
                        snd (next_outcome sc)) x
     else Inr (- 1, None, snd (next_outcome sc)))"
proof -
  have b: "block_rep INT_SIZE (chn_items ch) (chn_cap ch) xs" "0 < INT_SIZE" "\<not> length xs < chn_cap ch"
    and size: "chn_size ch = chn_cap ch"
    using rep full by (simp_all add: channels_rep_def INT_SIZE_def)
  from b show ?thesis
  proof (cases rule: block_double_cases [where sc = sc])
    case granted
    then have "0 < chn_cap ch" by simp
    with granted size show ?thesis by (simp add: channels_add_def Let_def)
  next
    case refused
    with size show ?thesis by (auto simp: channels_add_def channels_free_def Let_def)
  qed
qed


text \<open>The channels are extended if the array has room or can be doubled, and freed otherwise.\<close>

definition channels_grow_ok :: "Channels \<Rightarrow> bool list \<Rightarrow> bool" where
  "channels_grow_ok ch sc \<longleftrightarrow>
     chn_size ch < chn_cap ch \<or> fst (next_outcome sc) \<and> 2 * chn_cap ch * INT_SIZE \<le> PTRDIFF_MAX"

lemma channels_add_decides:
  assumes rep: "channels_rep ch xs"
  shows "\<exists>r chp sc'. channels_add (Some ch, sc) x = Inr (r, chp, sc') \<and>
    (if channels_grow_ok ch sc then r = 0 \<and> (\<exists>ch'. chp = Some ch' \<and> channels_rep ch' (xs @ [x]))
     else r = - 1 \<and> chp = None)"
proof -
  have le: "length xs \<le> chn_cap ch" and size: "chn_size ch = length xs"
    using rep by (auto simp: channels_rep_iff dest: holds_length)
  have small: "chn_size ch + 1 < SIZE_MOD" using rep le by (auto simp: channels_rep_iff size_defs)
  show ?thesis
  proof (cases "length xs < chn_cap ch")
    case True
    with channels_add_room [OF rep True small, of sc x] size show ?thesis by (auto simp: channels_grow_ok_def)
  next
    case False
    with le have full: "length xs = chn_cap ch" by simp
    let ?ch = "ch\<lparr>chn_items := chn_items ch @ replicate (chn_cap ch) None, chn_cap := 2 * chn_cap ch\<rparr>"
    show ?thesis
    proof (cases "fst (next_outcome sc) \<and> 2 * chn_cap ch * INT_SIZE \<le> PTRDIFF_MAX")
      case True
      then have "channels_rep ?ch xs" "length xs < chn_cap ?ch" "chn_size ?ch + 1 < SIZE_MOD"
        using rep small full by (auto simp: channels_rep_iff intro: holds_append)
      from channels_add_room [OF this, of "snd (next_outcome sc)" x] show ?thesis
        using channels_add_full [OF rep full, of sc x] True by (auto simp: channels_grow_ok_def)
    next
      case False
      with channels_add_full [OF rep full, of sc x] size full show ?thesis by (auto simp: channels_grow_ok_def)
    qed
  qed
qed

lemma channels_add_total:
  assumes rep: "channels_rep ch xs"
  shows "\<exists>r chp sc'. channels_add (Some ch, sc) x = Inr (r, chp, sc') \<and>
    (r = - 1 \<and> chp = None \<or> r = 0 \<and> (\<exists>ch'. chp = Some ch' \<and> channels_rep ch' (xs @ [x])))"
  using channels_add_decides [OF rep, of sc x] by (auto split: if_splits)

lemma channels_add_any:
  assumes rep: "channels_rep ch xs" and ret: "channels_add (Some ch, sc) x = Inr (r, chp, sc')"
  shows "r = - 1 \<and> chp = None \<or> r = 0 \<and> (\<exists>ch'. chp = Some ch' \<and> channels_rep ch' (xs @ [x]))"
  using channels_add_total [OF rep, of sc x] ret by auto

lemma channels_add_result:
  assumes rep: "channels_rep ch xs" and ret: "channels_add (Some ch, sc) x = Inr (r, chp, sc')"
  shows "if channels_grow_ok ch sc then \<exists>ch'. chp = Some ch' \<and> channels_rep ch' (xs @ [x]) else chp = None"
  using channels_add_decides [OF rep, of sc x] ret by (auto split: if_splits)

definition channels_ok :: "Channels option \<times> bool list \<Rightarrow> bool" where
  "channels_ok chsc \<longleftrightarrow> (case fst chsc of None \<Rightarrow> False | Some ch \<Rightarrow> channels_rep ch (channels_list ch))"

definition channels_view :: "Channels option \<times> bool list \<Rightarrow> int list" where
  "channels_view chsc = (case fst chsc of None \<Rightarrow> [] | Some ch \<Rightarrow> channels_list ch)"

definition channels_roomy :: "nat \<Rightarrow> Channels option \<times> bool list \<Rightarrow> bool" where
  "channels_roomy n chsc \<longleftrightarrow> snd chsc = [] \<and> (case fst chsc of None \<Rightarrow> False | Some ch \<Rightarrow> channels_fit n ch)"

lemma channels_add_ok:
  assumes rep: "channels_rep ch xs" and fit: "channels_fit (Suc n) ch"
  shows "\<exists>ch'. channels_add (Some ch, []) x = Inr (0, Some ch', []) \<and> channels_rep ch' (xs @ [x]) \<and> channels_fit n ch'"
proof -
  have size: "chn_size ch = length xs" using rep by (simp add: channels_rep_iff)
  have lim: "2 * chn_cap ch * INT_SIZE \<le> PTRDIFF_MAX" "4 * (length xs + Suc n) * INT_SIZE \<le> PTRDIFF_MAX"
    using fit size by (auto simp: channels_fit_def INT_SIZE_def max_def split: if_splits)
  then have small: "chn_size ch + 1 < SIZE_MOD"
    using size by (simp add: size_defs)
  have le: "length xs \<le> chn_cap ch" using rep by (auto simp: channels_rep_iff dest: holds_length)
  show ?thesis
  proof (cases "length xs < chn_cap ch")
    case True
    from channels_add_room [OF rep True small, of "[]" x] obtain ch' where
      "channels_add (Some ch, []) x = Inr (0, Some ch', [])" "channels_rep ch' (xs @ [x])" "chn_cap ch' = chn_cap ch"
      by blast
    with lim show ?thesis
      by (intro exI [of _ ch']) (auto simp: channels_fit_def channels_rep_iff INT_SIZE_def max_def)
  next
    case False
    with le have full: "length xs = chn_cap ch" by simp
    let ?ch = "ch\<lparr>chn_items := chn_items ch @ replicate (chn_cap ch) None, chn_cap := 2 * chn_cap ch\<rparr>"
    have rep2: "channels_rep ?ch xs" using rep lim(1) by (auto simp: channels_rep_iff intro: holds_append)
    have "length xs < chn_cap ?ch" "chn_size ?ch + 1 < SIZE_MOD"
      using rep full small by (auto simp: channels_rep_iff)
    from channels_add_room [OF rep2 this, of "[]" x] obtain ch' where
      "channels_add (Some ?ch, []) x = Inr (0, Some ch', [])" "channels_rep ch' (xs @ [x])" "chn_cap ch' = chn_cap ?ch"
      by blast
    with lim full show ?thesis
      by (intro exI [of _ ch'])
        (auto simp: channels_add_full [OF rep full] channels_fit_def channels_rep_iff INT_SIZE_def max_def)
  qed
qed

interpretation channels: growing_array channels_ok channels_view id channels_roomy channels_add
proof
  fix s n x
  assume "channels_ok s" and "channels_roomy (Suc n) s"
  then obtain ch where s: "s = (Some ch, [])" and rep: "channels_rep ch (channels_list ch)"
    and fit: "channels_fit (Suc n) ch"
    by (cases s) (auto simp: channels_ok_def channels_roomy_def split: option.splits)
  from channels_add_ok [OF rep fit, of x] obtain ch' where
    "channels_add s x = Inr (0, Some ch', [])" "channels_rep ch' (channels_list ch @ [x])" "channels_fit n ch'"
    using s by blast
  with s show "\<exists>t. channels_add s x = Inr (0, t) \<and> channels_ok t \<and> channels_roomy n t \<and>
      channels_view t = channels_view s @ [id x]"
    by (auto simp: channels_ok_def channels_roomy_def channels_view_def channels_rep_list)
qed

section \<open>The table of connections\<close>

definition conns_rep :: "Conns \<Rightarrow> addr list \<Rightarrow> bool" where
  "conns_rep c as \<longleftrightarrow> cs_size c = length as \<and> block_rep PTR_SIZE (cs_items c) (cs_cap c) as"

lemmas conns_rep_iff = conns_rep_def [unfolded block_rep_def]

text \<open>A connection with its channels.\<close>

definition conn_ok :: "srv \<Rightarrow> addr \<Rightarrow> bool" where
  "conn_ok s a \<longleftrightarrow> is_live (sv_conns s) a \<and>
     (case cn_channels (obj (sv_conns s) a) of None \<Rightarrow> True | Some ch \<Rightarrow> channels_rep ch (channels_list ch))"

definition table_conns :: "srv \<Rightarrow> addr list \<Rightarrow> bool" where
  "table_conns s as \<longleftrightarrow>
     (case m_conns (sv_mgr s) of None \<Rightarrow> False | Some c \<Rightarrow> conns_rep c as) \<and>
     distinct as \<and> (\<forall>a\<in>set as. conn_ok s a)"

definition conn_addrs :: "srv \<Rightarrow> addr list" where
  "conn_addrs s = (case m_conns (sv_mgr s) of None \<Rightarrow> [] | Some c \<Rightarrow> slots (cs_items c) (cs_size c))"

definition sock_of :: "srv \<Rightarrow> addr \<Rightarrow> int" where
  "sock_of s a = cn_sock (obj (sv_conns s) a)"

lemma table_conns_addrs: "table_conns s as \<Longrightarrow> conn_addrs s = as"
  by (auto simp: table_conns_def conn_addrs_def conns_rep_iff slots_holds split: option.splits)

lemma table_connsE:
  assumes "table_conns s as"
  obtains c where "m_conns (sv_mgr s) = Some c" and "get_conns s = Inr c" and "conns_rep c as"
    and "distinct as" and "\<forall>a\<in>set as. is_live (sv_conns s) a"
  using assms by (auto simp: table_conns_def get_conns_def conn_ok_def split: option.splits)

lemma conns_rep_aread: "conns_rep c as \<Longrightarrow> i < length as \<Longrightarrow> aread (cs_items c) i = Inr (as ! i)"
  unfolding conns_rep_iff by (blast intro: aread_holds)

lemma conns_rep_size: "conns_rep c as \<Longrightarrow> cs_size c = length as \<and> length as \<le> length (cs_items c)"
  by (auto simp: conns_rep_iff dest: holds_length)

text \<open>The position of the first connection with a socket.\<close>

definition position :: "srv \<Rightarrow> int \<Rightarrow> addr list \<Rightarrow> nat option" where
  "position s sock as = find (\<lambda>i. sock_of s (as ! i) = sock) [0..<length as]"

lemma remove_loop_rep:
  assumes rep: "conns_rep c as" and live: "\<forall>a\<in>set as. is_live (sv_conns s) a" and "set is \<subseteq> {0..<length as}"
  shows "remove_loop (sv_conns s) sock is c =
    (case find (\<lambda>i. sock_of s (as ! i) = sock) is of
       None \<Rightarrow> Inr c
     | Some k \<Rightarrow> Inr (c\<lparr>cs_items := (cs_items c)[k := cs_items c ! (length as - 1)], cs_size := length as - 1\<rparr>))"
  using assms(3)
proof (induction "is")
  case Nil
  then show ?case by simp
next
  case (Cons i "is")
  then have i: "i < length as" by simp
  then have "is_live (sv_conns s) (as ! i)" using live by simp
  moreover have "size_dec (cs_size c) = length as - 1"
    using conns_rep_size [OF rep] rep i
    by (subst size_dec_pos) (auto simp: conns_rep_iff size_defs)
  moreover have "length as - 1 < length (cs_items c)" "i < length (cs_items c)"
    using conns_rep_size [OF rep] i by auto
  ultimately show ?case
    using Cons conns_rep_aread [OF rep i] by (simp add: sock_of_def Let_def)
qed

text \<open>\<open>conns_remove\<close> takes the first connection with the socket out and frees nothing.\<close>

lemma conns_remove_rep:
  assumes "table_conns s as"
  shows "\<exists>t. conns_remove sock s = Inr t \<and> sv_conns t = sv_conns s \<and> sv_events t = sv_events s \<and>
    m_q (sv_mgr t) = m_q (sv_mgr s) \<and> sv_out t = sv_out s \<and> sv_script t = sv_script s \<and>
    table_conns t (case position s sock as of None \<Rightarrow> as | Some k \<Rightarrow> swap_remove as k)"
  using assms
proof (cases rule: table_connsE)
  case (1 c)
  note loop = remove_loop_rep [OF 1(3,5), of "[0..<length as]" sock]
  have size: "cs_size c = length as" using conns_rep_size [OF 1(3)] by simp
  show ?thesis
  proof (cases "position s sock as")
    case None
    then have "conns_remove sock s = Inr (put_conns (Some c) s)"
      using 1 loop size by (simp add: conns_remove_def position_def)
    with None 1 assms show ?thesis
      by (auto simp: put_conns_def table_conns_def conn_ok_def)
  next
    case (Some k)
    let ?c = "c\<lparr>cs_items := (cs_items c)[k := cs_items c ! (length as - 1)], cs_size := length as - 1\<rparr>"
    have k: "k < length as" using Some find_in_set [of _ _ k] by (fastforce simp: position_def)
    have "conns_remove sock s = Inr (put_conns (Some ?c) s)"
      using 1 loop size Some by (simp add: conns_remove_def position_def)
    moreover have "conns_rep ?c (swap_remove as k)"
      using 1(3) k holds_swap_remove [of "cs_items c" as k] by (auto simp: conns_rep_iff)
    moreover have "\<forall>a\<in>set (swap_remove as k). conn_ok s a"
      using assms set_swap_remove [of as k] by (auto simp: table_conns_def)
    ultimately show ?thesis using Some 1(4)
      by (auto simp: put_conns_def table_conns_def conn_ok_def distinct_swap_remove)
  qed
qed


text \<open>The parts of the server an operation on the connections leaves alone, and the other way round.\<close>

definition same_queue :: "srv \<Rightarrow> srv \<Rightarrow> bool" where
  "same_queue s t \<longleftrightarrow> sv_events t = sv_events s \<and> m_q (sv_mgr t) = m_q (sv_mgr s) \<and> sv_out t = sv_out s"

definition same_conns :: "srv \<Rightarrow> srv \<Rightarrow> bool" where
  "same_conns s t \<longleftrightarrow> sv_conns t = sv_conns s \<and> m_conns (sv_mgr t) = m_conns (sv_mgr s) \<and> sv_out t = sv_out s"

lemma same_queue_refl [simp]: "same_queue s s"
  and same_conns_refl [simp]: "same_conns s s"
  by (simp_all add: same_queue_def same_conns_def)

lemma same_conns_table: "same_conns s t \<Longrightarrow> table_conns t as = table_conns s as"
  by (simp add: same_conns_def table_conns_def conn_ok_def)

text \<open>The connections that exist stay as they are.\<close>

definition keeps_conns :: "srv \<Rightarrow> srv \<Rightarrow> bool" where
  "keeps_conns s t \<longleftrightarrow>
     (\<forall>a. is_live (sv_conns s) a \<longrightarrow> is_live (sv_conns t) a \<and> obj (sv_conns t) a = obj (sv_conns s) a)"

lemma keeps_conns_ok: "keeps_conns s t \<Longrightarrow> conn_ok s a \<Longrightarrow> conn_ok t a"
  by (auto simp: keeps_conns_def conn_ok_def)

lemma conns_free_None: "conns_free s = Inr t \<Longrightarrow> m_conns (sv_mgr t) = None \<and> same_queue s t"
proof -
  assume "conns_free s = Inr t"
  then obtain c :: Conns where "bindE (foldE (\<lambda>i s. bindE (aread (cs_items c) i) (\<lambda>a. conn_free (Some a) s)) [0..<cs_size c] s)
      (\<lambda>s. Inr (put_conns None s)) = Inr t"
    unfolding conns_free_def by (auto elim: bindE_eq_InrE)
  then obtain u where u: "foldE (\<lambda>i s. bindE (aread (cs_items c) i) (\<lambda>a. conn_free (Some a) s)) [0..<cs_size c] s = Inr u"
    and t: "Inr (put_conns None u) = Inr t"
    by (auto elim: bindE_eq_InrE)
  have "same_queue s u"
    by (rule foldE_invariant [OF u]) (auto simp: same_queue_def conn_free_def bindE_eq_Inr_iff)
  with t show ?thesis by (auto simp: put_conns_def same_queue_def)
qed

lemma conns_grow_rep:
  assumes rep: "table_conns s as" and ret: "conns_grow s = Inr (room, t)"
  shows "same_queue s t \<and>
    (case room of None \<Rightarrow> m_conns (sv_mgr t) = None
     | Some c \<Rightarrow> m_conns (sv_mgr t) = Some c \<and> conns_rep c as \<and> length as < cs_cap c \<and>
         sv_conns t = sv_conns s \<and> table_conns t as)"
  using rep
proof (cases rule: table_connsE)
  case (1 c)
  then have b: "block_rep PTR_SIZE (cs_items c) (cs_cap c) as" "0 < PTR_SIZE" and size: "cs_size c = length as"
    by (simp_all add: conns_rep_def PTR_SIZE_def)
  let ?sc = "snd (next_outcome (sv_script s))"
  show ?thesis
  proof (cases "length as < cs_cap c")
    case True
    with 1 size ret have "room = Some c" "t = s" by (auto simp: conns_grow_def)
    with 1 True rep show ?thesis by simp
  next
    case full: False
    from b full show ?thesis
    proof (cases rule: block_double_cases [where sc = "sv_script s"])
      case granted
      let ?c = "c\<lparr>cs_items := cs_items c @ replicate (cs_cap c) None, cs_cap := 2 * cs_cap c\<rparr>"
      have "conns_grow s = Inr (Some ?c, put_conns (Some ?c) (s\<lparr>sv_script := ?sc\<rparr>))"
        using 1(2) size granted by (simp add: conns_grow_def Let_def)
      moreover have "conns_rep ?c as" using granted size by (simp add: conns_rep_def)
      ultimately show ?thesis using rep ret granted
        by (auto simp: put_conns_def same_queue_def table_conns_def conn_ok_def)
    next
      case refused
      then have "conns_grow s = bindE (conns_free (s\<lparr>sv_script := ?sc\<rparr>)) (\<lambda>s. Inr (None, s))"
        using 1(2) size by (simp add: conns_grow_def Let_def)
      with ret have "conns_free (s\<lparr>sv_script := ?sc\<rparr>) = Inr t" "room = None"
        by (auto simp: bindE_eq_Inr_iff)
      with conns_free_None show ?thesis by (fastforce simp: same_queue_def)
    qed
  qed
qed

lemma new_channels_rep: "channels_create sc 100 = (Some ch, sc') \<Longrightarrow> channels_rep ch [] \<and> chn_cap ch = 100"
  by (cases "next_outcome sc"; cases "fst (next_outcome sc)"; cases "next_outcome (snd (next_outcome sc))")
    (auto simp: channels_create_def alloc_defs channels_rep_iff split: if_splits)

lemma conn_create_cases:
  obtains (fail) h sc where "conn_create sock s = (None, s\<lparr>sv_conns := h, sv_script := sc\<rparr>)"
      and "\<And>a. is_live (sv_conns s) a \<Longrightarrow> is_live h a \<and> obj h a = obj (sv_conns s) a"
  | (ok) ch sc where "conn_create sock s = (Some (length (sv_conns s)),
        s\<lparr>sv_conns := sv_conns s @ [Some \<lparr>cn_sock = sock, cn_channels = Some ch\<rparr>], sv_script := sc\<rparr>)"
      and "channels_rep ch []"
proof (cases rule: halloc_cases [of "sv_script s" "sv_conns s" "\<lparr>cn_sock = sock, cn_channels = None\<rparr>"])
  case (fail sc')
  then show ?thesis
    by (intro that(1) [where h = "sv_conns s" and sc = sc']) (simp_all add: conn_create_def)
next
  case (ok sc')
  obtain chp sc where ch: "channels_create sc' 100 = (chp, sc)" by fastforce
  show ?thesis
  proof (cases chp)
    case None
    show ?thesis
      by (rule that(1) [where h = "sv_conns s @ [None]" and sc = sc])
        (use ok ch None in \<open>auto simp: conn_create_def is_live_def obj_def nth_append\<close>)
  next
    case (Some c)
    with ok ch new_channels_rep [of sc' c sc] show ?thesis
      by (intro that(2) [where ch = c and sc = sc]) (auto simp: conn_create_def)
  qed
qed

text \<open>
  \<open>conns_add\<close>: the new connection goes to the end, or the table is unchanged, or it has been
  freed with all its connections.
\<close>

lemma conns_append:
  assumes rep: "table_conns s as" and c: "conns_rep c as" "length as < cs_cap c" and ch: "channels_rep ch []"
    and t: "sv_conns t = sv_conns s @ [Some \<lparr>cn_sock = sock, cn_channels = Some ch\<rparr>]"
      "m_conns (sv_mgr t) = Some (c\<lparr>cs_items := (cs_items c)[length as := Some (length (sv_conns s))], cs_size := Suc (length as)\<rparr>)"
  shows "table_conns t (as @ [length (sv_conns s)])" and "sock_of t (length (sv_conns s)) = sock" and "keeps_conns s t"
    and "cn_channels (obj (sv_conns t) (length (sv_conns s))) = Some ch"
proof -
  let ?a = "length (sv_conns s)"
  let ?c = "c\<lparr>cs_items := (cs_items c)[length as := Some ?a], cs_size := Suc (length as)\<rparr>"
  have live: "\<forall>a\<in>set as. conn_ok s a" "distinct as" using rep by (simp_all add: table_conns_def)
  have "conns_rep ?c (as @ [?a])" using c block_rep_snoc [of PTR_SIZE "cs_items c" "cs_cap c" as] by (simp add: conns_rep_def)
  moreover have "conn_ok t a" if "a \<in> set as" for a
    using live(1) that t by (auto simp: conn_ok_def)
  moreover have "conn_ok t ?a" using t ch channels_rep_list [OF ch] by (auto simp: conn_ok_def)
  moreover have "?a \<notin> set as" using live(1) by (auto simp: conn_ok_def dest: is_live_less)
  ultimately show "table_conns t (as @ [?a])" using t live(2) by (auto simp: table_conns_def)
  show "sock_of t ?a = sock" "keeps_conns s t" "cn_channels (obj (sv_conns t) ?a) = Some ch"
    using t by (simp_all add: sock_of_def keeps_conns_def)
qed

lemma conns_add_rep:
  assumes rep: "table_conns s as" and ret: "conns_add sock s = Inr (r, t)"
  shows "same_queue s t \<and>
    (case r of
       None \<Rightarrow> m_conns (sv_mgr t) = None \<or> table_conns t as \<and> keeps_conns s t
     | Some a \<Rightarrow> a = length (sv_conns s) \<and> table_conns t (as @ [a]) \<and> sock_of t a = sock \<and> keeps_conns s t \<and>
         (\<exists>ch. cn_channels (obj (sv_conns t) a) = Some ch \<and> channels_rep ch []))"
proof -
  from ret obtain room u where grow: "conns_grow s = Inr (room, u)"
    by (auto simp: conns_add_def bindE_eq_Inr_iff)
  note g = conns_grow_rep [OF rep grow]
  show ?thesis
  proof (cases room)
    case None
    with ret grow g show ?thesis by (auto simp: conns_add_def)
  next
    case (Some c)
    with g have c: "m_conns (sv_mgr u) = Some c" "conns_rep c as" "length as < cs_cap c"
      "sv_conns u = sv_conns s" "table_conns u as" and sq: "same_queue s u" by auto
    show ?thesis
    proof (cases rule: conn_create_cases [of sock u])
      case (fail h sc)
      with ret grow Some have r: "r = None" "t = u\<lparr>sv_conns := h, sv_script := sc\<rparr>"
        by (auto simp: conns_add_def)
      then have "keeps_conns s t" "m_conns (sv_mgr t) = Some c" using fail(2) c(1,4) by (simp_all add: keeps_conns_def)
      with r c(2) sq rep show ?thesis
        by (auto simp: table_conns_def same_queue_def intro: keeps_conns_ok)
    next
      case (ok ch sc)
      let ?a = "length (sv_conns s)"
      let ?c = "c\<lparr>cs_items := (cs_items c)[length as := Some ?a], cs_size := Suc (length as)\<rparr>"
      let ?u = "u\<lparr>sv_conns := sv_conns s @ [Some \<lparr>cn_sock = sock, cn_channels = Some ch\<rparr>], sv_script := sc\<rparr>"
      have "Suc (length as) < SIZE_MOD" using c(2) by (auto simp: conns_rep_def PTR_SIZE_def intro: block_rep_small)
      then have "conns_add sock s = Inr (Some ?a, put_conns (Some ?c) ?u)"
        using grow Some ok(1) c(2,3,4) by (simp add: conns_add_def size_add_small conns_rep_iff)
      with ret have "(r, t) = (Some ?a, put_conns (Some ?c) ?u)" by (metis sum.inject(2))
      then have t: "r = Some ?a" "t = put_conns (Some ?c) ?u" by simp_all
      note app = conns_append [OF rep c(2,3) ok(2), of t sock]
      with t sq ok(2) show ?thesis by (auto simp: same_queue_def put_conns_def)
    qed
  qed
qed

section \<open>Properties\<close>

lemma parse_message_dec:
  assumes "0 < n" and "int n \<le> INT_MAX" and "NUL \<notin> set body"
    and "length (dec n @ SPACE # body @ NUL # rest) \<le> CH_BUF_SIZE"
  shows "parse_message (dec n @ SPACE # body @ NUL # rest) = Inr (Some (int n, length (dec n) + 1))"
    and "c_str (dec n @ SPACE # body @ NUL # rest) (length (dec n) + 1) = Inr body"
proof -
  let ?msg = "dec n @ SPACE # body @ NUL # rest"
  have "NUL \<notin> set (dec n @ SPACE # body)" using NUL_dec assms(3) by simp
  from c_str_terminated [OF this, of rest] have s: "c_str ?msg 0 = Inr (dec n @ SPACE # body)" by simp
  show "parse_message ?msg = Inr (Some (int n, length (dec n) + 1))"
    using parse_message_text [OF s assms(4)] assms(1,2) c_atoi_dec [of n]
    by (simp add: word_of_append [OF SPACE_dec])
  show "c_str ?msg (length (dec n) + 1) = Inr body"
    using c_str_terminated [OF assms(3), of rest] by (simp add: c_str_def)
qed

text \<open>
  C27: a message that is a positive \<open>int\<close> in decimal, a space and a text, received into a buffer
  of at most 1024 bytes, is parsed into exactly that number, and the pointer it stores is at the
  text: \<open>parse_message\<close> inverts the client's "<channel> <text>".
\<close>

theorem parse_message_roundtrip:
  assumes "0 < n" and "int n \<le> INT_MAX" and "NUL \<notin> set body"
    and "length (dec n @ SPACE # body @ NUL # rest) \<le> CH_BUF_SIZE"
  shows "\<exists>off. parse_message (dec n @ SPACE # body @ NUL # rest) = Inr (Some (int n, off)) \<and>
           c_str (dec n @ SPACE # body @ NUL # rest) off = Inr body"
  using parse_message_dec [OF assms] by blast

theorem parse_message_roundtrip_witness:
  "\<exists>off. parse_message (dec 7 @ SPACE # ''hi'' @ NUL # []) = Inr (Some (int 7, off)) \<and>
      c_str (dec 7 @ SPACE # ''hi'' @ NUL # []) off = Inr ''hi''"
  by (rule parse_message_roundtrip) (simp_all add: INT_MAX_def CH_BUF_SIZE_def dec.simps [of 7])

text \<open>
  when the message has no space, \<open>parse_message\<close> does not fail: the pointer it stores is one
  past the terminating NUL, so the text it reports is whatever the buffer holds behind the
  received message (a fault when that is the end of the buffer).
\<close>

theorem parse_message_without_space:
  assumes "NUL \<notin> set w" and "SPACE \<notin> set w" and "length (w @ NUL # rest) \<le> CH_BUF_SIZE"
    and "c_atoi w = Inr channel" and "channel \<noteq> 0"
  shows "\<exists>off. parse_message (w @ NUL # rest) = Inr (Some (channel, off)) \<and>
           c_str (w @ NUL # rest) off = c_str rest 0"
proof (intro exI conjI)
  note s = c_str_terminated [OF assms(1), of rest]
  show "parse_message (w @ NUL # rest) = Inr (Some (channel, length w + 1))"
    using parse_message_text [OF s assms(3)] assms by (simp add: word_of_all)
  show "c_str (w @ NUL # rest) (length w + 1) = c_str rest 0" by (simp add: c_str_def)
qed

theorem parse_message_without_space_witness:
  "(\<exists>off. parse_message (''4'' @ NUL # ''old'' @ [NUL]) = Inr (Some (4, off)) \<and>
      c_str (''4'' @ NUL # ''old'' @ [NUL]) off = c_str (''old'' @ [NUL]) 0) \<and>
   (\<exists>off. parse_message (''4'' @ NUL # []) = Inr (Some (4, off)) \<and> c_str (''4'' @ NUL # []) off = c_str [] 0)"
proof -
  have 4: "c_atoi ''4'' = Inr 4"
    by (simp add: c_atoi_def atoi_val_def c_isspace_def c_isdigit_def byte_def INT_MIN_def INT_MAX_def)
  show ?thesis
  proof (rule conjI)
    show "\<exists>off. parse_message (''4'' @ NUL # ''old'' @ [NUL]) = Inr (Some (4, off)) \<and>
      c_str (''4'' @ NUL # ''old'' @ [NUL]) off = c_str (''old'' @ [NUL]) 0"
      by (rule parse_message_without_space [OF _ _ _ 4]) (simp_all add: CH_BUF_SIZE_def)
    show "\<exists>off. parse_message (''4'' @ NUL # []) = Inr (Some (4, off)) \<and> c_str (''4'' @ NUL # []) off = c_str [] 0"
      by (rule parse_message_without_space [OF _ _ _ 4]) (simp_all add: CH_BUF_SIZE_def)
  qed
qed

text \<open>
  C34: \<open>conns_remove\<close> never faults on a well-formed table; it takes out exactly the first connection with
  that socket, if there is one, by putting the last one in its place: the others keep their
  order. It frees nothing: the connection objects are still there for the events that point to them.
\<close>

theorem conns_remove_takes_one:
  assumes "table_conns s as"
  shows "\<exists>t. conns_remove sock s = Inr t \<and> sv_conns t = sv_conns s \<and>
    conn_addrs t = (case position s sock as of None \<Rightarrow> as | Some k \<Rightarrow> (butlast as)[k := last as])"
proof -
  from conns_remove_rep [OF assms, of sock] obtain t where t: "conns_remove sock s = Inr t" "sv_conns t = sv_conns s"
    and "table_conns t (case position s sock as of None \<Rightarrow> as | Some k \<Rightarrow> swap_remove as k)" by blast
  then have "conn_addrs t = (case position s sock as of None \<Rightarrow> as | Some k \<Rightarrow> swap_remove as k)"
    by (intro table_conns_addrs)
  with t show ?thesis by (auto simp: swap_remove_def split: option.splits)
qed

definition two_conns :: srv where
  "two_conns = \<lparr>sv_conns = [Some \<lparr>cn_sock = 5, cn_channels = None\<rparr>, Some \<lparr>cn_sock = 6, cn_channels = None\<rparr>],
     sv_events = [],
     sv_mgr = \<lparr>m_conns = Some \<lparr>cs_items = [Some 0, Some 1, None], cs_size = 2, cs_cap = 3\<rparr>, m_q_idx = 0,
               m_q = Some \<lparr>evq_events = [None, None], evq_size = 0, evq_cap = 2\<rparr>\<rparr>,
     sv_script = [], sv_out = []\<rparr>"

lemma two_conns_table: "table_conns two_conns [0, 1]"
  by (simp add: table_conns_def two_conns_def conns_rep_iff holds_def conn_ok_def is_live_def obj_def
      PTR_SIZE_def PTRDIFF_MAX_def)

definition three_conns :: srv where
  "three_conns = \<lparr>sv_conns = map (\<lambda>k. Some \<lparr>cn_sock = k, cn_channels = None\<rparr>) [5, 6, 7],
     sv_events = [],
     sv_mgr = \<lparr>m_conns = Some \<lparr>cs_items = [Some 0, Some 1, Some 2], cs_size = 3, cs_cap = 3\<rparr>, m_q_idx = 0,
               m_q = Some \<lparr>evq_events = [None, None], evq_size = 0, evq_cap = 2\<rparr>\<rparr>,
     sv_script = [], sv_out = []\<rparr>"

lemma three_conns_table: "table_conns three_conns [0, 1, 2]"
  by (simp add: table_conns_def three_conns_def conns_rep_iff holds_def conn_ok_def is_live_def obj_def
      PTR_SIZE_def PTRDIFF_MAX_def)

theorem conns_remove_takes_one_witness:
  "\<exists>t. conns_remove 5 three_conns = Inr t \<and> sv_conns t = sv_conns three_conns \<and> conn_addrs t = [2, 1]"
proof -
  have "position three_conns 5 [0, 1, 2] = Some 0"
    by (simp add: position_def sock_of_def three_conns_def obj_def upt_rec)
  with conns_remove_takes_one [OF three_conns_table, of 5] show ?thesis by simp
qed

text \<open>
  \<open>conns_add\<close> on a well-formed table, whatever \<open>malloc\<close> does: it appends a connection with the
  socket and no channels at the end, leaves the table alone, or has freed the whole table after
  a failed \<open>realloc\<close>, in which case the caller, who only sees \<open>NULL\<close>, goes on with a dangling
  \<open>manager->conns\<close>.
\<close>

theorem conns_add_outcome:
  assumes "table_conns s as" and "conns_add sock s = Inr (r, t)"
  shows "case r of
       None \<Rightarrow> m_conns (sv_mgr t) = None \<or> conn_addrs t = as
     | Some a \<Rightarrow> conn_addrs t = as @ [a] \<and> a \<notin> set as \<and> sock_of t a = sock \<and>
         (\<exists>ch. cn_channels (obj (sv_conns t) a) = Some ch \<and> channels_list ch = [])"
proof -
  note rep = conns_add_rep [OF assms]
  show ?thesis
  proof (cases r)
    case None
    with rep show ?thesis by (auto dest: table_conns_addrs)
  next
    case (Some a)
    with rep have "a \<notin> set as" "table_conns t (as @ [a])" "sock_of t a = sock"
      by (auto simp: table_conns_def)
    with Some rep show ?thesis by (auto dest: table_conns_addrs channels_rep_list)
  qed
qed

theorem conns_add_outcome_witness:
  "\<exists>a t. conns_add 9 two_conns = Inr (Some a, t) \<and> conn_addrs t = [0, 1] @ [a] \<and> sock_of t a = 9"
proof -
  obtain t where "conns_add 9 two_conns = Inr (Some 2, t)"
    by (simp add: conns_add_def conns_grow_def get_conns_def two_conns_def conn_create_def halloc_def
      live_count_def channels_create_def alloc_defs put_conns_def)
  with conns_add_outcome [OF two_conns_table this] show ?thesis by auto
qed

text \<open>
  registering channels appends them in order, duplicates included, as long as the doubled
  array is one that \<open>malloc\<close> grants; no registration is lost when the array grows.
\<close>

theorem channels_add_many:
  assumes "channels_rep ch old" and "2 * max (chn_cap ch) (2 * (length old + length new)) * INT_SIZE \<le> PTRDIFF_MAX"
  shows "\<exists>ch'. run_adds channels_add new (Some ch, []) = Inr (replicate (length new) 0, Some ch', []) \<and>
           channels_list ch' = old @ new"
proof -
  have list: "channels_list ch = old" using assms(1) by (rule channels_rep_list)
  have "chn_size ch = length old" using assms(1) by (simp add: channels_rep_iff)
  with assms list have "channels_ok (Some ch, [])" "channels_roomy (length new) (Some ch, [])"
    by (auto simp: channels_ok_def channels_roomy_def channels_fit_def)
  from channels.run_adds_ok [OF this] list show ?thesis
    by (auto simp: channels_view_def channels_ok_def channels_roomy_def split: option.splits)
qed

theorem channels_add_many_witness:
  "\<exists>ch'. run_adds channels_add [7, 7, 8] (Some \<lparr>chn_items = [Some 3, None], chn_cap = 2, chn_size = 1\<rparr>, []) =
      Inr ([0, 0, 0], Some ch', []) \<and> channels_list ch' = [3, 7, 7, 8]"
  using channels_add_many [of "\<lparr>chn_items = [Some 3, None], chn_cap = 2, chn_size = 1\<rparr>" "[3]" "[7, 7, 8]"]
  by (simp add: channels_rep_iff holds_def INT_SIZE_def PTRDIFF_MAX_def numeral_3_eq_3)

end
