(* ===== verification/Channel_Events.thy ===== *)
theory Channel_Events
  imports Channel_Table
begin

text \<open>
  The event queue of the channel server: an array that grows by doubling, is written at its end
  and is read, without removing anything, at its end as well.
\<close>

section \<open>Representation\<close>

definition evq_rep :: "EvQueue \<Rightarrow> addr list \<Rightarrow> bool" where
  "evq_rep q es \<longleftrightarrow> evq_size q = length es \<and> block_rep PTR_SIZE (evq_events q) (evq_cap q) es"

lemmas evq_rep_iff = evq_rep_def [unfolded block_rep_def]

definition queue_events :: "srv \<Rightarrow> addr list \<Rightarrow> bool" where
  "queue_events s es \<longleftrightarrow> (case m_q (sv_mgr s) of None \<Rightarrow> False | Some q \<Rightarrow> evq_rep q es) \<and>
     distinct es \<and> (\<forall>e\<in>set es. is_live (sv_events s) e)"

lemma queue_eventsE:
  assumes "queue_events s es"
  obtains q where "m_q (sv_mgr s) = Some q" and "get_q s = Inr q" and "evq_rep q es"
    and "distinct es" and "\<forall>e\<in>set es. is_live (sv_events s) e"
  using assms by (auto simp: queue_events_def get_q_def split: option.splits)

lemma evq_rep_size: "evq_rep q es \<Longrightarrow> evq_size q = length es \<and> length es \<le> length (evq_events q) \<and> length es < SIZE_MOD - 1"
  by (auto simp: evq_rep_iff size_defs dest: holds_length)

section \<open>Peek\<close>

lemma evqueue_peek_rep:
  assumes "queue_events s es"
  shows "evqueue_peek s = Inr (if es = [] then None else Some (last es))"
  using assms
proof (cases rule: queue_eventsE)
  case (1 q)
  show ?thesis
  proof (cases "es = []")
    case True
    with 1 evq_rep_size [OF 1(3)] show ?thesis by (simp add: evqueue_peek_def)
  next
    case False
    moreover have "size_dec (length es) = length es - 1"
      using False evq_rep_size [OF 1(3)] by (intro size_dec_pos) auto
    moreover have "aread (evq_events q) (length es - 1) = Inr (es ! (length es - 1))"
      using False 1(3) unfolding evq_rep_iff by (intro aread_holds) auto
    ultimately show ?thesis
      using 1 evq_rep_size [OF 1(3)] by (simp add: evqueue_peek_def last_conv_nth)
  qed
qed

section \<open>Add\<close>

lemma evqueue_free_None: "evqueue_free s = Inr t \<Longrightarrow> m_q (sv_mgr t) = None \<and> same_conns s t"
proof -
  assume "evqueue_free s = Inr t"
  then obtain q :: EvQueue where
    "bindE (foldE (\<lambda>i s. bindE (aread (evq_events q) i) (\<lambda>a. event_free (Some a) s)) [0..<evq_size q] s)
      (\<lambda>s. Inr (put_q None s)) = Inr t"
    unfolding evqueue_free_def by (auto elim: bindE_eq_InrE)
  then obtain u where u: "foldE (\<lambda>i s. bindE (aread (evq_events q) i) (\<lambda>a. event_free (Some a) s)) [0..<evq_size q] s = Inr u"
    and t: "Inr (put_q None u) = Inr t"
    by (auto elim: bindE_eq_InrE)
  have "same_conns s u"
    by (rule foldE_invariant [OF u]) (auto simp: same_conns_def event_free_def bindE_eq_Inr_iff)
  with t show ?thesis by (auto simp: put_q_def same_conns_def)
qed

lemma evq_grow_rep:
  assumes rep: "queue_events s es" and ret: "evq_grow s = Inr (room, t)"
  shows "same_conns s t \<and>
    (case room of None \<Rightarrow> m_q (sv_mgr t) = None
     | Some q \<Rightarrow> m_q (sv_mgr t) = Some q \<and> evq_rep q es \<and> length es < evq_cap q \<and>
         sv_events t = sv_events s \<and> queue_events t es)"
  using rep
proof (cases rule: queue_eventsE)
  case (1 q)
  then have b: "block_rep PTR_SIZE (evq_events q) (evq_cap q) es" "0 < PTR_SIZE" and size: "evq_size q = length es"
    by (simp_all add: evq_rep_def PTR_SIZE_def)
  let ?sc = "snd (next_outcome (sv_script s))"
  show ?thesis
  proof (cases "length es < evq_cap q")
    case True
    with 1 size ret have "room = Some q" "t = s" by (auto simp: evq_grow_def)
    with 1 True rep show ?thesis by simp
  next
    case full: False
    from b full show ?thesis
    proof (cases rule: block_double_cases [where sc = "sv_script s"])
      case granted
      let ?q = "q\<lparr>evq_events := evq_events q @ replicate (evq_cap q) None, evq_cap := 2 * evq_cap q\<rparr>"
      have "evq_grow s = Inr (Some ?q, put_q (Some ?q) (s\<lparr>sv_script := ?sc\<rparr>))"
        using 1(2) size granted by (simp add: evq_grow_def Let_def)
      moreover have "evq_rep ?q es" using granted size by (simp add: evq_rep_def)
      ultimately show ?thesis using rep ret granted
        by (auto simp: put_q_def same_conns_def queue_events_def)
    next
      case refused
      then have "evq_grow s = bindE (evqueue_free (s\<lparr>sv_script := ?sc\<rparr>)) (\<lambda>s. Inr (None, s))"
        using 1(2) size by (simp add: evq_grow_def Let_def)
      with ret have "evqueue_free (s\<lparr>sv_script := ?sc\<rparr>) = Inr t" "room = None"
        by (auto simp: bindE_eq_Inr_iff)
      with evqueue_free_None show ?thesis by (fastforce simp: same_conns_def)
    qed
  qed
qed

lemma event_create_cases:
  obtains (fail) sc where "event_create conn msg channel s = (None, s\<lparr>sv_script := sc\<rparr>)"
  | (ok) m sc where "m = None \<or> m = Some msg"
      and "event_create conn msg channel s = (Some (length (sv_events s)),
        s\<lparr>sv_events := sv_events s @ [Some \<lparr>ev_conn = conn, ev_msg = m, ev_channel = channel\<rparr>], sv_script := sc\<rparr>)"
proof (cases rule: halloc_cases [of "sv_script s" "sv_events s" "\<lparr>ev_conn = conn, ev_msg = None, ev_channel = 0\<rparr>"])
  case (fail sc')
  then show ?thesis by (intro that(1) [where sc = sc']) (simp add: event_create_def)
next
  case (ok sc')
  obtain m sc where m: "c_strdup sc' msg = (m, sc)" by fastforce
  then have "m = None \<or> m = Some msg"
    by (cases "next_outcome sc'") (auto simp: c_strdup_def split: if_splits)
  with ok m show ?thesis
    by (intro that(2) [where m = m and sc = sc]) (simp_all add: event_create_def)
qed

text \<open>The ways through \<open>queue_add\<close>: no room, no memory or no channel, and a new event.\<close>

lemma evqueue_add_cases:
  assumes ret: "evqueue_add conn msg s = Inr (r, t)"
  obtains (no_room) "r = - 1" and "evq_grow s = Inr (None, t)"
  | (no_event) q u sc where "r = - 1" and "evq_grow s = Inr (Some q, u)" and "t = u\<lparr>sv_script := sc\<rparr>"
  | (event) q u sc channel off body m b where "r = 0" and "evq_grow s = Inr (Some q, u)"
      and "parse_message msg = Inr (Some (channel, off))" and "c_str msg off = Inr body" and "m = None \<or> m = Some body"
      and "awrite (evq_events q) (evq_size q) (length (sv_events u)) = Inr b"
      and "t = put_q (Some (q\<lparr>evq_events := b, evq_size := size_add (evq_size q) 1\<rparr>))
        (u\<lparr>sv_events := sv_events u @ [Some \<lparr>ev_conn = conn, ev_msg = m, ev_channel = channel\<rparr>], sv_script := sc\<rparr>)"
proof -
  from ret obtain room u where grow: "evq_grow s = Inr (room, u)"
    by (auto simp: evqueue_add_def Let_def bindE_eq_Inr_iff)
  show thesis
  proof (cases room)
    case None
    with ret grow show thesis by (intro no_room) (auto simp: evqueue_add_def)
  next
    case (Some q)
    obtain ok sc1 where ok: "next_outcome (sv_script u) = (ok, sc1)" by fastforce
    note run = ret grow Some ok
    have "\<exists>p. parse_message msg = Inr p \<and> (\<forall>channel off. p = Some (channel, off) \<longrightarrow> (\<exists>body. c_str msg off = Inr body))" if ok
      using run that by (auto simp: evqueue_add_def Let_def bindE_eq_Inr_iff)
    then consider "\<not> ok" | "ok" "parse_message msg = Inr None"
      | (parsed) channel off body where "ok" "parse_message msg = Inr (Some (channel, off))" "c_str msg off = Inr body"
      by (metis option.exhaust surj_pair)
    then show thesis
    proof cases
      case parsed
      show thesis
      proof (cases rule: event_create_cases [of conn body channel "u\<lparr>sv_script := sc1\<rparr>"])
        case (fail sc2)
        with run parsed show thesis by (intro no_event [of q u sc2]) (auto simp: evqueue_add_def)
      next
        case created: (ok m sc2)
        with run parsed obtain b where "awrite (evq_events q) (evq_size q) (length (sv_events u)) = Inr b"
          by (auto simp: evqueue_add_def bindE_eq_Inr_iff)
        with run parsed created show thesis
          by (intro event [of q u channel off body m b sc2]) (auto simp: evqueue_add_def)
      qed
    qed (use run in \<open>intro no_event [of q u sc1]; auto simp: evqueue_add_def\<close>)+
  qed
qed

text \<open>
  \<open>queue_add\<close> puts a new event at the end, or leaves the queue as it was, or has destroyed it
  because there was no memory to grow. The connections are not touched.
\<close>

lemma evqueue_add_rep:
  assumes rep: "queue_events s es" and ret: "evqueue_add conn msg s = Inr (r, t)"
  obtains (added) channel off body m where "r = 0" and "same_conns s t"
      and "parse_message msg = Inr (Some (channel, off))" and "c_str msg off = Inr body"
      and "m = None \<or> m = Some body"
      and "queue_events t (es @ [length (sv_events s)])"
      and "sv_events t = sv_events s @ [Some \<lparr>ev_conn = conn, ev_msg = m, ev_channel = channel\<rparr>]"
  | (refused) "r = - 1" and "same_conns s t" and "queue_events t es" and "sv_events t = sv_events s"
  | (destroyed) "r = - 1" and "same_conns s t" and "m_q (sv_mgr t) = None"
  using ret
proof (cases rule: evqueue_add_cases)
  case no_room
  with evq_grow_rep [OF rep this(2)] show thesis by (intro destroyed) auto
next
  case (no_event q u sc)
  with evq_grow_rep [OF rep this(2)] show thesis by (intro refused) (auto simp: same_conns_def queue_events_def)
next
  case (event q u sc channel off body m b)
  from evq_grow_rep [OF rep event(2)] have sc: "same_conns s u" and q: "evq_rep q es" "length es < evq_cap q"
    "sv_events u = sv_events s" "queue_events u es" by auto
  let ?e = "length (sv_events s)"
  have "Suc (length es) < SIZE_MOD" using q(1) by (auto simp: evq_rep_def PTR_SIZE_def intro: block_rep_small)
  then have "evq_rep (q\<lparr>evq_events := b, evq_size := size_add (evq_size q) 1\<rparr>) (es @ [?e])"
    using event(6) q block_rep_snoc [of PTR_SIZE "evq_events q" "evq_cap q" es] block_rep_room [of PTR_SIZE "evq_events q" "evq_cap q" es]
    by (auto simp: evq_rep_def size_add_small)
  moreover have "?e \<notin> set es" using rep by (auto simp: queue_events_def dest: is_live_less)
  ultimately have "queue_events t (es @ [?e])"
    using event(7) q(3,4) rep by (auto simp: queue_events_def put_q_def)
  with event sc q(3) show thesis
    by (intro added [of channel off body m]) (auto simp: put_q_def same_conns_def)
qed

end
