(* ===== verification/Channel_Server.thy ===== *)
theory Channel_Server
  imports Channel_Events Net_Setup
begin

text \<open>
  \<^verbatim>\<open>networking/threaded_chat_server_with_channels/server.c\<close>, the threads: \<open>main\<close> accepts
  connections and starts a receiver for each of them, receivers turn messages into events, the
  manager thread hands the events out.

  The mutex is taken around \<open>queue_add\<close> with \<open>sem_post\<close> and around \<open>queue_peek\<close>, and nowhere
  else, so each of these critical sections is one step. The iterations of the manager's
  broadcast loop, the removal of a connection after \<open>recv\<close> has failed and \<open>conns_add\<close> in
  \<open>main\<close> run without it; they are steps of their own that come in any order. What the C memory
  model says of two such steps at the very same time is not part of the model.
\<close>

section \<open>The receiver\<close>

definition MAX_CONNS :: nat where "MAX_CONNS = 24"

text \<open>\<open>None\<close> is a failed \<open>malloc\<close>; the other fields of the context are the same for everyone.\<close>

definition receiver_ctx_create :: "bool list \<Rightarrow> addr \<Rightarrow> ptr \<times> bool list" where
  "receiver_ctx_create sc conn =
     (let (ok, sc) = next_outcome sc in (if ok then Some conn else None, sc))"

definition receiver_close :: "addr \<Rightarrow> srv \<Rightarrow> srv res" where
  "receiver_close conn s =
     bindE (hload (sv_conns s) (Some conn)) (\<lambda>cn.
     conns_remove (cn_sock cn) (s\<lparr>sv_out := sv_out s @ [Close (cn_sock cn)]\<rparr>))"

text \<open>
  One iteration of the loop: \<open>junk\<close> is what the automatic buffer holds before \<open>recv\<close> writes into
  it. The result is \<open>True\<close> when the semaphore is posted, \<open>False\<close> when the loop is left.
\<close>

definition receiver_iteration :: "addr \<Rightarrow> char list \<Rightarrow> rx \<Rightarrow> srv \<Rightarrow> (bool \<times> srv) res" where
  "receiver_iteration conn junk r s =
     bindE (hload (sv_conns s) (Some conn)) (\<lambda>_.
     case recv_upto (CH_BUF_SIZE - 1) r of
       RxData d \<Rightarrow>
         (let buf = (buf_write junk d)[length d := NUL]
          in bindE (evqueue_add conn buf s) (\<lambda>(res, s).
             if res = - 1 then bindE (receiver_close conn s) (\<lambda>s. Inr (False, s))
             else Inr (True, s)))
     | RxEof \<Rightarrow> bindE (receiver_close conn s) (\<lambda>s. Inr (False, s))
     | _ \<Rightarrow> bindE (receiver_close conn s) (\<lambda>s. Inr (False, s)))"

section \<open>The manager\<close>

datatype mgr_pc =
    MgrWait                      \<comment> \<open>in \<open>sem_wait\<close>\<close>
  | MgrPeek                      \<comment> \<open>about to look at the queue\<close>
  | MgrEvent ptr                 \<comment> \<open>with the event, before the mutex-free part\<close>
  | MgrSend addr string nat      \<comment> \<open>event, formatted message, loop index\<close>

definition event_print :: "ptr \<Rightarrow> srv \<Rightarrow> (Event \<times> string \<times> Conn) res" where
  "event_print ev s =
     bindE (hload (sv_events s) ev) (\<lambda>e.
     bindE (hload (sv_conns s) (Some (ev_conn e))) (\<lambda>cn.
     case ev_msg e of None \<Rightarrow> Inl NullDeref | Some m \<Rightarrow> Inr (e, m, cn)))"

definition event_text :: "int \<Rightarrow> string \<Rightarrow> string" where
  "event_text sock msg = ''['' @ dec_int sock @ ''] '' @ msg"

definition mgr_dispatch :: "(nat \<Rightarrow> nat) \<Rightarrow> ptr \<Rightarrow> srv \<Rightarrow> (mgr_pc \<times> srv) res" where
  "mgr_dispatch slack ev s =
     bindE (event_print ev s) (\<lambda>(e, msg, cn).
     if c_strneq msg ''$reg'' 4
     then bindE (channels_add (cn_channels cn, sv_script s) (ev_channel e)) (\<lambda>(r, ch, sc).
          bindE (hupd (sv_conns s) (Some (ev_conn e)) (\<lambda>cn. cn\<lparr>cn_channels := ch\<rparr>)) (\<lambda>h.
          Inr (MgrWait, s\<lparr>sv_conns := h, sv_script := sc\<rparr>)))
     else bindE (sprintf_fits slack (CH_BUF_SIZE + 100) (event_text (cn_sock cn) msg)) (\<lambda>_.
          Inr (MgrSend (the ev) (event_text (cn_sock cn) msg) 0, s)))"

text \<open>The inner loop over the channels of a connection: it sends once and stops.\<close>

fun channel_loop :: "Channels \<Rightarrow> int \<Rightarrow> nat list \<Rightarrow> bool res" where
  "channel_loop ch channel [] = Inr False"
| "channel_loop ch channel (j # js) =
     bindE (aread (chn_items ch) j) (\<lambda>c. if c = channel then Inr True else channel_loop ch channel js)"

definition deliver :: "addr \<Rightarrow> string \<Rightarrow> nat \<Rightarrow> srv \<Rightarrow> srv res" where
  "deliver ev msg i s =
     bindE (get_conns s) (\<lambda>c.
     bindE (aread (cs_items c) i) (\<lambda>a.
     bindE (hload (sv_conns s) (Some a)) (\<lambda>cn.
     bindE (hload (sv_events s) (Some ev)) (\<lambda>e.
     bindE (hload (sv_conns s) (Some (ev_conn e))) (\<lambda>sender.
     if cn_sock sender \<noteq> cn_sock cn
     then (case cn_channels cn of
             None \<Rightarrow> Inl UseAfterFree
           | Some ch \<Rightarrow>
               bindE (channel_loop ch (ev_channel e) [0..<chn_size ch]) (\<lambda>found.
               Inr (if found then s\<lparr>sv_out := sv_out s @ [Send (cn_sock cn) msg]\<rparr> else s)))
     else Inr s)))))"

definition mgr_send :: "addr \<Rightarrow> string \<Rightarrow> nat \<Rightarrow> srv \<Rightarrow> (mgr_pc \<times> srv) res" where
  "mgr_send ev msg i s =
     bindE (get_conns s) (\<lambda>c.
     if i < cs_size c then bindE (deliver ev msg i s) (\<lambda>s. Inr (MgrSend ev msg (i + 1), s))
     else Inr (MgrWait, s))"

section \<open>The main thread\<close>

text \<open>
  An iteration of the accept loop, \<open>cs\<close> being what \<open>accept\<close> returns, with \<open>n\<close> receivers so far. The
  address of \<open>receivers[n]\<close> goes to \<open>pthread_create\<close>, which writes the thread there;
  \<open>pthread_create\<close> returns a positive number when it fails, never -1, so a receiver that was not
  started (\<open>started = False\<close>) is counted as well. The result says what to append to the receivers.
\<close>

definition main_accept :: "int \<Rightarrow> bool \<Rightarrow> nat \<Rightarrow> srv \<Rightarrow> (ptr list \<times> srv) res" where
  "main_accept cs started n s =
     (if cs = - 1 then Inr ([], s) else
     bindE (conns_add cs s) (\<lambda>(conn, s).
     case conn of
       None \<Rightarrow> Inr ([], s)
     | Some a \<Rightarrow>
         (let (ctx, sc) = receiver_ctx_create (sv_script s) a; s = s\<lparr>sv_script := sc\<rparr>
          in case ctx of
               None \<Rightarrow> Inr ([], s)
             | Some c \<Rightarrow>
                 if n < MAX_CONNS then Inr ([if started then Some c else None], s)
                 else Inl OutOfBounds)))"

section \<open>The threads together\<close>

record chan =
  ch_srv :: srv
  ch_sem :: nat
  ch_mgr :: mgr_pc
  ch_rcv :: "ptr list"        \<comment> \<open>\<open>receiver_ctxs\<close>; \<open>None\<close> once the thread has ended\<close>
  ch_handled :: "addr list"   \<comment> \<open>history: the events the manager has taken\<close>

definition chan_init :: "chan \<Rightarrow> bool" where
  "chan_init s \<longleftrightarrow>
     (\<exists>sc m sc'. manager_create sc = (Some m, sc') \<and>
        ch_srv s = \<lparr>sv_conns = [], sv_events = [], sv_mgr = m, sv_script = sc', sv_out = []\<rparr>) \<and>
     ch_sem s = 0 \<and> ch_mgr s = MgrWait \<and> ch_rcv s = [] \<and> ch_handled s = []"

text \<open>
  \<open>main\<close> up to the accept loop: \<open>None\<close> is \<open>exit (EXIT_FAILURE)\<close>, otherwise the state and whether the
  manager thread runs; \<open>create\<close> is what \<open>pthread_create\<close> returns for it. The cleanup behind the endless loop
  is never reached.
\<close>

definition chan_main :: "bool list \<Rightarrow> int \<Rightarrow> sys_results \<Rightarrow> (chan \<times> bool) option" where
  "chan_main sc create ret =
     (let (manager, sc) = manager_create sc
      in case manager of
           None \<Rightarrow> None
         | Some m \<Rightarrow>
             if create = - 1 then None
             else if \<not> snd (channel_setup ret) then None
             else Some (\<lparr>ch_srv = \<lparr>sv_conns = [], sv_events = [], sv_mgr = m, sv_script = sc, sv_out = []\<rparr>,
                         ch_sem = 0, ch_mgr = MgrWait, ch_rcv = [], ch_handled = []\<rparr>, create = 0))"

lemma chan_main_init: "chan_main sc create ret = Some (s, b) \<Longrightarrow> chan_init s"
  by (auto simp: chan_main_def chan_init_def split: if_splits option.splits prod.splits)

inductive chan_step :: "(nat \<Rightarrow> nat) \<Rightarrow> chan \<Rightarrow> chan \<Rightarrow> bool" for slack where
  accepts: "main_accept cs started (length (ch_rcv s)) (ch_srv s) = Inr (rs, u) \<Longrightarrow>
     chan_step slack s (s\<lparr>ch_srv := u, ch_rcv := ch_rcv s @ rs\<rparr>)"
| receives: "i < length (ch_rcv s) \<Longrightarrow> ch_rcv s ! i = Some conn \<Longrightarrow> length junk = CH_BUF_SIZE \<Longrightarrow>
     receiver_iteration conn junk r (ch_srv s) = Inr (True, u) \<Longrightarrow>
     chan_step slack s (s\<lparr>ch_srv := u, ch_sem := ch_sem s + 1\<rparr>)"
| receiver_ends: "i < length (ch_rcv s) \<Longrightarrow> ch_rcv s ! i = Some conn \<Longrightarrow> length junk = CH_BUF_SIZE \<Longrightarrow>
     receiver_iteration conn junk r (ch_srv s) = Inr (False, u) \<Longrightarrow>
     chan_step slack s (s\<lparr>ch_srv := u, ch_rcv := (ch_rcv s)[i := None]\<rparr>)"
| mgr_wakes: "ch_mgr s = MgrWait \<Longrightarrow> 0 < ch_sem s \<Longrightarrow>
     chan_step slack s (s\<lparr>ch_mgr := MgrPeek, ch_sem := ch_sem s - 1\<rparr>)"
| mgr_peeks: "ch_mgr s = MgrPeek \<Longrightarrow> evqueue_peek (ch_srv s) = Inr ev \<Longrightarrow>
     chan_step slack s (s\<lparr>ch_mgr := MgrEvent ev,
       ch_handled := (case ev of None \<Rightarrow> ch_handled s | Some e \<Rightarrow> ch_handled s @ [e])\<rparr>)"
| mgr_dispatches: "ch_mgr s = MgrEvent ev \<Longrightarrow> mgr_dispatch slack ev (ch_srv s) = Inr (pc, u) \<Longrightarrow>
     chan_step slack s (s\<lparr>ch_mgr := pc, ch_srv := u\<rparr>)"
| mgr_sends: "ch_mgr s = MgrSend ev msg i \<Longrightarrow> mgr_send ev msg i (ch_srv s) = Inr (pc, u) \<Longrightarrow>
     chan_step slack s (s\<lparr>ch_mgr := pc, ch_srv := u\<rparr>)"

inductive_cases chan_stepE: "chan_step slack s t"

section \<open>What an operation keeps\<close>

text \<open>
  \<open>conns_good\<close>: unless it has been freed, the table is well formed and the connections in \<open>R\<close>
  exist. \<open>events_good\<close>: the queue is well formed, every message is shorter than the receive
  buffer, and unless the table has been freed, every event's connection exists.
\<close>

definition conns_good :: "srv \<Rightarrow> addr set \<Rightarrow> bool" where
  "conns_good s R \<longleftrightarrow> m_conns (sv_mgr s) = None \<or> (\<exists>as. table_conns s as) \<and> (\<forall>a\<in>R. conn_ok s a)"

definition event_good :: "srv \<Rightarrow> addr \<Rightarrow> bool" where
  "event_good s e \<longleftrightarrow>
     (case ev_msg (obj (sv_events s) e) of None \<Rightarrow> True | Some m \<Rightarrow> length m < CH_BUF_SIZE) \<and>
     (m_conns (sv_mgr s) \<noteq> None \<longrightarrow> conn_ok s (ev_conn (obj (sv_events s) e)))"

definition events_good :: "srv \<Rightarrow> addr list \<Rightarrow> bool" where
  "events_good s es \<longleftrightarrow> queue_events s es \<and> (\<forall>e\<in>set es. event_good s e)"

lemma same_conns_good: "same_conns s t \<Longrightarrow> conns_good s R \<Longrightarrow> conns_good t R"
  by (simp add: conns_good_def same_conns_table) (simp add: same_conns_def conn_ok_def)

lemma events_good_keeps:
  assumes "events_good s es" and "same_queue s t"
    and "m_conns (sv_mgr t) = None \<or> m_conns (sv_mgr s) \<noteq> None \<and> (\<forall>a. conn_ok s a \<longrightarrow> conn_ok t a)"
  shows "events_good t es"
  using assms by (auto simp: events_good_def event_good_def same_queue_def queue_events_def split: option.splits)

lemma conns_add_Some: "conns_add cs s = Inr (r, t) \<Longrightarrow> m_conns (sv_mgr s) \<noteq> None"
  by (cases "m_conns (sv_mgr s)") (auto simp: conns_add_def conns_grow_def get_conns_def)

lemma main_accept_keeps:
  assumes ret: "main_accept cs started n s = Inr (rs, t)" and good: "conns_good s R"
  shows "same_queue s t \<and> conns_good t (R \<union> {a. Some a \<in> set rs}) \<and> length rs \<le> 1 \<and>
    (rs \<noteq> [] \<longrightarrow> n < MAX_CONNS) \<and> (events_good s es \<longrightarrow> events_good t es)"
proof (cases "cs = - 1")
  case True
  with ret good show ?thesis by (simp add: main_accept_def)
next
  case False
  note ret = ret [unfolded main_accept_def if_not_P [OF False]]
  from ret obtain r u where add: "conns_add cs s = Inr (r, u)"
    by (auto simp: main_accept_def bindE_eq_Inr_iff)
  from conns_add_Some [OF add] good obtain as where tab: "table_conns s as" and R: "\<forall>a\<in>R. conn_ok s a"
    by (auto simp: conns_good_def)
  note rep = conns_add_rep [OF tab add]
  have "t = u\<lparr>sv_script := sv_script t\<rparr>"
    using ret add by (cases r)
      (auto simp: main_accept_def receiver_ctx_create_def Let_def split: prod.splits option.splits if_splits)
  then have t: "\<exists>sc. t = u\<lparr>sv_script := sc\<rparr>" by blast
  then have tu: "same_queue u t" "conns_good u Q \<Longrightarrow> conns_good t Q" "m_conns (sv_mgr t) = m_conns (sv_mgr u)"
      "conn_ok t a = conn_ok u a" for Q a
    by (auto simp: same_queue_def conns_good_def table_conns_def conn_ok_def)
  have rs: "rs = [] \<or> (\<exists>a. r = Some a \<and> n < MAX_CONNS \<and> (rs = [Some a] \<or> rs = [None]))"
    using ret add by (cases r) (auto simp: main_accept_def receiver_ctx_create_def Let_def split: prod.splits option.splits if_splits)
  have sq: "same_queue s t" using rep tu(1) by (auto simp: same_queue_def)
  have ok: "conn_ok s a \<Longrightarrow> conn_ok u a" if "m_conns (sv_mgr u) \<noteq> None" for a
    using rep that by (cases r) (auto intro: keeps_conns_ok)
  have u: "conns_good u (R \<union> {a. Some a \<in> set rs})"
  proof (cases "m_conns (sv_mgr u) = None")
    case False
    with rep have "\<exists>bs. table_conns u bs" by (cases r) auto
    moreover have "conn_ok u a" if "r = Some a" for a
      using rep that by (auto simp: table_conns_def)
    ultimately show ?thesis using R ok rs False by (auto simp: conns_good_def)
  qed (simp add: conns_good_def)
  have "events_good t es" if "events_good s es"
    by (rule events_good_keeps [OF that sq]) (use tu(3,4) ok conns_add_Some [OF add] in auto)
  with rs sq tu(2) [OF u] show ?thesis by auto
qed

lemma receiver_close_keeps:
  assumes ret: "receiver_close conn s = Inr t" and good: "conns_good s R"
  shows "conns_good t R \<and> m_q (sv_mgr t) = m_q (sv_mgr s) \<and> sv_events t = sv_events s \<and>
    sv_conns t = sv_conns s \<and> m_conns (sv_mgr s) \<noteq> None \<and> (events_good s es \<longrightarrow> events_good t es)"
proof -
  from ret obtain cn where cn: "hload (sv_conns s) (Some conn) = Inr cn"
    and rem: "conns_remove (cn_sock cn) (s\<lparr>sv_out := sv_out s @ [Close (cn_sock cn)]\<rparr>) = Inr t"
    by (auto simp: receiver_close_def bindE_eq_Inr_iff)
  let ?s = "s\<lparr>sv_out := sv_out s @ [Close (cn_sock cn)]\<rparr>"
  from rem have ne: "m_conns (sv_mgr s) \<noteq> None"
    by (cases "m_conns (sv_mgr s)") (auto simp: conns_remove_def get_conns_def)
  with good obtain as where "table_conns s as" by (auto simp: conns_good_def)
  then have "table_conns ?s as" by (simp add: table_conns_def conn_ok_def)
  from conns_remove_rep [OF this, of "cn_sock cn"] rem obtain bs where
    t: "sv_conns t = sv_conns s" "sv_events t = sv_events s" "m_q (sv_mgr t) = m_q (sv_mgr s)" "table_conns t bs"
    by auto
  with good ne show ?thesis
    by (auto simp: conns_good_def events_good_def event_good_def queue_events_def conn_ok_def)
qed

lemma c_str_prefix_length: "c_str buf off = Inr m \<Longrightarrow> length buf \<le> CH_BUF_SIZE \<Longrightarrow> length m < CH_BUF_SIZE"
  using c_str_length [of buf off m] by simp

text \<open>A message that arrives becomes an event, is refused, or destroys the queue.\<close>

lemma evqueue_add_good:
  assumes add: "evqueue_add conn buf s = Inr (res, u)" and good: "conns_good s R" and conn: "conn \<in> R"
    and ev: "events_good s es" and len: "length buf \<le> CH_BUF_SIZE"
  shows "conns_good u R \<and>
    (if res = - 1 then sv_events u = sv_events s \<and> events_good u es \<or> m_q (sv_mgr u) = None
     else events_good u (es @ [length (sv_events s)]))"
proof -
  from ev have qe: "queue_events s es" by (simp add: events_good_def)
  from qe add show ?thesis
  proof (cases rule: evqueue_add_rep)
    case (added channel off body m)
    have "is_live (sv_events s) e" if "e \<in> set es" for e
      using qe that by (simp add: queue_events_def)
    moreover have "conn_ok u a = conn_ok s a" "m_conns (sv_mgr u) = m_conns (sv_mgr s)" for a
      using added(2) by (simp_all add: same_conns_def conn_ok_def)
    moreover have "m_conns (sv_mgr s) \<noteq> None \<Longrightarrow> conn_ok s conn"
      using good conn by (auto simp: conns_good_def)
    moreover have "length body < CH_BUF_SIZE" using c_str_prefix_length [OF added(4) len] .
    ultimately have "events_good u (es @ [length (sv_events s)])"
      using ev added(5,6,7) by (auto simp: events_good_def event_good_def)
    with same_conns_good [OF added(2) good] added(1) show ?thesis by simp
  next
    case refused
    then have "events_good u es" using ev
      by (auto simp: events_good_def event_good_def same_conns_def conn_ok_def)
    with same_conns_good [OF refused(2) good] refused show ?thesis by simp
  next
    case destroyed
    with same_conns_good [OF destroyed(2) good] show ?thesis by simp
  qed
qed

lemma receiver_iteration_keeps:
  assumes ret: "receiver_iteration conn junk r s = Inr (p, t)" and good: "conns_good s R"
    and conn: "conn \<in> R" and junk: "length junk = CH_BUF_SIZE"
    and q: "m_q (sv_mgr s) = None \<or> events_good s es"
  shows "conns_good t R \<and>
    (m_q (sv_mgr t) = None \<and> \<not> p \<or>
     m_q (sv_mgr s) \<noteq> None \<and> (sv_events t = sv_events s \<and> events_good t es \<and> \<not> p \<or>
       events_good t (es @ [length (sv_events s)]) \<and> p))"
proof -
  from ret obtain cn where cn: "hload (sv_conns s) (Some conn) = Inr cn"
    by (auto simp: receiver_iteration_def bindE_eq_Inr_iff)
  consider (closed) "receiver_close conn s = Inr t" "\<not> p"
    | (data) d where "recv_upto (CH_BUF_SIZE - 1) r = RxData d"
    using ret cn by (cases "recv_upto (CH_BUF_SIZE - 1) r") (auto simp: receiver_iteration_def bindE_eq_Inr_iff)
  then show ?thesis
  proof cases
    case closed
    from receiver_close_keeps [OF closed(1) good, of es] closed(2) q show ?thesis by auto
  next
    case (data d)
    let ?buf = "(buf_write junk d)[length d := NUL]"
    have "length d \<le> CH_BUF_SIZE - 1" using recv_upto_data [OF data] by simp
    then have len: "length ?buf \<le> CH_BUF_SIZE" using junk by simp
    from ret cn data obtain res u where add: "evqueue_add conn ?buf s = Inr (res, u)"
      and rest: "if res = - 1 then receiver_close conn u = Inr t \<and> \<not> p else t = u \<and> p"
      by (auto simp: receiver_iteration_def Let_def bindE_eq_Inr_iff split: if_splits)
    from add have ne: "m_q (sv_mgr s) \<noteq> None"
      by (cases "m_q (sv_mgr s)") (auto simp: evqueue_add_def evq_grow_def get_q_def)
    with q have ev: "events_good s es" by simp
    note u = evqueue_add_good [OF add good conn ev len]
    show ?thesis
    proof (cases "res = - 1")
      case True
      then have "receiver_close conn u = Inr t" "\<not> p" using rest by simp_all
      with receiver_close_keeps [of conn u t R es] u True ne show ?thesis by auto
    next
      case False
      with u rest ne show ?thesis by simp
    qed
  qed
qed

lemma conns_good_keeps:
  assumes "conns_good s R" and "m_conns (sv_mgr t) = m_conns (sv_mgr s)" and "\<And>a. conn_ok s a \<Longrightarrow> conn_ok t a"
  shows "conns_good t R"
  using assms unfolding conns_good_def table_conns_def by (metis option.case_eq_if)

lemma mgr_dispatch_keeps:
  assumes ret: "mgr_dispatch slack ev s = Inr (pc, t)"
  shows "(pc = MgrWait \<or> (\<exists>e m. ev = Some e \<and> pc = MgrSend e m 0)) \<and> m_q (sv_mgr t) = m_q (sv_mgr s) \<and>
    sv_events t = sv_events s \<and> sv_out t = sv_out s \<and>
    (conns_good s R \<longrightarrow> conns_good t R) \<and> (events_good s es \<longrightarrow> events_good t es)"
proof -
  from ret obtain e msg cn where pr: "event_print ev s = Inr (e, msg, cn)"
    by (auto simp: mgr_dispatch_def bindE_eq_Inr_iff)
  then have cn: "hload (sv_conns s) (Some (ev_conn e)) = Inr cn" and ev: "ev \<noteq> None"
    by (cases ev; auto simp: event_print_def bindE_eq_Inr_iff split: option.splits)+
  show ?thesis
  proof (cases "c_strneq msg ''$reg'' 4")
    case False
    with ret pr ev show ?thesis by (auto simp: mgr_dispatch_def bindE_eq_Inr_iff)
  next
    case True
    with ret pr obtain r ch sc h where add: "channels_add (cn_channels cn, sv_script s) (ev_channel e) = Inr (r, ch, sc)"
      and h: "hupd (sv_conns s) (Some (ev_conn e)) (\<lambda>cn. cn\<lparr>cn_channels := ch\<rparr>) = Inr h"
      and t: "pc = MgrWait" "t = s\<lparr>sv_conns := h, sv_script := sc\<rparr>"
      by (auto simp: mgr_dispatch_def bindE_eq_Inr_iff)
    let ?a = "ev_conn e"
    from h cn have h': "h = (sv_conns s)[?a := Some (cn\<lparr>cn_channels := ch\<rparr>)]" by (simp add: hupd_def)
    from add obtain ch0 where ch0: "cn_channels cn = Some ch0"
      by (cases "cn_channels cn") (auto simp: channels_add_def)
    have ok: "conn_ok t b" if b: "conn_ok s b" for b
    proof (cases "b = ?a")
      case True
      with b cn have o: "obj (sv_conns s) b = cn" "is_live (sv_conns s) b" by (auto simp: conn_ok_def)
      with b ch0 have "channels_rep ch0 (channels_list ch0)" by (simp add: conn_ok_def)
      from channels_add_any [OF this, of "sv_script s" "ev_channel e" r ch sc] add ch0
      have "ch = None \<or> (\<exists>ch'. ch = Some ch' \<and> channels_rep ch' (channels_list ch'))"
        by (auto simp: channels_rep_list)
      with o True t(2) h' is_live_less [of "sv_conns s" b] show ?thesis by (auto simp: conn_ok_def obj_update)
    next
      case False
      with b t(2) h' show ?thesis by (simp add: conn_ok_def)
    qed
    have "conns_good s R \<longrightarrow> conns_good t R"
      using conns_good_keeps [of s R t] ok t(2) by auto
    moreover have "events_good s es \<longrightarrow> events_good t es"
      using ok t(2) by (auto simp: events_good_def event_good_def queue_events_def)
    ultimately show ?thesis using t by simp
  qed
qed

lemma deliver_out: "deliver ev msg i s = Inr t \<Longrightarrow> \<exists>out. t = s\<lparr>sv_out := out\<rparr>"
proof -
  assume "deliver ev msg i s = Inr t"
  then have "t = s\<lparr>sv_out := sv_out t\<rparr>"
    by (auto simp: deliver_def bindE_eq_Inr_iff split: if_splits option.splits)
  then show ?thesis by blast
qed

lemma mgr_send_keeps:
  assumes "mgr_send ev msg i s = Inr (pc, t)"
  shows "(pc = MgrWait \<or> pc = MgrSend ev msg (i + 1)) \<and> (\<exists>out. t = s\<lparr>sv_out := out\<rparr>)"
proof -
  have "\<exists>out. s = s\<lparr>sv_out := out\<rparr>" by (rule exI [of _ "sv_out s"]) simp
  with assms deliver_out show ?thesis
    by (fastforce simp: mgr_send_def bindE_eq_Inr_iff split: if_splits)
qed

lemma out_only_good [simp]:
  "conns_good (s\<lparr>sv_out := out\<rparr>) R = conns_good s R"
  "events_good (s\<lparr>sv_out := out\<rparr>) es = events_good s es"
  by (simp_all add: conns_good_def table_conns_def conn_ok_def events_good_def event_good_def queue_events_def)

section \<open>The invariant\<close>

text \<open>
  Unless the queue has been freed: the semaphore counts the events that have been added and not
  yet asked for, so the manager never finds the queue empty; the event it holds is in the queue.
\<close>

fun pc_good :: "addr list \<Rightarrow> mgr_pc \<Rightarrow> bool" where
  "pc_good es (MgrEvent p) = (\<exists>e\<in>set es. p = Some e)"
| "pc_good es (MgrSend e m i) = (e \<in> set es)"
| "pc_good es _ = True"

definition queue_good :: "chan \<Rightarrow> addr list \<Rightarrow> bool" where
  "queue_good s es \<longleftrightarrow> events_good (ch_srv s) es \<and>
     length es = ch_sem s + length (ch_handled s) + (if ch_mgr s = MgrPeek then 1 else 0) \<and>
     pc_good es (ch_mgr s)"

definition chan_inv :: "chan \<Rightarrow> bool" where
  "chan_inv s \<longleftrightarrow> conns_good (ch_srv s) {a. Some a \<in> set (ch_rcv s)} \<and> length (ch_rcv s) \<le> MAX_CONNS \<and>
     (m_q (sv_mgr (ch_srv s)) = None \<or> (\<exists>es. queue_good s es))"

lemma conns_good_subset: "conns_good s R \<Longrightarrow> Q \<subseteq> R \<Longrightarrow> conns_good s Q"
  by (auto simp: conns_good_def)

lemma pc_good_mono: "pc_good es pc \<Longrightarrow> set es \<subseteq> set fs \<Longrightarrow> pc_good fs pc"
  by (cases pc) auto

lemma conns_create_rep: "conns_create sc 1000 = (Some c, sc') \<Longrightarrow> conns_rep c []"
  by (cases "next_outcome sc"; cases "next_outcome (snd (next_outcome sc))")
    (auto simp: conns_create_def alloc_defs conns_rep_iff split: if_splits)

lemma evqueue_create_rep: "evqueue_create sc 1000 = (Some q, sc') \<Longrightarrow> evq_rep q []"
  by (cases "next_outcome sc"; cases "next_outcome (snd (next_outcome sc))")
    (auto simp: evqueue_create_def alloc_defs evq_rep_iff split: if_splits)

lemma manager_create_rep:
  "manager_create sc = (Some m, sc') \<Longrightarrow> \<exists>c q. m_conns m = Some c \<and> m_q m = Some q \<and> conns_rep c [] \<and> evq_rep q []"
  by (auto simp: manager_create_def Let_def split: prod.splits if_splits option.splits
      dest!: conns_create_rep evqueue_create_rep)

lemma chan_inv_init: "chan_init s \<Longrightarrow> chan_inv s"
proof -
  assume "chan_init s"
  then obtain sc m sc' where mc: "manager_create sc = (Some m, sc')"
    and s: "ch_srv s = \<lparr>sv_conns = [], sv_events = [], sv_mgr = m, sv_script = sc', sv_out = []\<rparr>"
      "ch_sem s = 0" "ch_mgr s = MgrWait" "ch_rcv s = []" "ch_handled s = []"
    by (auto simp: chan_init_def)
  from manager_create_rep [OF mc] have "table_conns (ch_srv s) []" "queue_events (ch_srv s) []"
    by (auto simp: s table_conns_def queue_events_def)
  then show ?thesis
    by (auto simp: chan_inv_def conns_good_def queue_good_def events_good_def s intro!: exI [of _ "[]"])
qed

text \<open>A step leaves the queue as it is, appends one event, or destroys it.\<close>

lemma chan_step_queue:
  assumes cg: "conns_good (ch_srv s) {a. Some a \<in> set (ch_rcv s)}" and len: "length (ch_rcv s) \<le> MAX_CONNS"
    and q: "m_q (sv_mgr (ch_srv s)) = None \<or> queue_good s es"
    and step: "chan_step slack s t"
  shows "conns_good (ch_srv t) {a. Some a \<in> set (ch_rcv t)} \<and> length (ch_rcv t) \<le> MAX_CONNS \<and>
    (m_q (sv_mgr (ch_srv t)) = None \<or>
     m_q (sv_mgr (ch_srv s)) \<noteq> None \<and> (queue_good t es \<or> (\<exists>e. queue_good t (es @ [e]))))"
  using step
proof (cases rule: chan_step.cases)
  case (accepts cs started rs u)
  note k = main_accept_keeps [OF accepts(2) cg, of es]
  have "{a. Some a \<in> set (ch_rcv s)} \<union> {a. Some a \<in> set rs} = {a. Some a \<in> set (ch_rcv s @ rs)}" by auto
  with k have "conns_good u {a. Some a \<in> set (ch_rcv s @ rs)}" by metis
  moreover have "length (ch_rcv s @ rs) \<le> MAX_CONNS" using k len by (cases rs) simp_all
  ultimately show ?thesis using k q accepts(1) by (auto simp: queue_good_def same_queue_def)
next
  case (receives i conn junk r u)
  then have "conn \<in> {a. Some a \<in> set (ch_rcv s)}" by (metis mem_Collect_eq nth_mem)
  note k = receiver_iteration_keeps [OF receives(5) cg this receives(4), of es]
  have "m_q (sv_mgr (ch_srv s)) = None \<or> events_good (ch_srv s) es" using q by (auto simp: queue_good_def)
  from k [OF this] have u: "conns_good u {a. Some a \<in> set (ch_rcv s)}" "m_q (sv_mgr (ch_srv s)) \<noteq> None"
    "events_good u (es @ [length (sv_events (ch_srv s))])" by auto
  with q len show ?thesis unfolding receives(1)
    by (auto simp: queue_good_def intro!: exI [of _ "length (sv_events (ch_srv s))"] intro: pc_good_mono)
next
  case (receiver_ends i conn junk r u)
  then have "conn \<in> {a. Some a \<in> set (ch_rcv s)}" by (metis mem_Collect_eq nth_mem)
  note k = receiver_iteration_keeps [OF receiver_ends(5) cg this receiver_ends(4), of es]
  have sub: "{a. Some a \<in> set ((ch_rcv s)[i := None])} \<subseteq> {a. Some a \<in> set (ch_rcv s)}"
    by (auto dest: subsetD [OF set_update_subset_insert])
  have "m_q (sv_mgr (ch_srv s)) = None \<or> events_good (ch_srv s) es" using q by (auto simp: queue_good_def)
  from k [OF this] q sub len show ?thesis unfolding receiver_ends(1)
    by (auto simp: queue_good_def intro: conns_good_subset)
next
  case mgr_wakes
  with assms show ?thesis by (auto simp: queue_good_def)
next
  case (mgr_peeks ev)
  from mgr_peeks(3) have "m_q (sv_mgr (ch_srv s)) \<noteq> None"
    by (cases "m_q (sv_mgr (ch_srv s))") (auto simp: evqueue_peek_def get_q_def)
  with q have qs: "queue_good s es" by blast
  with mgr_peeks(2) have "es \<noteq> []" "queue_events (ch_srv s) es" by (auto simp: queue_good_def events_good_def)
  with evqueue_peek_rep [OF this(2)] mgr_peeks(3) have "ev = Some (last es)" by simp
  with qs mgr_peeks cg len \<open>es \<noteq> []\<close> \<open>m_q _ \<noteq> None\<close> show ?thesis
    by (auto simp: queue_good_def)
next
  case (mgr_dispatches ev pc u)
  note k = mgr_dispatch_keeps [OF mgr_dispatches(3), of "{a. Some a \<in> set (ch_rcv s)}" es]
  with mgr_dispatches q cg len show ?thesis by (auto simp: queue_good_def)
next
  case (mgr_sends ev msg i pc u)
  from mgr_send_keeps [OF mgr_sends(3)] mgr_sends(1,2) q cg len show ?thesis
    by (auto simp: queue_good_def)
qed

lemma chan_inv_step:
  assumes "chan_inv s" and "chan_step slack s t"
  shows "chan_inv t"
proof -
  from assms(1) have cg: "conns_good (ch_srv s) {a. Some a \<in> set (ch_rcv s)}" and len: "length (ch_rcv s) \<le> MAX_CONNS"
    and "\<exists>es. m_q (sv_mgr (ch_srv s)) = None \<or> queue_good s es"
    by (auto simp: chan_inv_def)
  then obtain es where "m_q (sv_mgr (ch_srv s)) = None \<or> queue_good s es" by blast
  from chan_step_queue [OF cg len this assms(2)] show ?thesis by (auto simp: chan_inv_def)
qed

interpretation chan: invariant_system chan_init "chan_step slack" chan_inv
  by unfold_locales (auto intro: chan_inv_init chan_inv_step)

end
