(* ===== verification/Channel_Properties.thy ===== *)
theory Channel_Properties
  imports Channel_Server
begin

text \<open>
  What the threads of the channel server achieve together: the manager always finds an event and
  formats it within its buffer, a broadcast reaches every registered connection once, an event
  that is overtaken by another one is never delivered, and the 25th connection is written
  behind the array of threads.
\<close>

section \<open>A run\<close>

text \<open>
  The first steps of a run in which every allocation succeeds: client 7 connects, and sends
  two messages before the manager is scheduled.
\<close>

definition demo_srv :: "Conn store \<Rightarrow> addr blk \<Rightarrow> nat \<Rightarrow> Event store \<Rightarrow> addr blk \<Rightarrow> nat \<Rightarrow> srv" where
  "demo_srv cs tab n es evs k =
     \<lparr>sv_conns = cs, sv_events = es,
      sv_mgr = \<lparr>m_conns = Some \<lparr>cs_items = tab, cs_size = n, cs_cap = 1000\<rparr>, m_q_idx = 0,
                m_q = Some \<lparr>evq_events = evs, evq_size = k, evq_cap = 1000\<rparr>\<rparr>,
      sv_script = [], sv_out = []\<rparr>"

abbreviation slots_1000 :: "addr blk" where "slots_1000 \<equiv> replicate 1000 None"

definition demo_conn :: Conn where
  "demo_conn = \<lparr>cn_sock = 7, cn_channels = Some \<lparr>chn_items = replicate 100 None, chn_cap = 100, chn_size = 0\<rparr>\<rparr>"

definition demo_ev :: "string \<Rightarrow> int \<Rightarrow> Event" where
  "demo_ev m ch = \<lparr>ev_conn = 0, ev_msg = Some m, ev_channel = ch\<rparr>"

definition srv_0 :: srv where "srv_0 = demo_srv [] slots_1000 0 [] slots_1000 0"
definition srv_1 :: srv where "srv_1 = demo_srv [Some demo_conn] (slots_1000[0 := Some 0]) 1 [] slots_1000 0"
definition srv_2 :: srv where
  "srv_2 = demo_srv [Some demo_conn] (slots_1000[0 := Some 0]) 1 [Some (demo_ev ''hi'' 4)] (slots_1000[0 := Some 0]) 1"
definition srv_3 :: srv where
  "srv_3 = demo_srv [Some demo_conn] (slots_1000[0 := Some 0]) 1
     [Some (demo_ev ''hi'' 4), Some (demo_ev ''yo'' 5)] (slots_1000[0 := Some 0, 1 := Some 1]) 2"

definition demo_chan :: "srv \<Rightarrow> nat \<Rightarrow> mgr_pc \<Rightarrow> ptr list \<Rightarrow> addr list \<Rightarrow> chan" where
  "demo_chan s n pc rs h = \<lparr>ch_srv = s, ch_sem = n, ch_mgr = pc, ch_rcv = rs, ch_handled = h\<rparr>"

lemma demo_init: "chan_init (demo_chan srv_0 0 MgrWait [] [])"
  by (auto simp: chan_init_def demo_chan_def srv_0_def demo_srv_def manager_create_def evqueue_create_def
      conns_create_def alloc_defs
      intro!: exI [of _ "[]"])

lemma demo_accept: "main_accept 7 True 0 srv_0 = Inr ([Some 0], srv_1)"
  by (simp add: main_accept_def conns_add_def conns_grow_def get_conns_def srv_0_def srv_1_def demo_srv_def
      conn_create_def halloc_def live_count_def channels_create_def alloc_defs put_conns_def
      demo_conn_def receiver_ctx_create_def MAX_CONNS_def size_add_def)

definition demo_junk :: "char list" where "demo_junk = replicate CH_BUF_SIZE NUL"

lemma demo_buffer: "length d < CH_BUF_SIZE \<Longrightarrow>
    (buf_write demo_junk d)[length d := NUL] = d @ NUL # replicate (CH_BUF_SIZE - length d - 1) NUL"
  by (cases "CH_BUF_SIZE - length d") (auto simp: buf_write_def demo_junk_def list_update_append)

lemma demo_add:
  assumes "queue_events s es" and "m_q (sv_mgr s) = Some q" and "length es < evq_cap q" and "sv_script s = []"
    and "live_count (sv_events s) + 1 < SIZE_MOD"
    and "0 < n" and "int n \<le> INT_MAX" and "NUL \<notin> set body" and "length body \<le> 1000"
    and "n < 10"
  shows "evqueue_add conn ((buf_write demo_junk (dec n @ SPACE # body))[length (dec n @ SPACE # body) := NUL]) s =
     Inr (0, put_q (Some (q\<lparr>evq_events := (evq_events q)[length es := Some (length (sv_events s))], evq_size := Suc (length es)\<rparr>))
       (s\<lparr>sv_events := sv_events s @ [Some \<lparr>ev_conn = conn, ev_msg = Some body, ev_channel = int n\<rparr>]\<rparr>))"
proof -
  have ld: "length (dec n) = 1" using assms(10) by (simp add: dec.simps)
  let ?r = "replicate (CH_BUF_SIZE - length (dec n @ SPACE # body) - 1) NUL"
  have "length (dec n @ SPACE # body) < CH_BUF_SIZE" using assms ld by (simp add: CH_BUF_SIZE_def)
  note buf = demo_buffer [OF this]
  have "length (dec n @ SPACE # body @ NUL # ?r) \<le> CH_BUF_SIZE" using assms ld by (simp add: CH_BUF_SIZE_def)
  note parse = parse_message_dec [OF assms(6-8) this]
  from assms(1,2) have rep: "evq_rep q es" by (auto simp: queue_events_def)
  with assms(3) have "evq_size q = length es" "length es < length (evq_events q)" "Suc (length es) < SIZE_MOD"
    using evq_rep_size [OF rep] by (auto simp: evq_rep_iff)
  moreover have nop: "s\<lparr>sv_events := E, sv_script := []\<rparr> = s\<lparr>sv_events := E\<rparr>" "s\<lparr>sv_script := []\<rparr> = s" for E
    using assms(4) by (cases s, simp)+
  ultimately show ?thesis using assms(2-5) buf parse
    by (simp add: evqueue_add_def evq_grow_def get_q_def event_create_def halloc_ok c_strdup_def size_add_small nop)
qed

lemma demo_queue_0: "queue_events srv_1 []"
  and demo_queue_1: "queue_events srv_2 [0]"
  and demo_queue_2: "queue_events srv_3 [0, 1]"
  by (auto simp: queue_events_def srv_1_def srv_2_def srv_3_def demo_srv_def evq_rep_iff holds_iff is_live_def
      PTR_SIZE_def PTRDIFF_MAX_def nth_list_update less_Suc_eq)

lemma demo_receive_1: "receiver_iteration 0 demo_junk (RxData ''4 hi'') srv_1 = Inr (True, srv_2)"
proof -
  have d: "''4 hi'' = dec 4 @ SPACE # ''hi''" by (simp add: dec.simps char_of_def bit_0)
  have "evqueue_add 0 ((buf_write demo_junk ''4 hi'')[length ''4 hi'' := NUL]) srv_1 = Inr (0, srv_2)"
    unfolding d by (subst demo_add [OF demo_queue_0, where q = "\<lparr>evq_events = slots_1000, evq_size = 0, evq_cap = 1000\<rparr>"])
      (simp_all add: srv_1_def srv_2_def demo_srv_def put_q_def demo_ev_def live_count_def SIZE_MOD_def INT_MAX_def)
  moreover have "hload (sv_conns srv_1) (Some 0) = Inr demo_conn"
    by (simp add: srv_1_def demo_srv_def hload_def)
  ultimately show ?thesis by (simp add: receiver_iteration_def CH_BUF_SIZE_def)
qed

lemma demo_receive_2: "receiver_iteration 0 demo_junk (RxData ''5 yo'') srv_2 = Inr (True, srv_3)"
proof -
  have d: "''5 yo'' = dec 5 @ SPACE # ''yo''" by (simp add: dec.simps char_of_def bit_0)
  have "evqueue_add 0 ((buf_write demo_junk ''5 yo'')[length ''5 yo'' := NUL]) srv_2 = Inr (0, srv_3)"
    unfolding d by (subst demo_add [OF demo_queue_1, where q = "\<lparr>evq_events = slots_1000[0 := Some 0], evq_size = 1, evq_cap = 1000\<rparr>"])
      (simp_all add: srv_3_def srv_2_def demo_srv_def put_q_def demo_ev_def live_count_def SIZE_MOD_def INT_MAX_def)
  moreover have "hload (sv_conns srv_2) (Some 0) = Inr demo_conn"
    by (simp add: srv_2_def demo_srv_def hload_def)
  ultimately show ?thesis by (simp add: receiver_iteration_def CH_BUF_SIZE_def)
qed

lemma demo_reach:
  "reach chan_init (chan_step slack) (demo_chan srv_1 0 MgrWait [Some 0] [])"
  "reach chan_init (chan_step slack) (demo_chan srv_2 1 MgrWait [Some 0] [])"
  "reach chan_init (chan_step slack) (demo_chan srv_3 2 MgrWait [Some 0] [])"
proof -
  have "chan_step slack (demo_chan srv_0 0 MgrWait [] []) (demo_chan srv_1 0 MgrWait [Some 0] [])"
    using accepts [of 7 True "demo_chan srv_0 0 MgrWait [] []" "[Some 0]" srv_1 slack]
    by (simp add: demo_chan_def demo_accept)
  with reach_init [of chan_init, OF demo_init] show
    1: "reach chan_init (chan_step slack) (demo_chan srv_1 0 MgrWait [Some 0] [])" by (rule reach_step)
  have junk: "length demo_junk = CH_BUF_SIZE" by (simp add: demo_junk_def)
  have "chan_step slack (demo_chan srv_1 0 MgrWait [Some 0] []) (demo_chan srv_2 1 MgrWait [Some 0] [])"
    using receives [OF _ _ junk, of 0 "demo_chan srv_1 0 MgrWait [Some 0] []" 0 "RxData ''4 hi''" srv_2 slack]
    by (simp add: demo_chan_def demo_receive_1)
  with 1 show 2: "reach chan_init (chan_step slack) (demo_chan srv_2 1 MgrWait [Some 0] [])" by (rule reach_step)
  have "chan_step slack (demo_chan srv_2 1 MgrWait [Some 0] []) (demo_chan srv_3 2 MgrWait [Some 0] [])"
    using receives [OF _ _ junk, of 0 "demo_chan srv_2 1 MgrWait [Some 0] []" 0 "RxData ''5 yo''" srv_3 slack]
    by (simp add: demo_chan_def demo_receive_2 numeral_2_eq_2)
  with 2 show "reach chan_init (chan_step slack) (demo_chan srv_3 2 MgrWait [Some 0] [])" by (rule reach_step)
qed

lemma demo_manager_wakes:
  "0 < n \<Longrightarrow> chan_step slack (demo_chan s n MgrWait rs h) (demo_chan s (n - 1) MgrPeek rs h)"
  using mgr_wakes [of "demo_chan s n MgrWait rs h" slack] by (simp add: demo_chan_def)

lemma demo_manager_peeks:
  "evqueue_peek s = Inr (Some e) \<Longrightarrow>
     chan_step slack (demo_chan s n MgrPeek rs h) (demo_chan s n (MgrEvent (Some e)) rs (h @ [e]))"
  using mgr_peeks [of "demo_chan s n MgrPeek rs h" "Some e" slack] by (simp add: demo_chan_def)

section \<open>The manager and the queue\<close>

lemma chan_reach_queue:
  assumes "reach chan_init (chan_step slack) s" and "m_q (sv_mgr (ch_srv s)) \<noteq> None"
  obtains es where "queue_good s es" and "queue_events (ch_srv s) es"
  using chan.reach_inv [OF assms(1)] assms(2) by (auto simp: chan_inv_def queue_good_def events_good_def)

text \<open>
  C10: in every reachable state in which the manager has been woken up and the queue has not been
  freed, \<open>queue_peek\<close> returns an event that exists: the semaphore and the queue agree, and the
  \<open>NULL\<close> that \<open>manager_process\<close> does not check for does not occur.
\<close>

theorem manager_finds_event:
  assumes "reach chan_init (chan_step slack) s" and "ch_mgr s = MgrPeek" and "m_q (sv_mgr (ch_srv s)) \<noteq> None"
  shows "\<exists>e. evqueue_peek (ch_srv s) = Inr (Some e) \<and> is_live (sv_events (ch_srv s)) e"
proof -
  from assms(1,3) obtain es where q: "queue_good s es" "queue_events (ch_srv s) es"
    by (rule chan_reach_queue)
  with assms(2) have "es \<noteq> []" by (auto simp: queue_good_def)
  with evqueue_peek_rep [OF q(2)] q(2) show ?thesis by (auto simp: queue_events_def)
qed

theorem manager_finds_event_witness:
  "\<exists>s e. reach chan_init (chan_step (\<lambda>_. 0)) s \<and> ch_mgr s = MgrPeek \<and>
     evqueue_peek (ch_srv s) = Inr (Some e) \<and> is_live (sv_events (ch_srv s)) e"
proof -
  have "chan_step (\<lambda>_. 0) (demo_chan srv_2 1 MgrWait [Some 0] []) (demo_chan srv_2 0 MgrPeek [Some 0] [])"
    using demo_manager_wakes [of 1] by simp
  with demo_reach(2) have r: "reach chan_init (chan_step (\<lambda>_. 0)) (demo_chan srv_2 0 MgrPeek [Some 0] [])"
    by (rule reach_step)
  show ?thesis using r manager_finds_event [OF r]
    by (auto simp: demo_chan_def srv_2_def demo_srv_def)
qed

lemma overtaken_step:
  assumes "chan_inv s" and "queue_good s es \<and> e \<in> set (butlast es) \<or> m_q (sv_mgr (ch_srv s)) = None"
    and "chan_step slack s t"
  shows "chan_inv t \<and> ((\<exists>fs. queue_good t fs \<and> e \<in> set (butlast fs)) \<or> m_q (sv_mgr (ch_srv t)) = None) \<and>
    count_list (ch_handled t) e = count_list (ch_handled s) e"
proof -
  from assms(1) have cg: "conns_good (ch_srv s) {a. Some a \<in> set (ch_rcv s)}" "length (ch_rcv s) \<le> MAX_CONNS"
    by (auto simp: chan_inv_def)
  have "m_q (sv_mgr (ch_srv s)) = None \<or> queue_good s es" using assms(2) by auto
  note k = chan_step_queue [OF cg this assms(3)]
  have grow: "e \<in> set (butlast es) \<Longrightarrow> e \<in> set (butlast (es @ [x]))" for x
    by (auto simp: butlast_append dest: in_set_butlastD)
  have "count_list (ch_handled t) e = count_list (ch_handled s) e"
    using assms(3)
  proof (cases rule: chan_step.cases)
    case (mgr_peeks ev)
    from mgr_peeks(3) have "m_q (sv_mgr (ch_srv s)) \<noteq> None"
      by (cases "m_q (sv_mgr (ch_srv s))") (auto simp: evqueue_peek_def get_q_def)
    with assms(2) have q: "queue_good s es" and e: "e \<in> set (butlast es)" by auto
    then have qe: "queue_events (ch_srv s) es" and ne: "es \<noteq> []" by (auto simp: queue_good_def events_good_def)
    with evqueue_peek_rep [OF qe] mgr_peeks(3) have ev: "ev = Some (last es)" by simp
    have "distinct (butlast es @ [last es])" using qe ne by (simp add: queue_events_def)
    with e have "last es \<noteq> e" by auto
    with mgr_peeks ev show ?thesis by simp
  qed simp_all
  moreover have "(\<exists>fs. queue_good t fs \<and> e \<in> set (butlast fs)) \<or> m_q (sv_mgr (ch_srv t)) = None"
  proof (cases "m_q (sv_mgr (ch_srv t)) = None")
    case False
    with k assms(2) have e: "e \<in> set (butlast es)" and "queue_good t es \<or> (\<exists>x. queue_good t (es @ [x]))" by auto
    then show ?thesis using grow [OF e] by blast
  qed simp
  ultimately show ?thesis using chan_inv_step [OF assms(1,3)] by simp
qed

text \<open>
  C9: an event that is not the newest one any more will never be handed out: from then on, in
  every interleaving, the manager takes it exactly as often as before, because \<open>queue_peek\<close>
  looks at the last element and nothing is ever removed.
\<close>

theorem overtaken_event_is_lost:
  assumes "reach chan_init (chan_step slack) s" and "queue_events (ch_srv s) es" and "e \<in> set (butlast es)"
    and "(chan_step slack)\<^sup>*\<^sup>* s t"
  shows "count_list (ch_handled t) e = count_list (ch_handled s) e"
proof -
  have inv: "chan_inv s" using assms(1) by (rule chan.reach_inv)
  from assms(2) have "m_q (sv_mgr (ch_srv s)) \<noteq> None" by (auto simp: queue_events_def split: option.splits)
  with assms(1) obtain fs where fs: "queue_good s fs" "queue_events (ch_srv s) fs" by (rule chan_reach_queue)
  have "fs = es"
  proof -
    from fs(2) assms(2) obtain q where "evq_rep q fs" "evq_rep q es"
      by (auto simp: queue_events_def split: option.splits)
    then have "length fs = length es" "map Some fs = take (length fs) (evq_events q)"
      "map Some es = take (length es) (evq_events q)"
      by (simp_all add: evq_rep_iff holds_def)
    then have "map Some fs = map Some es" by simp
    then show ?thesis by (simp add: inj_map_eq_map)
  qed
  with fs(1) assms(3) have start: "\<exists>fs. queue_good s fs \<and> e \<in> set (butlast fs)" by blast
  from assms(4) have "chan_inv t \<and> ((\<exists>fs. queue_good t fs \<and> e \<in> set (butlast fs)) \<or> m_q (sv_mgr (ch_srv t)) = None) \<and>
    count_list (ch_handled t) e = count_list (ch_handled s) e"
  proof (induction rule: rtranclp_induct)
    case base
    with inv start show ?case by blast
  next
    case (step u v)
    then obtain fs where "chan_inv u" "queue_good u fs \<and> e \<in> set (butlast fs) \<or> m_q (sv_mgr (ch_srv u)) = None"
      by blast
    from overtaken_step [OF this step(2)] step.IH show ?case by simp
  qed
  then show ?thesis by blast
qed

theorem overtaken_event_is_lost_witness:
  "\<exists>s t. queue_events (ch_srv s) [0, 1] \<and> (chan_step (\<lambda>_. 0))\<^sup>*\<^sup>* s t \<and> ch_handled t = [1] \<and>
     count_list (ch_handled t) 0 = count_list (ch_handled s) 0"
proof -
  let ?s = "demo_chan srv_3 2 MgrWait [Some 0] []" and ?t = "demo_chan srv_3 1 (MgrEvent (Some 1)) [Some 0] [1]"
  have "evqueue_peek srv_3 = Inr (Some 1)" using evqueue_peek_rep [OF demo_queue_2] by simp
  from demo_manager_peeks [OF this, of "\<lambda>_. 0" 1 "[Some 0]" "[]"]
  have "(chan_step (\<lambda>_. 0))\<^sup>*\<^sup>* ?s ?t"
    using demo_manager_wakes [of 2 "\<lambda>_. 0" srv_3 "[Some 0]" "[]"] by simp
  with overtaken_event_is_lost [OF demo_reach(3), of "[0, 1]" 0 "\<lambda>_. 0" ?t] demo_queue_2 show ?thesis
    by (intro exI [of _ ?s] exI [of _ ?t]) (simp add: demo_chan_def)
qed

section \<open>Broadcast and registration\<close>

definition subscribed :: "srv \<Rightarrow> int \<Rightarrow> addr \<Rightarrow> bool" where
  "subscribed s channel a \<longleftrightarrow>
     (case cn_channels (obj (sv_conns s) a) of None \<Rightarrow> False | Some ch \<Rightarrow> channel \<in> set (channels_list ch))"

text \<open>Who gets an event: the subscribers of its channel with another socket than the sender's.\<close>

definition wants :: "srv \<Rightarrow> addr \<Rightarrow> addr \<Rightarrow> bool" where
  "wants s e a \<longleftrightarrow> sock_of s a \<noteq> sock_of s (ev_conn (obj (sv_events s) e)) \<and>
     subscribed s (ev_channel (obj (sv_events s) e)) a"

lemma channel_loop_rep:
  assumes "channels_rep ch xs" and "set js \<subseteq> {0..<length xs}"
  shows "channel_loop ch c js = Inr (\<exists>j\<in>set js. xs ! j = c)"
  using assms(2)
proof (induction js)
  case (Cons j js)
  then have "aread (chn_items ch) j = Inr (xs ! j)"
    using assms(1) unfolding channels_rep_iff by (intro aread_holds) auto
  with Cons show ?case by simp
qed simp

lemma channel_loop_subscribed:
  "channels_rep ch xs \<Longrightarrow> channel_loop ch c [0..<chn_size ch] = Inr (c \<in> set xs)"
proof -
  assume rep: "channels_rep ch xs"
  have "(\<exists>j\<in>set [0..<length xs]. xs ! j = c) = (c \<in> set xs)" by (auto simp: in_set_conv_nth)
  with channel_loop_rep [OF rep, of "[0..<length xs]" c] rep show ?thesis by (simp add: channels_rep_iff)
qed

text \<open>Everything an undisturbed broadcast loop of the event \<open>e\<close> reads is there.\<close>

definition broadcast_ready :: "srv \<Rightarrow> addr \<Rightarrow> addr list \<Rightarrow> bool" where
  "broadcast_ready s e as \<longleftrightarrow> table_conns s as \<and> is_live (sv_events s) e \<and>
     is_live (sv_conns s) (ev_conn (obj (sv_events s) e)) \<and>
     (\<forall>a\<in>set as. cn_channels (obj (sv_conns s) a) \<noteq> None)"

lemma broadcast_ready_out [simp]: "broadcast_ready (s\<lparr>sv_out := out\<rparr>) e as = broadcast_ready s e as"
  by (simp add: broadcast_ready_def table_conns_def conn_ok_def)

lemma wants_out [simp]: "wants (s\<lparr>sv_out := out\<rparr>) e a = wants s e a"
  by (simp add: wants_def subscribed_def sock_of_def)

lemma mgr_send_rep:
  assumes ready: "broadcast_ready s e as"
  shows "i < length as \<Longrightarrow> mgr_send e msg i s = Inr (MgrSend e msg (i + 1),
      if wants s e (as ! i) then s\<lparr>sv_out := sv_out s @ [Send (sock_of s (as ! i)) msg]\<rparr> else s)"
    and "length as \<le> i \<Longrightarrow> mgr_send e msg i s = Inr (MgrWait, s)"
proof -
  from ready have tab: "table_conns s as" by (simp add: broadcast_ready_def)
  then obtain c where c: "get_conns s = Inr c" "conns_rep c as" by (rule table_connsE)
  from conns_rep_size [OF c(2)] have size: "cs_size c = length as" by simp
  show "length as \<le> i \<Longrightarrow> mgr_send e msg i s = Inr (MgrWait, s)"
    using c size by (simp add: mgr_send_def)
  assume i: "i < length as"
  then have a: "conn_ok s (as ! i)" "cn_channels (obj (sv_conns s) (as ! i)) \<noteq> None"
    using ready by (simp_all add: broadcast_ready_def table_conns_def)
  then obtain ch where ch: "cn_channels (obj (sv_conns s) (as ! i)) = Some ch" "channels_rep ch (channels_list ch)"
    "is_live (sv_conns s) (as ! i)"
    by (auto simp: conn_ok_def)
  have "deliver e msg i s = Inr (if wants s e (as ! i) then s\<lparr>sv_out := sv_out s @ [Send (sock_of s (as ! i)) msg]\<rparr> else s)"
    using ready c ch conns_rep_aread [OF c(2) i] channel_loop_subscribed [OF ch(2)]
    by (auto simp: deliver_def wants_def sock_of_def subscribed_def broadcast_ready_def)
  with c size i show "mgr_send e msg i s = Inr (MgrSend e msg (i + 1),
      if wants s e (as ! i) then s\<lparr>sv_out := sv_out s @ [Send (sock_of s (as ! i)) msg]\<rparr> else s)"
    by (simp add: mgr_send_def)
qed

definition deliveries :: "srv \<Rightarrow> addr \<Rightarrow> string \<Rightarrow> addr list \<Rightarrow> io list" where
  "deliveries s e msg as = map (\<lambda>a. Send (sock_of s a) msg) (filter (wants s e) as)"

lemma deliveries_out [simp]: "deliveries (s\<lparr>sv_out := out\<rparr>) e msg as = deliveries s e msg as"
proof -
  have "wants (s\<lparr>sv_out := out\<rparr>) e = wants s e" by (rule ext) simp
  then show ?thesis by (simp add: deliveries_def sock_of_def)
qed

lemma broadcast_run:
  assumes "broadcast_ready (ch_srv s) e as" and "ch_mgr s = MgrSend e msg i" and "i \<le> length as"
  shows "(chan_step slack)\<^sup>*\<^sup>* s (s\<lparr>ch_mgr := MgrWait,
           ch_srv := (ch_srv s)\<lparr>sv_out := sv_out (ch_srv s) @ deliveries (ch_srv s) e msg (drop i as)\<rparr>\<rparr>)"
  using assms
proof (induction "length as - i" arbitrary: i s)
  case 0
  then have i: "length as \<le> i" by simp
  have "chan_step slack s (s\<lparr>ch_mgr := MgrWait, ch_srv := ch_srv s\<rparr>)"
    by (rule mgr_sends [OF 0(3) mgr_send_rep(2) [OF 0(2) i]])
  with i show ?case by (simp add: deliveries_def r_into_rtranclp)
next
  case (Suc k)
  let ?u = "ch_srv s"
  have i: "i < length as" using Suc.hyps(2) by simp
  let ?v = "if wants ?u e (as ! i) then ?u\<lparr>sv_out := sv_out ?u @ [Send (sock_of ?u (as ! i)) msg]\<rparr> else ?u"
  let ?t = "s\<lparr>ch_mgr := MgrSend e msg (i + 1), ch_srv := ?v\<rparr>"
  have step: "chan_step slack s ?t"
    by (rule mgr_sends [OF Suc.prems(2) mgr_send_rep(1) [OF Suc.prems(1) i]])
  have v: "?v = ?u\<lparr>sv_out := sv_out ?u @ deliveries ?u e msg [as ! i]\<rparr>"
    by (simp add: deliveries_def)
  have "drop i as = as ! i # drop (Suc i) as" using i by (simp add: Cons_nth_drop_Suc)
  then have d: "deliveries ?u e msg (drop i as) = deliveries ?u e msg [as ! i] @ deliveries ?u e msg (drop (i + 1) as)"
    by (simp add: deliveries_def)
  have "k = length as - (i + 1)" "i + 1 \<le> length as" using Suc.hyps(2) i by simp_all
  moreover have "broadcast_ready (ch_srv ?t) e as" using Suc.prems(1) v by simp
  ultimately have "(chan_step slack)\<^sup>*\<^sup>* ?t (?t\<lparr>ch_mgr := MgrWait,
      ch_srv := (ch_srv ?t)\<lparr>sv_out := sv_out (ch_srv ?t) @ deliveries (ch_srv ?t) e msg (drop (i + 1) as)\<rparr>\<rparr>)"
    by (intro Suc.hyps(1)) simp_all
  then have "(chan_step slack)\<^sup>*\<^sup>* ?t (s\<lparr>ch_mgr := MgrWait,
      ch_srv := ?u\<lparr>sv_out := sv_out ?u @ deliveries ?u e msg (drop i as)\<rparr>\<rparr>)"
    unfolding v d by simp
  with step show ?case by (rule converse_rtranclp_into_rtranclp)
qed

text \<open>
  C19: when no other thread gets in between, the manager's broadcast loop ends, and it has sent the
  formatted message once to every registered connection that has the event's channel among its
  channels and is not the sender's, in table order, and to nobody else.
\<close>

theorem manager_broadcast_delivers:
  assumes "broadcast_ready (ch_srv s) e as" and "ch_mgr s = MgrSend e msg 0"
  shows "\<exists>t. (chan_step slack)\<^sup>*\<^sup>* s t \<and> ch_mgr t = MgrWait \<and>
    sends (sv_out (ch_srv t)) = sends (sv_out (ch_srv s)) @
      map (\<lambda>a. (sock_of (ch_srv s) a, msg)) (filter (wants (ch_srv s) e) as)"
proof -
  have m: "sends (map (\<lambda>a. Send (f a) msg) xs) = map (\<lambda>a. (f a, msg)) xs" for f :: "addr \<Rightarrow> int" and xs
    by (induction xs) simp_all
  from broadcast_run [OF assms, of slack] show ?thesis
    by (intro exI [of _ "s\<lparr>ch_mgr := MgrWait,
           ch_srv := (ch_srv s)\<lparr>sv_out := sv_out (ch_srv s) @ deliveries (ch_srv s) e msg (drop 0 as)\<rparr>\<rparr>"])
      (simp add: deliveries_def m)
qed

definition demo_sub :: "int \<Rightarrow> int \<Rightarrow> Conn" where
  "demo_sub sock channel =
     \<lparr>cn_sock = sock, cn_channels = Some \<lparr>chn_items = [Some channel], chn_cap = 1, chn_size = 1\<rparr>\<rparr>"

definition demo_crowd :: srv where
  "demo_crowd = (demo_srv [Some (demo_sub 7 4), Some (demo_sub 8 4), Some (demo_sub 9 5)]
     [] 0 [Some (demo_ev ''hi'' 4)] [Some 0] 1)\<lparr>sv_mgr := \<lparr>m_conns =
        Some \<lparr>cs_items = [Some 0, Some 1, Some 2], cs_size = 3, cs_cap = 3\<rparr>, m_q_idx = 0, m_q = None\<rparr>\<rparr>"

lemma slots_single: "slots [Some c] (Suc 0) = [c]"
  by (simp add: slots_def)

theorem manager_broadcast_delivers_witness:
  "\<exists>t. (chan_step (\<lambda>_. 0))\<^sup>*\<^sup>* (demo_chan demo_crowd 0 (MgrSend 0 ''m'' 0) [] [0]) t \<and>
     ch_mgr t = MgrWait \<and> sends (sv_out (ch_srv t)) = [(8, ''m'')]"
proof -
  let ?s = "demo_chan demo_crowd 0 (MgrSend 0 ''m'' 0) [] [0]"
  have ready: "broadcast_ready (ch_srv ?s) 0 [0, 1, 2]"
    by (simp add: broadcast_ready_def table_conns_def conns_rep_iff holds_def conn_ok_def is_live_def obj_def
        demo_chan_def demo_crowd_def demo_srv_def demo_sub_def channels_rep_iff channels_list_def slots_single
        PTR_SIZE_def INT_SIZE_def PTRDIFF_MAX_def demo_ev_def)
  have w: "filter (wants demo_crowd 0) [0, 1, 2] = [1]"
    by (simp add: wants_def subscribed_def sock_of_def obj_def demo_crowd_def demo_srv_def demo_sub_def
        demo_ev_def channels_list_def slots_single)
  have "sock_of demo_crowd 1 = 8" "sv_out demo_crowd = []"
    by (simp_all add: sock_of_def obj_def demo_crowd_def demo_srv_def demo_sub_def)
  with manager_broadcast_delivers [OF ready, of "''m''" "\<lambda>_. 0"] w show ?thesis
    by (simp add: demo_chan_def)
qed

text \<open>
  C26: an event whose text starts with "$reg" is a registration. The manager sends nothing, changes no
  other connection and does not fault. If the array of the connection's channels has room, or
  can be doubled, the channel is added at its end, and the connection is subscribed to it from
  then on; exactly if \<open>realloc\<close> fails the connection is left with freed channels.
\<close>

theorem registration_subscribes:
  assumes "is_live (sv_events s) e" and "obj (sv_events s) e = \<lparr>ev_conn = a, ev_msg = Some (''$reg'' @ m), ev_channel = channel\<rparr>"
    and "conn_ok s a" and "cn_channels (obj (sv_conns s) a) = Some ch"
  shows "\<exists>t. mgr_dispatch slack (Some e) s = Inr (MgrWait, t) \<and> sv_out t = sv_out s \<and> sv_mgr t = sv_mgr s \<and>
    (\<forall>b. b \<noteq> a \<longrightarrow> obj (sv_conns t) b = obj (sv_conns s) b) \<and> sock_of t a = sock_of s a \<and>
    (if chn_size ch < chn_cap ch \<or> fst (next_outcome (sv_script s)) \<and> 2 * chn_cap ch * INT_SIZE \<le> PTRDIFF_MAX
     then (\<exists>ch'. cn_channels (obj (sv_conns t) a) = Some ch' \<and> channels_list ch' = channels_list ch @ [channel]) \<and>
       subscribed t channel a
     else cn_channels (obj (sv_conns t) a) = None)"
proof -
  from assms(3,4) have rep: "channels_rep ch (channels_list ch)" and live: "is_live (sv_conns s) a"
    by (auto simp: conn_ok_def)
  from channels_add_total [OF rep, of "sv_script s" channel] obtain r chp sc where
    add: "channels_add (Some ch, sv_script s) channel = Inr (r, chp, sc)" by blast
  let ?t = "s\<lparr>sv_conns := (sv_conns s)[a := Some ((obj (sv_conns s) a)\<lparr>cn_channels := chp\<rparr>)], sv_script := sc\<rparr>"
  have pr: "event_print (Some e) s = Inr (obj (sv_events s) e, ''$reg'' @ m, obj (sv_conns s) a)"
    using assms(1,2) live by (simp add: event_print_def)
  have "c_strneq (''$reg'' @ m) ''$reg'' 4" by (simp add: c_strneq_def)
  then have "mgr_dispatch slack (Some e) s = Inr (MgrWait, ?t)"
    unfolding mgr_dispatch_def pr using assms(2,4) add live by simp
  moreover have new: "obj (sv_conns ?t) a = (obj (sv_conns s) a)\<lparr>cn_channels := chp\<rparr>"
    using live by (simp add: is_live_less)
  moreover have "obj (sv_conns ?t) b = obj (sv_conns s) b" if "b \<noteq> a" for b
    using that by (simp add: obj_def nth_list_update)
  ultimately show ?thesis using channels_add_result [OF rep add, unfolded channels_grow_ok_def]
    by (intro exI [of _ ?t]) (auto simp: subscribed_def sock_of_def channels_rep_list split: if_splits)
qed

definition demo_reg :: srv where
  "demo_reg = demo_srv [Some (demo_sub 7 4)] [Some 0] 1 [Some (demo_ev (''$reg'' @ '' me'') 9)] [Some 0] 1"

text \<open>The array of the connection is full, and \<open>realloc\<close> succeeds, or fails.\<close>

theorem registration_subscribes_witness:
  "(\<exists>t. mgr_dispatch (\<lambda>_. 0) (Some 0) demo_reg = Inr (MgrWait, t) \<and> sv_out t = [] \<and> subscribed t 9 0) \<and>
   (\<exists>t. mgr_dispatch (\<lambda>_. 0) (Some 0) (demo_reg\<lparr>sv_script := [False]\<rparr>) = Inr (MgrWait, t) \<and>
      cn_channels (obj (sv_conns t) 0) = None)"
proof -
  have "conn_ok demo_reg 0" "conn_ok (demo_reg\<lparr>sv_script := [False]\<rparr>) 0"
    by (simp_all add: conn_ok_def demo_reg_def demo_srv_def demo_sub_def is_live_def obj_def channels_rep_iff channels_list_def
        slots_single holds_def INT_SIZE_def PTRDIFF_MAX_def)
  moreover have "is_live (sv_events demo_reg) 0"
    "obj (sv_events demo_reg) 0 = \<lparr>ev_conn = 0, ev_msg = Some (''$reg'' @ '' me''), ev_channel = 9\<rparr>"
    "cn_channels (obj (sv_conns demo_reg) 0) = Some \<lparr>chn_items = [Some 4], chn_cap = 1, chn_size = 1\<rparr>"
    "sv_out demo_reg = []" "sv_script demo_reg = []"
    by (simp_all add: demo_reg_def demo_srv_def demo_ev_def demo_sub_def is_live_def obj_def)
  ultimately show ?thesis
    using registration_subscribes [of demo_reg 0 0 "'' me''" 9 _ "\<lambda>_. 0"]
      registration_subscribes [of "demo_reg\<lparr>sv_script := [False]\<rparr>" 0 0 "'' me''" 9 _ "\<lambda>_. 0"]
    by (simp add: INT_SIZE_def PTRDIFF_MAX_def) blast
qed

text \<open>
  C20: in every reachable state in which the manager holds an event, as long as neither the queue nor
  the table has been freed, the event exists, and with its text and its connection's channels
  allocated the manager's work up to the broadcast runs without a fault: "[sock] text" fits into
  the 1124 bytes of \<open>msg\<close> for every \<open>int\<close> socket, with no padding behind the array.
\<close>

theorem manager_dispatch_safe:
  assumes "reach chan_init (chan_step slack) s" and "ch_mgr s = MgrEvent p"
    and "m_q (sv_mgr (ch_srv s)) \<noteq> None" and "m_conns (sv_mgr (ch_srv s)) \<noteq> None"
  shows "\<exists>e ev. p = Some e \<and> hload (sv_events (ch_srv s)) p = Inr ev \<and>
    (ev_msg ev \<noteq> None \<and> cn_channels (obj (sv_conns (ch_srv s)) (ev_conn ev)) \<noteq> None \<and>
     sock_of (ch_srv s) (ev_conn ev) \<in> {INT_MIN..INT_MAX} \<longrightarrow> (\<exists>r. mgr_dispatch (\<lambda>_. 0) p (ch_srv s) = Inr r))"
proof -
  let ?u = "ch_srv s"
  from assms(1,3) obtain es where q: "queue_good s es" "queue_events ?u es" by (rule chan_reach_queue)
  with assms(2) obtain e where e: "p = Some e" "e \<in> set es" by (auto simp: queue_good_def)
  with q have live: "is_live (sv_events ?u) e" and good: "event_good ?u e"
    by (auto simp: queue_good_def events_good_def queue_events_def)
  let ?ev = "obj (sv_events ?u) e"
  have ok: "conn_ok ?u (ev_conn ?ev)" using good assms(4) by (simp add: event_good_def)
  have "\<exists>r. mgr_dispatch (\<lambda>_. 0) p ?u = Inr r"
    if m: "ev_msg ?ev = Some m" and ch: "cn_channels (obj (sv_conns ?u) (ev_conn ?ev)) = Some ch"
      and sock: "INT_MIN \<le> sock_of ?u (ev_conn ?ev)" "sock_of ?u (ev_conn ?ev) \<le> INT_MAX" for m ch
  proof -
    have pr: "event_print p ?u = Inr (?ev, m, obj (sv_conns ?u) (ev_conn ?ev))"
      using e live ok m by (simp add: event_print_def conn_ok_def)
    from ok ch have rep: "channels_rep ch (channels_list ch)" by (simp add: conn_ok_def)
    from channels_add_total [OF rep] obtain r chp sc where
      add: "channels_add (Some ch, sv_script ?u) (ev_channel ?ev) = Inr (r, chp, sc)" by blast
    have "length m < CH_BUF_SIZE" using good m by (simp add: event_good_def)
    with dec_int_length [OF sock] have "length (event_text (sock_of ?u (ev_conn ?ev)) m) + 1 \<le> CH_BUF_SIZE + 100"
      by (simp add: event_text_def)
    then show ?thesis
      using pr add ch ok by (simp add: mgr_dispatch_def sprintf_fits_def sock_of_def conn_ok_def)
  qed
  with e live show ?thesis by (intro exI [of _ e] exI [of _ ?ev]) auto
qed

theorem manager_dispatch_safe_witness:
  "\<exists>s r. reach chan_init (chan_step (\<lambda>_. 0)) s \<and> ch_mgr s = MgrEvent (Some 0) \<and>
     mgr_dispatch (\<lambda>_. 0) (Some 0) (ch_srv s) = Inr r"
proof -
  let ?s = "demo_chan srv_2 0 (MgrEvent (Some 0)) [Some 0] [0]"
  have "evqueue_peek srv_2 = Inr (Some 0)" using evqueue_peek_rep [OF demo_queue_1] by simp
  from demo_manager_peeks [OF this, of "\<lambda>_. 0" 0 "[Some 0]" "[]"]
  have p: "chan_step (\<lambda>_. 0) (demo_chan srv_2 0 MgrPeek [Some 0] []) ?s" by simp
  have "chan_step (\<lambda>_. 0) (demo_chan srv_2 1 MgrWait [Some 0] []) (demo_chan srv_2 0 MgrPeek [Some 0] [])"
    using demo_manager_wakes [of 1] by simp
  with demo_reach(2) have "reach chan_init (chan_step (\<lambda>_. 0)) (demo_chan srv_2 0 MgrPeek [Some 0] [])"
    by (rule reach_step)
  then have r: "reach chan_init (chan_step (\<lambda>_. 0)) ?s" using p by (rule reach_step)
  from manager_dispatch_safe [OF r, of "Some 0"] have "\<exists>r. mgr_dispatch (\<lambda>_. 0) (Some 0) srv_2 = Inr r"
    by (auto simp: demo_chan_def srv_2_def demo_srv_def hload_def demo_ev_def demo_conn_def sock_of_def obj_def
        INT_MIN_def INT_MAX_def)
  with r show ?thesis by (intro exI [of _ ?s]) (simp add: demo_chan_def)
qed

section \<open>Accepting\<close>

text \<open>
  connections are counted and never discounted: with 24 receivers started, the next connection
  that is accepted with memory available makes \<open>main\<close> hand the address behind \<open>receivers\<close> to
  \<open>pthread_create\<close>, whether or not any receiver is still running.
\<close>

theorem twenty_fifth_connection:
  assumes "cs \<noteq> - 1" and "conns_add cs s = Inr (Some a, u)" and "fst (next_outcome (sv_script u))"
  shows "main_accept cs started 24 s = Inl OutOfBounds"
  using assms by (cases "next_outcome (sv_script u)") (simp add: main_accept_def receiver_ctx_create_def MAX_CONNS_def)

theorem twenty_fifth_connection_witness: "main_accept 9 True 24 two_conns = Inl OutOfBounds"
proof -
  have "\<exists>u. conns_add 9 two_conns = Inr (Some 2, u) \<and> sv_script u = []"
    by (simp add: conns_add_def conns_grow_def get_conns_def two_conns_def conn_create_def halloc_def
      live_count_def channels_create_def alloc_defs put_conns_def)
  then obtain u where "conns_add 9 two_conns = Inr (Some 2, u)" "sv_script u = []" by blast
  with twenty_fifth_connection [of 9 two_conns 2 u True] show ?thesis by simp
qed

end
