(* ===== verification/Timer_Array.thy ===== *)
theory Timer_Array
  imports Interfaces "HOL-Library.Signed_Division"
begin

text \<open>
  \<^verbatim>\<open>game_loops/simple_array_based_timer/main.c\<close>: timers in a growing array. Every tick of the
  game loop fires and removes the timers that have run down and subtracts the elapsed time
  from the others.
\<close>

section \<open>Data\<close>

record timespec =
  tv_sec :: int
  tv_nsec :: int

text \<open>Callback and argument are pointers the program only passes on: they are numbers here.\<close>

record TEvent =
  te_args :: nat
  te_cb :: nat
  te_wait :: timespec
  te_remaining :: timespec

record Arr =
  arr_events :: "addr blk"
  arr_size :: nat
  arr_cap :: nat

record timers =
  tm_events :: "TEvent store"
  tm_arr :: "Arr option"          \<comment> \<open>\<open>None\<close> once it has been freed\<close>
  tm_script :: "bool list"
  tm_fired :: "(nat \<times> nat) list"  \<comment> \<open>the calls \<open>cb (args)\<close> made so far\<close>

definition get_arr :: "timers \<Rightarrow> Arr res" where
  "get_arr s = (case tm_arr s of None \<Rightarrow> Inl UseAfterFree | Some a \<Rightarrow> Inr a)"

section \<open>Time\<close>

text \<open>
  \<open>time_t\<close> and \<open>long\<close> are signed 64-bit integers, whose overflow is undefined; a \<open>size_t\<close> is
  converted to them, and back with \<open>to_size\<close>, modulo \<open>2 ^ 64\<close>.
\<close>

definition LONG_MAX :: int where "LONG_MAX = 2 ^ 63 - 1"

definition long_res :: "int \<Rightarrow> int res" where
  "long_res v = (if - LONG_MAX - 1 \<le> v \<and> v \<le> LONG_MAX then Inr v else Inl RangeError)"

definition to_long :: "nat \<Rightarrow> int" where "to_long n = (if n < 2 ^ 63 then int n else int n - 2 ^ 64)"

definition timer_to_ms :: "timespec \<Rightarrow> nat res" where
  "timer_to_ms t =
     bindE (long_res (tv_sec t * 1000)) (\<lambda>a.
     bindE (long_res (a + tv_nsec t sdiv 1000000)) (\<lambda>v. Inr (to_size v)))"

definition subtract_ms_from_timer :: "timespec \<Rightarrow> nat \<Rightarrow> timespec res" where
  "subtract_ms_from_timer t ms =
     bindE (timer_to_ms t) (\<lambda>remaining_ms.
     let remaining_ms = (if ms > remaining_ms then 0 else remaining_ms - ms);
         remaining_sec = remaining_ms div 1000;
         remaining_nsec = size_mul (remaining_ms mod 1000) 1000000
     in Inr (t\<lparr>tv_sec := to_long remaining_sec, tv_nsec := to_long remaining_nsec\<rparr>))"

section \<open>The array\<close>

definition tev_create :: "nat \<Rightarrow> nat \<Rightarrow> nat \<Rightarrow> timers \<Rightarrow> ptr \<times> timers" where
  "tev_create cb args wait_time_seconds s =
     (let w = \<lparr>tv_sec = to_long wait_time_seconds, tv_nsec = 0\<rparr>;
          (e, h, sc) = halloc (tm_script s) (tm_events s)
            \<lparr>te_args = args, te_cb = cb, te_wait = w, te_remaining = w\<rparr>
      in (e, s\<lparr>tm_events := h, tm_script := sc\<rparr>))"

definition tev_free :: "ptr \<Rightarrow> timers \<Rightarrow> timers res" where
  "tev_free e s = bindE (hfree (tm_events s) e) (\<lambda>h. Inr (s\<lparr>tm_events := h\<rparr>))"

definition tev_exec_cb :: "ptr \<Rightarrow> timers \<Rightarrow> timers res" where
  "tev_exec_cb e s =
     bindE (hload (tm_events s) e) (\<lambda>ev. Inr (s\<lparr>tm_fired := tm_fired s @ [(te_cb ev, te_args ev)]\<rparr>))"

definition arr_create :: "bool list \<Rightarrow> nat \<Rightarrow> Arr option \<times> bool list" where
  "arr_create sc cap =
     (let (ok, sc) = next_outcome sc
      in if \<not> ok then (None, sc)
         else let (events, sc) = c_malloc_array sc PTR_SIZE (size_mul cap PTR_SIZE)
              in case events of
                   None \<Rightarrow> (None, sc)
                 | Some b \<Rightarrow> (Some \<lparr>arr_events = b, arr_size = 0, arr_cap = cap\<rparr>, sc))"

definition arr_free :: "timers \<Rightarrow> timers res" where
  "arr_free s =
     bindE (get_arr s) (\<lambda>a.
     bindE (foldE (\<lambda>i s. bindE (aread (arr_events a) i) (\<lambda>e. tev_free (Some e) s)) [0..<arr_size a] s) (\<lambda>s.
     Inr (s\<lparr>tm_arr := None\<rparr>)))"

definition arr_grow :: "timers \<Rightarrow> (Arr option \<times> timers) res" where
  "arr_grow s =
     bindE (get_arr s) (\<lambda>a.
     if arr_cap a \<le> arr_size a then
       (let new_cap = size_mul (arr_cap a) 2
        in bindE (c_realloc (tm_script s) PTR_SIZE (arr_events a) (size_mul new_cap PTR_SIZE)) (\<lambda>(r, sc).
           let s = s\<lparr>tm_script := sc\<rparr>
           in case r of
                None \<Rightarrow> bindE (arr_free s) (\<lambda>s. Inr (None, s))
              | Some b \<Rightarrow>
                  (let a = a\<lparr>arr_cap := new_cap, arr_events := b\<rparr>
                   in Inr (Some a, s\<lparr>tm_arr := Some a\<rparr>))))
     else Inr (Some a, s))"

definition arr_add :: "nat \<Rightarrow> nat \<Rightarrow> nat \<Rightarrow> timers \<Rightarrow> (int \<times> timers) res" where
  "arr_add cb args wait_time_seconds s =
     bindE (arr_grow s) (\<lambda>(room, s).
     case room of
       None \<Rightarrow> Inr (- 1, s)
     | Some a \<Rightarrow>
         (let (e, s) = tev_create cb args wait_time_seconds s
          in case e of
               None \<Rightarrow> Inr (- 1, s)
             | Some e \<Rightarrow>
                 bindE (awrite (arr_events a) (arr_size a) e) (\<lambda>b.
                 Inr (0, s\<lparr>tm_arr := Some (a\<lparr>arr_events := b, arr_size := size_add (arr_size a) 1\<rparr>)\<rparr>))))"

definition arr_remove :: "nat \<Rightarrow> timers \<Rightarrow> (int \<times> timers) res" where
  "arr_remove idx s =
     bindE (get_arr s) (\<lambda>a.
     if arr_size a \<le> idx then Inr (- 1, s)
     else bindE (aread (arr_events a) idx) (\<lambda>tmp.
          let n = size_dec (arr_size a)
          in bindE (araw (arr_events a) n) (\<lambda>v.
             bindE (aput (arr_events a) idx v) (\<lambda>b.
             bindE (tev_free (Some tmp) (s\<lparr>tm_arr := Some (a\<lparr>arr_events := b, arr_size := n\<rparr>)\<rparr>)) (\<lambda>s.
             Inr (0, s))))))"

section \<open>The game loop\<close>

text \<open>
  One iteration of the \<open>for\<close> loop over the timers. \<open>None\<close>: the index has reached the size and
  the loop ends. \<open>ms\<close> is the elapsed time, converted from \<open>float\<close> to \<open>size_t\<close> by the call.
\<close>

definition run_down :: "timespec \<Rightarrow> bool" where
  "run_down t \<longleftrightarrow> tv_sec t \<le> 0 \<and> tv_nsec t \<le> 0"

definition tick_body :: "nat \<Rightarrow> nat \<Rightarrow> timers \<Rightarrow> timers option res" where
  "tick_body ms i s =
     bindE (get_arr s) (\<lambda>a.
     if \<not> i < arr_size a then Inr None
     else bindE (aread (arr_events a) i) (\<lambda>e.
          bindE (hload (tm_events s) (Some e)) (\<lambda>ev.
          if run_down (te_remaining ev)
          then bindE (tev_exec_cb (Some e) s) (\<lambda>s. bindE (arr_remove i s) (\<lambda>(_, s). Inr (Some s)))
          else bindE (subtract_ms_from_timer (te_remaining ev) ms) (\<lambda>t.
               bindE (hupd (tm_events s) (Some e) (\<lambda>ev. ev\<lparr>te_remaining := t\<rparr>)) (\<lambda>h.
               Inr (Some (s\<lparr>tm_events := h\<rparr>)))))))"

text \<open>
  The size never grows while the loop runs (callbacks have no access to the array), so the
  indices it can reach are those below the size it starts with.
\<close>

fun tick_loop :: "nat \<Rightarrow> nat list \<Rightarrow> timers \<Rightarrow> timers res" where
  "tick_loop ms [] s = Inr s"
| "tick_loop ms (i # is) s =
     bindE (tick_body ms i s) (\<lambda>r. case r of None \<Rightarrow> Inr s | Some t \<Rightarrow> tick_loop ms is t)"

definition tick :: "nat \<Rightarrow> timers \<Rightarrow> timers res" where
  "tick ms s = bindE (get_arr s) (\<lambda>a. tick_loop ms [0..<arr_size a] s)"

fun game_loop :: "nat list \<Rightarrow> timers \<Rightarrow> timers res" where
  "game_loop [] s = Inr s"
| "game_loop (ms # mss) s = bindE (tick ms s) (game_loop mss)"

text \<open>The start of \<open>main\<close> with \<open>len\<close> values; \<open>None\<close> is the exit after a failed \<open>arr_create\<close>.\<close>

definition timer_start :: "bool list \<Rightarrow> nat \<Rightarrow> timers option res" where
  "timer_start sc len =
     (let (arr, sc) = arr_create sc 10
      in case arr of
           None \<Rightarrow> Inr None
         | Some a \<Rightarrow>
             bindE (foldE (\<lambda>i s. bindE (arr_add 0 i (i mod 3 + 1) s) (\<lambda>(_, s). Inr s)) [0..<len]
                \<lparr>tm_events = [], tm_arr = Some a, tm_script = sc, tm_fired = []\<rparr>) (\<lambda>s. Inr (Some s)))"

section \<open>Representation\<close>

definition arr_rep :: "timers \<Rightarrow> addr list \<Rightarrow> bool" where
  "arr_rep s as \<longleftrightarrow>
     (case tm_arr s of None \<Rightarrow> False | Some a \<Rightarrow>
        arr_size a = length as \<and> block_rep PTR_SIZE (arr_events a) (arr_cap a) as) \<and>
     distinct as \<and> (\<forall>e\<in>set as. is_live (tm_events s) e)"

lemmas arr_rep_iff = arr_rep_def [unfolded block_rep_def]

definition ms_of :: "timespec \<Rightarrow> nat" where
  "ms_of t = nat (tv_sec t * 1000 + tv_nsec t div 1000000)"

text \<open>A normalised time: whole milliseconds, and the total fits into \<open>long\<close>.\<close>

definition time_ok :: "timespec \<Rightarrow> bool" where
  "time_ok t \<longleftrightarrow> 0 \<le> tv_sec t \<and> 0 \<le> tv_nsec t \<and> tv_nsec t < 1000000000 \<and> tv_nsec t mod 1000000 = 0 \<and>
     tv_sec t * 1000 + 999 \<le> LONG_MAX"

lemma timer_to_ms_ok: "time_ok t \<Longrightarrow> timer_to_ms t = Inr (ms_of t)"
proof -
  assume t: "time_ok t"
  then have n: "0 \<le> tv_nsec t div 1000000" "tv_nsec t div 1000000 \<le> 999" by (auto simp: time_ok_def)
  have d: "tv_nsec t sdiv 1000000 = tv_nsec t div 1000000"
    using t by (cases "tv_nsec t = 0") (auto simp: time_ok_def signed_divide_int_def)
  have "tv_sec t * 1000 + tv_nsec t div 1000000 < 2 ^ 64" "0 \<le> tv_sec t * 1000 + tv_nsec t div 1000000"
    using t n by (auto simp: time_ok_def LONG_MAX_def)
  then show ?thesis using t n d
    by (simp add: timer_to_ms_def long_res_def time_ok_def LONG_MAX_def to_size_def ms_of_def)
qed

lemma run_down_ok: "time_ok t \<Longrightarrow> run_down t \<longleftrightarrow> ms_of t = 0"
proof -
  assume t: "time_ok t"
  then have "0 \<le> tv_nsec t" "tv_nsec t mod 1000000 = 0" by (simp_all add: time_ok_def)
  then have "tv_nsec t = 0 \<longleftrightarrow> tv_nsec t div 1000000 \<le> 0" "0 \<le> tv_nsec t div 1000000"
    using div_mult_mod_eq [of "tv_nsec t" 1000000] by auto
  then show ?thesis using t unfolding run_down_def ms_of_def time_ok_def by auto
qed

lemma ms_of_split: "ms_of (t\<lparr>tv_sec := int (k div 1000), tv_nsec := int (k mod 1000 * 1000000)\<rparr>) = k"
proof -
  have "int (k div 1000) * 1000 + int (k mod 1000) = int (k div 1000 * 1000 + k mod 1000)"
    by (simp only: of_nat_add of_nat_mult of_nat_numeral)
  also have "\<dots> = int k" by (simp only: div_mult_mod_eq)
  finally have sum: "int (k div 1000) * 1000 + int (k mod 1000) = int k" .
  have "int (k mod 1000 * 1000000) div 1000000 = int (k mod 1000)" by simp
  then have "nat (int (k div 1000) * 1000 + int (k mod 1000 * 1000000) div 1000000) = k" using sum by simp
  moreover have "tv_sec (t\<lparr>tv_sec := a, tv_nsec := b\<rparr>) = a" "tv_nsec (t\<lparr>tv_sec := a, tv_nsec := b\<rparr>) = b" for a b
    by simp_all
  ultimately show ?thesis unfolding ms_of_def by metis
qed

text \<open>Subtraction saturates at zero and leaves a normalised time.\<close>

lemma subtract_ok:
  assumes "time_ok t"
  shows "\<exists>t'. subtract_ms_from_timer t ms = Inr t' \<and> time_ok t' \<and> ms_of t' = ms_of t - ms"
proof -
  let ?r = "ms_of t - ms"
  let ?t = "t\<lparr>tv_sec := int (?r div 1000), tv_nsec := int (?r mod 1000 * 1000000)\<rparr>"
  have n: "0 \<le> tv_nsec t div 1000000" "tv_nsec t div 1000000 < 1000" "0 \<le> tv_sec t"
    using assms by (auto simp: time_ok_def)
  then have total: "ms_of t = nat (tv_sec t) * 1000 + nat (tv_nsec t div 1000000)"
    by (simp add: ms_of_def nat_add_distrib nat_mult_distrib)
  have "ms_of t div 1000 = nat (tv_sec t)" unfolding total using n by simp
  then have le: "?r div 1000 \<le> nat (tv_sec t)" by (metis diff_le_self div_le_mono)
  with n(3) have le': "int (?r div 1000) \<le> tv_sec t" by linarith
  have sec: "to_long (?r div 1000) = int (?r div 1000)"
    using le' assms by (auto simp: to_long_def time_ok_def LONG_MAX_def)
  have "?r mod 1000 * 1000000 < 1000000000" by simp
  then have nsec: "to_long (size_mul (?r mod 1000) 1000000) = int (?r mod 1000 * 1000000)"
    by (simp add: size_mul_small SIZE_MOD_def to_long_def)
  have r: "(if ms > ms_of t then 0 else ms_of t - ms) = ?r" by simp
  have "subtract_ms_from_timer t ms = Inr ?t"
    using timer_to_ms_ok [OF assms] unfolding subtract_ms_from_timer_def by (simp only: bindE_Inr Let_def r sec nsec)
  moreover have "time_ok ?t" using le' assms by (simp add: time_ok_def)
  moreover have "ms_of ?t = ?r" by (rule ms_of_split)
  ultimately show ?thesis by blast
qed

end
