(* ===== verification/Timer_Loop.thy ===== *)
theory Timer_Loop
  imports Timer_Array "HOL-Library.Word"
begin

text \<open>
  The timer array refines a list of (callback, argument) pairs with the milliseconds they have
  left; what a tick does to that list, and from there what happens to timers over many ticks.
\<close>

section \<open>The abstract timers\<close>

type_synonym timer_item = "(nat \<times> nat) \<times> nat"

definition item :: "timers \<Rightarrow> addr \<Rightarrow> timer_item" where
  "item s e = ((te_cb (obj (tm_events s) e), te_args (obj (tm_events s) e)),
               ms_of (te_remaining (obj (tm_events s) e)))"

definition timers_ok :: "timers \<Rightarrow> addr list \<Rightarrow> bool" where
  "timers_ok s as \<longleftrightarrow> arr_rep s as \<and> (\<forall>e\<in>set as. time_ok (te_remaining (obj (tm_events s) e)))"

text \<open>The same array with its items.\<close>

definition holds_items :: "timers \<Rightarrow> timer_item list \<Rightarrow> bool" where
  "holds_items s xs \<longleftrightarrow> (\<exists>as. timers_ok s as \<and> map (item s) as = xs)"

fun abs_tick :: "nat \<Rightarrow> nat list \<Rightarrow> timer_item list \<Rightarrow> (nat \<times> nat) list \<times> timer_item list" where
  "abs_tick ms [] xs = ([], xs)"
| "abs_tick ms (i # is) xs =
     (if i < length xs then
        if snd (xs ! i) = 0
        then (let (fired, ys) = abs_tick ms is (swap_remove xs i) in (fst (xs ! i) # fired, ys))
        else abs_tick ms is (xs[i := (fst (xs ! i), snd (xs ! i) - ms)])
      else ([], xs))"

section \<open>Refinement of the operations\<close>

lemma map_swap_remove: "xs \<noteq> [] \<Longrightarrow> map f (swap_remove xs k) = swap_remove (map f xs) k"
  by (simp add: swap_remove_def map_update map_butlast last_map)

lemma arr_repE:
  assumes "arr_rep s as"
  obtains a where "tm_arr s = Some a" and "get_arr s = Inr a" and "arr_size a = length as"
    and "arr_cap a = length (arr_events a)" and "holds (arr_events a) as" and "0 < arr_cap a"
    and "arr_cap a * PTR_SIZE \<le> PTRDIFF_MAX" and "distinct as" and "\<forall>e\<in>set as. is_live (tm_events s) e"
  using assms by (auto simp: arr_rep_iff get_arr_def split: option.splits)

lemma removed_not_in: "distinct xs \<Longrightarrow> k < length xs \<Longrightarrow> xs ! k \<notin> set (swap_remove xs k)"
proof -
  assume "distinct xs" and k: "k < length xs"
  then have "count (mset xs) (xs ! k) = 1" by (simp add: distinct_count_atmost_1)
  then have "count (mset (swap_remove xs k)) (xs ! k) = 0" using k by (simp add: mset_swap_remove)
  then show ?thesis by (simp only: count_mset_0_iff not_False_eq_True)
qed

lemma arr_remove_rep:
  assumes rep: "arr_rep s as" and i: "i < length as"
  shows "\<exists>t. arr_remove i s = Inr (0, t) \<and> arr_rep t (swap_remove as i) \<and> tm_fired t = tm_fired s \<and>
    tm_events t = (tm_events s)[as ! i := None]"
  using rep
proof (cases rule: arr_repE)
  case (1 a)
  let ?a = "a\<lparr>arr_events := (arr_events a)[i := arr_events a ! (length as - 1)], arr_size := length as - 1\<rparr>"
  let ?t = "s\<lparr>tm_arr := Some ?a, tm_events := (tm_events s)[as ! i := None]\<rparr>"
  have len: "length as \<le> length (arr_events a)" "length as < SIZE_MOD"
    using holds_length [OF 1(5)] 1(4,7) by (auto simp: size_defs)
  have "size_dec (length as) = length as - 1" using i len(2) by (intro size_dec_pos) auto
  moreover have "aread (arr_events a) i = Inr (as ! i)" using 1(5) i by (rule aread_holds)
  moreover have "is_live (tm_events s) (as ! i)" using 1(9) i by simp
  moreover have "length as - 1 < length (arr_events a)" "i < length (arr_events a)" using i len(1) by auto
  ultimately have "arr_remove i s = Inr (0, ?t)"
    using 1(2,3) i by (simp add: arr_remove_def tev_free_def Let_def)
  moreover have "arr_rep ?t (swap_remove as i)"
  proof -
    have "is_live ((tm_events s)[as ! i := None]) e" if "e \<in> set (swap_remove as i)" for e
      using that 1(9) set_swap_remove [of as i] removed_not_in [OF 1(8) i] by auto
    then show ?thesis
      using 1 i holds_swap_remove [OF 1(5) i] by (simp add: arr_rep_iff distinct_swap_remove)
  qed
  ultimately show ?thesis by (intro exI [of _ ?t]) simp
qed

lemma tick_body_end: "timers_ok s as \<Longrightarrow> length as \<le> i \<Longrightarrow> tick_body ms i s = Inr None"
  by (auto simp: timers_ok_def tick_body_def elim!: arr_repE)

lemma tick_body_fires:
  assumes ok: "timers_ok s as" and i: "i < length as" and down: "snd (item s (as ! i)) = 0"
  shows "\<exists>t. tick_body ms i s = Inr (Some t) \<and> timers_ok t (swap_remove as i) \<and>
    map (item t) (swap_remove as i) = swap_remove (map (item s) as) i \<and>
    tm_fired t = tm_fired s @ [fst (item s (as ! i))]"
proof -
  from ok have rep: "arr_rep s as" by (simp add: timers_ok_def)
  then obtain a where a: "get_arr s = Inr a" "arr_size a = length as" "holds (arr_events a) as"
    "distinct as" "\<forall>e\<in>set as. is_live (tm_events s) e" by (rule arr_repE)
  let ?e = "as ! i"
  let ?u = "s\<lparr>tm_fired := tm_fired s @ [fst (item s ?e)]\<rparr>"
  have "arr_rep ?u as" using rep by (simp add: arr_rep_iff)
  from arr_remove_rep [OF this i] obtain t where t: "arr_remove i ?u = Inr (0, t)"
    "arr_rep t (swap_remove as i)" "tm_fired t = tm_fired ?u" "tm_events t = (tm_events s)[?e := None]" by auto
  have read: "aread (arr_events a) i = Inr ?e" using a(3) i by (rule aread_holds)
  have live: "is_live (tm_events s) ?e" using a(5) i by simp
  have "run_down (te_remaining (obj (tm_events s) ?e))"
    using ok i down by (subst run_down_ok) (auto simp: timers_ok_def item_def)
  then have "tick_body ms i s = Inr (Some t)"
    using a(1,2) read live t(1) i by (simp add: tick_body_def tev_exec_cb_def item_def)
  moreover have same: "obj (tm_events t) e = obj (tm_events s) e" if "e \<in> set (swap_remove as i)" for e
    using removed_not_in [OF a(4) i] that t(4) by (metis obj_update_other)
  then have "map (item t) (swap_remove as i) = map (item s) (swap_remove as i)"
    by (simp add: item_def)
  moreover have "as \<noteq> []" using i by auto
  moreover have "timers_ok t (swap_remove as i)"
    using t(2) ok same set_swap_remove [of as i] by (auto simp: timers_ok_def)
  ultimately show ?thesis using t(3) by (intro exI [of _ t]) (simp add: map_swap_remove)
qed

lemma tick_body_waits:
  assumes ok: "timers_ok s as" and i: "i < length as" and run: "snd (item s (as ! i)) \<noteq> 0"
  shows "\<exists>t. tick_body ms i s = Inr (Some t) \<and> timers_ok t as \<and> tm_fired t = tm_fired s \<and>
    map (item t) as = (map (item s) as)[i := (fst (item s (as ! i)), snd (item s (as ! i)) - ms)]"
proof -
  from ok have rep: "arr_rep s as" by (simp add: timers_ok_def)
  then obtain a where a: "get_arr s = Inr a" "arr_size a = length as" "holds (arr_events a) as"
    "distinct as" "\<forall>e\<in>set as. is_live (tm_events s) e" by (rule arr_repE)
  let ?e = "as ! i"
  let ?r = "te_remaining (obj (tm_events s) ?e)"
  have time: "time_ok ?r" using ok i by (simp add: timers_ok_def)
  from subtract_ok [OF time] obtain r' where r': "subtract_ms_from_timer ?r ms = Inr r'" "time_ok r'"
    "ms_of r' = ms_of ?r - ms" by blast
  let ?t = "s\<lparr>tm_events := (tm_events s)[?e := Some ((obj (tm_events s) ?e)\<lparr>te_remaining := r'\<rparr>)]\<rparr>"
  have read: "aread (arr_events a) i = Inr ?e" using a(3) i by (rule aread_holds)
  have live: "is_live (tm_events s) ?e" using a(5) i by simp
  then have bound: "?e < length (tm_events s)" by (rule is_live_less)
  have "\<not> run_down ?r" using run_down_ok [OF time] run by (simp add: item_def)
  then have "tick_body ms i s = Inr (Some ?t)"
    using a(1,2) read live r'(1) i by (simp add: tick_body_def)
  moreover have "timers_ok ?t as"
    using ok r'(2) bound by (auto simp: timers_ok_def arr_rep_iff obj_update)
  moreover have "map (item ?t) as = (map (item s) as)[i := (fst (item s ?e), snd (item s ?e) - ms)]"
  proof (rule nth_equalityI)
    fix j assume "j < length (map (item ?t) as)"
    then have j: "j < length as" by simp
    show "map (item ?t) as ! j = (map (item s) as)[i := (fst (item s ?e), snd (item s ?e) - ms)] ! j"
    proof (cases "j = i")
      case True
      with i bound r'(3) show ?thesis by (simp add: item_def)
    next
      case False
      with i j a(4) have "?e \<noteq> as ! j" by (simp add: nth_eq_iff_index_eq)
      with False j show ?thesis by (simp add: item_def)
    qed
  qed simp
  ultimately show ?thesis by (intro exI [of _ ?t]) simp
qed

lemma tick_loop_refines:
  assumes "timers_ok s as"
  shows "\<exists>t bs. tick_loop ms is s = Inr t \<and> timers_ok t bs \<and> map (item t) bs = snd (abs_tick ms is (map (item s) as)) \<and>
    tm_fired t = tm_fired s @ fst (abs_tick ms is (map (item s) as))"
  using assms
proof (induction "is" arbitrary: s as)
  case Nil
  then show ?case by auto
next
  case (Cons i "is")
  consider (stop) "length as \<le> i" | (fire) "i < length as" "snd (item s (as ! i)) = 0"
    | (wait) "i < length as" "snd (item s (as ! i)) \<noteq> 0" by fastforce
  then show ?case
  proof cases
    case stop
    with tick_body_end [OF Cons.prems stop] Cons.prems show ?thesis by auto
  next
    case fire
    from tick_body_fires [OF Cons.prems fire] obtain t where
      t: "tick_body ms i s = Inr (Some t)" "timers_ok t (swap_remove as i)"
        "map (item t) (swap_remove as i) = swap_remove (map (item s) as) i"
        "tm_fired t = tm_fired s @ [fst (item s (as ! i))]" by blast
    from Cons.IH [OF t(2)] t fire show ?thesis by (simp add: case_prod_beta)
  next
    case wait
    from tick_body_waits [OF Cons.prems wait] obtain t where
      t: "tick_body ms i s = Inr (Some t)" "timers_ok t as" "tm_fired t = tm_fired s"
        "map (item t) as = (map (item s) as)[i := (fst (item s (as ! i)), snd (item s (as ! i)) - ms)]" by blast
    from Cons.IH [OF t(2)] t wait show ?thesis by simp
  qed
qed

lemma tick_refines:
  assumes "holds_items s xs"
  shows "\<exists>t. tick ms s = Inr t \<and> holds_items t (snd (abs_tick ms [0..<length xs] xs)) \<and>
    tm_fired t = tm_fired s @ fst (abs_tick ms [0..<length xs] xs)"
proof -
  from assms obtain as where as: "timers_ok s as" "map (item s) as = xs" by (auto simp: holds_items_def)
  then have "length xs = length as" by auto
  moreover from as(1) obtain a where "get_arr s = Inr a" "arr_size a = length as"
    unfolding timers_ok_def by (blast elim: arr_repE)
  ultimately show ?thesis
    using tick_loop_refines [OF as(1), of ms "[0..<length as]"] as(2) by (auto simp: tick_def holds_items_def)
qed

text \<open>The game loop is a run of the list of items, whatever the lengths of the ticks are.\<close>

definition act_tick :: "nat \<Rightarrow> timer_item list \<Rightarrow> timer_item list \<times> (nat \<times> nat) list" where
  "act_tick ms xs = prod.swap (abs_tick ms [0..<length xs] xs)"

fun abs_loop :: "nat list \<Rightarrow> timer_item list \<Rightarrow> timer_item list \<times> (nat \<times> nat) list" where
  "abs_loop [] xs = (xs, [])"
| "abs_loop (ms # mss) xs =
     (let (ys, fired) = act_tick ms xs; (zs, fired') = abs_loop mss ys in (zs, fired @ fired'))"

lemma abs_loop_run: "spec_run (\<lambda>_ _. True) act_tick mss xs = Some (abs_loop mss xs)"
  by (induction mss arbitrary: xs) (simp_all add: case_prod_beta Let_def)

interpretation timer_list: simulation "\<lambda>_ _. True" act_tick "\<lambda>ms s t. tick ms s = Inr t" tm_fired "\<lambda>_. holds_items" "\<lambda>_. 0"
  by unfold_locales (use tick_refines in \<open>auto simp: act_tick_def\<close>)

lemma game_loop_along: "steps_along (\<lambda>ms s t. tick ms s = Inr t) mss s t \<longleftrightarrow> game_loop mss s = Inr t"
  by (induction mss arbitrary: s) (auto simp: bindE_eq_Inr_iff)

lemma game_loop_refines:
  assumes "holds_items s xs"
  shows "\<exists>t. game_loop mss s = Inr t \<and> holds_items t (fst (abs_loop mss xs)) \<and>
    tm_fired t = tm_fired s @ snd (abs_loop mss xs)"
  using timer_list.run_simulates [of mss xs "fst (abs_loop mss xs)" "snd (abs_loop mss xs)"] assms
  by (simp add: abs_loop_run game_loop_along)

section \<open>What a tick does\<close>

lemma abs_tick_conserves:
  "mset (map fst xs) = mset (fst (abs_tick ms is xs)) + mset (map fst (snd (abs_tick ms is xs)))"
proof (induction "is" arbitrary: xs)
  case (Cons i "is")
  show ?case
  proof (cases "i < length xs")
    case True
    then have "map fst (swap_remove xs i) = swap_remove (map fst xs) i" by (intro map_swap_remove) auto
    moreover have "fst (xs ! i) \<in># mset (map fst xs)" using True by simp
    ultimately have sw: "mset (map fst xs) = add_mset (fst (xs ! i)) (mset (map fst (swap_remove xs i)))"
      using True mset_swap_remove [of i "map fst xs"] by (simp add: insert_DiffM)
    have "map fst (xs[i := (fst (xs ! i), v)]) = map fst xs" for v
      using True by (metis fst_conv list_update_id map_update nth_map)
    then show ?thesis using True sw Cons.IH [of "swap_remove xs i"] Cons.IH [of "xs[i := (fst (xs ! i), snd (xs ! i) - ms)]"]
      by (simp add: case_prod_beta)
  qed simp
qed simp

lemma drop_swap_remove: "set (drop (Suc i) (swap_remove xs i)) \<subseteq> set (drop i xs)"
proof -
  have "drop (Suc i) (swap_remove xs i) = drop (Suc i) (butlast xs)" by (simp add: swap_remove_def)
  then have "set (drop (Suc i) (swap_remove xs i)) \<subseteq> set (drop (Suc i) xs)"
    by (metis butlast_conv_take drop_take in_set_takeD subsetI)
  then show ?thesis using set_drop_subset_set_drop [of i "Suc i" xs] by auto
qed

lemma abs_tick_not_early:
  "k \<in> set (fst (abs_tick ms [i..<n] xs)) \<Longrightarrow> (k, 0) \<in> set (drop i xs)"
proof (induction "n - i" arbitrary: i xs)
  case (Suc d)
  then have n: "[i..<n] = i # [Suc i..<n]" "d = n - Suc i" by (simp_all add: upt_conv_Cons)
  show ?case
  proof (cases "i < length xs")
    case True
    have at: "xs ! i \<in> set (drop i xs)" using True by (metis Cons_nth_drop_Suc list.set_intros(1))
    have "set (drop (Suc i) xs) \<subseteq> set (drop i xs)" by (simp add: set_drop_subset_set_drop)
    with drop_swap_remove [of i xs] show ?thesis
      using Suc.prems True at Suc.hyps(1) [OF n(2), of "swap_remove xs i"]
        Suc.hyps(1) [OF n(2), of "xs[i := (fst (xs ! i), snd (xs ! i) - ms)]"]
      by (cases "snd (xs ! i) = 0") (auto simp: n(1) case_prod_beta prod_eq_iff, (metis prod.collapse)+)
  next
    case False
    with Suc.prems show ?thesis by (simp add: n(1))
  qed
qed simp

lemma set_swap_remove_subset: "i < length xs \<Longrightarrow> set (swap_remove xs i) \<subseteq> set xs"
  by (cases "xs = []") (auto simp: swap_remove_def dest!: in_set_butlastD subsetD [OF set_update_subset_insert])

text \<open>The rest of a tick leaves the places in front of it alone.\<close>

lemma abs_tick_behind:
  "i < j \<Longrightarrow> i < length xs \<Longrightarrow>
     i < length (snd (abs_tick ms [j..<n] xs)) \<and> snd (abs_tick ms [j..<n] xs) ! i = xs ! i \<and>
     mset (fst (abs_tick ms [j..<n] xs)) \<subseteq># mset (map fst (drop j xs))"
proof (induction "n - j" arbitrary: j xs)
  case (Suc d)
  then have n: "[j..<n] = j # [Suc j..<n]" "d = n - Suc j" by (simp_all add: upt_conv_Cons)
  show ?case
  proof (cases "j < length xs")
    case True
    let ?x = "(fst (xs ! j), snd (xs ! j) - ms)"
    have d: "drop j xs = xs ! j # drop (Suc j) xs" using True by (simp add: Cons_nth_drop_Suc)
    have "drop (Suc j) xs = drop (Suc j) (butlast xs) @ (if Suc j < length xs then [last xs] else [])"
      using True by (cases xs rule: rev_cases) auto
    then have sub: "mset (map fst (drop (Suc j) (swap_remove xs j))) \<subseteq># mset (map fst (drop (Suc j) xs))"
      by (simp add: swap_remove_def)
    have i: "i < length (swap_remove xs j)" "swap_remove xs j ! i = xs ! i"
      using Suc.prems(1) True by (auto simp: swap_remove_def nth_butlast)
    show ?thesis
    proof (cases "snd (xs ! j) = 0")
      case True
      with Suc.hyps(1) [OF n(2) _ i(1)] Suc.prems(1) i(2) sub d \<open>j < length xs\<close> show ?thesis
        by (auto simp: n(1) case_prod_beta intro: subset_mset.trans)
    next
      case False
      with Suc.hyps(1) [OF n(2), of "xs[j := ?x]"] Suc.prems d True show ?thesis
        by (auto simp: n(1) intro: subset_mset.trans)
    qed
  next
    case False
    with Suc.prems show ?thesis by (simp add: n(1))
  qed
qed simp

text \<open>A tick takes at most its length off a timer, and only once.\<close>

lemma abs_tick_ages:
  "(k, v) \<in> set (snd (abs_tick ms [i..<n] xs)) \<Longrightarrow>
     (k, v) \<in> set xs \<or> (\<exists>w. (k, w) \<in> set (drop i xs) \<and> w \<le> v + ms)"
proof (induction "n - i" arbitrary: i xs)
  case (Suc d)
  then have n: "[i..<n] = i # [Suc i..<n]" "d = n - Suc i" by (simp_all add: upt_conv_Cons)
  note IH = Suc.hyps(1) [OF n(2)]
  show ?case
  proof (cases "i < length xs")
    case True
    have at: "xs ! i \<in> set (drop i xs)" using True by (metis Cons_nth_drop_Suc list.set_intros(1))
    show ?thesis
    proof (cases "snd (xs ! i) = 0")
      case fires: True
      with Suc.prems True have "(k, v) \<in> set (snd (abs_tick ms [Suc i..<n] (swap_remove xs i)))"
        by (simp add: n(1) case_prod_beta)
      from IH [OF this] drop_swap_remove [of i xs] set_swap_remove_subset [OF True] show ?thesis by blast
    next
      case False
      let ?x = "(fst (xs ! i), snd (xs ! i) - ms)"
      from False Suc.prems True have "(k, v) \<in> set (snd (abs_tick ms [Suc i..<n] (xs[i := ?x])))"
        by (simp add: n(1))
      from IH [OF this] have "(k, v) \<in> set (xs[i := ?x]) \<or> (\<exists>w. (k, w) \<in> set (drop i xs) \<and> w \<le> v + ms)"
        using set_drop_subset_set_drop [of i "Suc i" xs] by auto
      moreover have "\<exists>w. (k, w) \<in> set (drop i xs) \<and> w \<le> v + ms" if "(k, v) = ?x"
        using at that by (intro exI [of _ "snd (xs ! i)"]) (cases "xs ! i"; simp)
      ultimately show ?thesis by (auto dest!: subsetD [OF set_update_subset_insert])
    qed
  next
    case False
    with Suc.prems show ?thesis by (simp add: n(1))
  qed
qed simp

lemma abs_loop_conserves:
  "mset (map fst xs) = mset (snd (abs_loop mss xs)) + mset (map fst (fst (abs_loop mss xs)))"
proof (induction mss arbitrary: xs)
  case (Cons ms mss)
  from Cons.IH [of "fst (act_tick ms xs)"] abs_tick_conserves [of xs ms "[0..<length xs]"]
  show ?case by (simp add: act_tick_def case_prod_beta Let_def)
qed simp

lemma abs_loop_not_early:
  "k \<in> set (snd (abs_loop mss xs)) \<Longrightarrow> \<exists>w. (k, w) \<in> set xs \<and> w \<le> sum_list (butlast mss)"
proof (induction mss arbitrary: xs)
  case (Cons ms mss)
  let ?ys = "fst (act_tick ms xs)"
  from Cons.prems consider (now) "k \<in> set (snd (act_tick ms xs))" | (later) "k \<in> set (snd (abs_loop mss ?ys))"
    by (auto simp: case_prod_beta Let_def)
  then show ?case
  proof cases
    case now
    with abs_tick_not_early [of k ms 0 "length xs" xs] show ?thesis by (auto simp: act_tick_def)
  next
    case later
    from Cons.IH [OF this] obtain v where v: "(k, v) \<in> set ?ys" "v \<le> sum_list (butlast mss)" by blast
    from abs_tick_ages [of k v ms 0 "length xs" xs] v(1) obtain w where "(k, w) \<in> set xs" "w \<le> v + ms"
      by (auto simp: act_tick_def)
    moreover have "mss \<noteq> []" using later by (cases mss) simp_all
    ultimately show ?thesis using v(2) by (intro exI [of _ w]) simp
  qed
qed simp

section \<open>Adding timers\<close>

text \<open>There is memory for \<open>n\<close> more timers.\<close>

definition timers_roomy :: "nat \<Rightarrow> timers \<Rightarrow> bool" where
  "timers_roomy n s \<longleftrightarrow> tm_script s = [] \<and> live_count (tm_events s) + n < SIZE_MOD - 1 \<and>
     (case tm_arr s of None \<Rightarrow> False
      | Some a \<Rightarrow> 2 * max (arr_cap a) (2 * (arr_size a + n)) * PTR_SIZE \<le> PTRDIFF_MAX)"

definition timers_inv :: "timers \<Rightarrow> bool" where
  "timers_inv s \<longleftrightarrow> (\<exists>as. timers_ok s as)"

definition timer_items :: "timers \<Rightarrow> timer_item list" where
  "timer_items s = (case tm_arr s of None \<Rightarrow> [] | Some a \<Rightarrow> map (item s) (slots (arr_events a) (arr_size a)))"

lemma timer_items_eq: "timers_ok s as \<Longrightarrow> timer_items s = map (item s) as"
  by (auto simp: timer_items_def timers_ok_def slots_holds elim!: arr_repE)

lemma holds_items_iff: "holds_items s xs \<longleftrightarrow> timers_inv s \<and> timer_items s = xs"
  by (auto simp: holds_items_def timers_inv_def timer_items_eq)

text \<open>A new timer: callback, argument, and a wait time in seconds, of at most 32 bits.\<close>

type_synonym new_timer = "(nat \<times> nat) \<times> 32 word"

definition add_timer :: "timers \<Rightarrow> new_timer \<Rightarrow> (int \<times> timers) res" where
  "add_timer s x = arr_add (fst (fst x)) (snd (fst x)) (unat (snd x)) s"

definition timer_of :: "new_timer \<Rightarrow> timer_item" where
  "timer_of x = (fst x, 1000 * unat (snd x))"

lemma arr_grow_ok:
  assumes rep: "arr_rep s as" and roomy: "timers_roomy (Suc n) s"
  shows "\<exists>a. arr_grow s = Inr (Some a, s\<lparr>tm_arr := Some a\<rparr>) \<and> arr_rep (s\<lparr>tm_arr := Some a\<rparr>) as \<and>
    length as < arr_cap a \<and> timers_roomy (Suc n) (s\<lparr>tm_arr := Some a\<rparr>) \<and> arr_size a = length as"
  using rep
proof (cases rule: arr_repE)
  case (1 a)
  show ?thesis
  proof (cases "length as < arr_cap a")
    case True
    then have "arr_grow s = Inr (Some a, s)" using 1 by (simp add: arr_grow_def)
    moreover have nop: "s\<lparr>tm_arr := Some a\<rparr> = s" using 1(1) by (cases s) simp
    ultimately show ?thesis using True 1(3) rep roomy by (intro exI [of _ a]) (simp add: nop)
  next
    case False
    with holds_length [OF 1(5)] 1(4) have full: "length as = length (arr_events a)" by simp
    let ?a = "a\<lparr>arr_events := arr_events a @ replicate (length (arr_events a)) None,
                arr_cap := 2 * length (arr_events a)\<rparr>"
    have b: "arr_events a \<noteq> []" "0 < PTR_SIZE" using 1(4,6) by (auto simp: PTR_SIZE_def)
    have fit: "2 * length (arr_events a) * PTR_SIZE \<le> PTRDIFF_MAX"
      "2 * (2 * (length as + Suc n)) * PTR_SIZE \<le> PTRDIFF_MAX"
      using roomy 1 full by (auto simp: timers_roomy_def PTR_SIZE_def max_def split: if_splits)
    have sc: "tm_script s = []" using roomy by (simp add: timers_roomy_def)
    then have nop: "s\<lparr>tm_script := [], tm_arr := x\<rparr> = s\<lparr>tm_arr := x\<rparr>" for x by (cases s) simp
    have "s\<lparr>tm_arr := x, tm_script := []\<rparr> = s\<lparr>tm_arr := x\<rparr>" for x using sc by (cases s) simp
    then have "arr_grow s = Inr (Some ?a, s\<lparr>tm_arr := Some ?a\<rparr>)"
      using 1 full sc realloc_double [OF b fit(1)] nop by (simp add: arr_grow_def Let_def)
    moreover have "arr_rep (s\<lparr>tm_arr := Some ?a\<rparr>) as"
      using 1 fit b by (auto simp: arr_rep_iff intro: holds_append)
    moreover have "timers_roomy (Suc n) (s\<lparr>tm_arr := Some ?a\<rparr>)"
      using roomy fit full 1 by (auto simp: timers_roomy_def max_def)
    ultimately show ?thesis using full b 1 by (intro exI [of _ ?a]) simp
  qed
qed

lemma arr_add_ok:
  assumes ok: "timers_ok s as" and roomy: "timers_roomy (Suc n) s" and w: "w < 9000000000000000"
  shows "\<exists>t bs. arr_add cb args w s = Inr (0, t) \<and> timers_ok t bs \<and> timers_roomy n t \<and>
    map (item t) bs = map (item s) as @ [((cb, args), 1000 * w)] \<and> tm_fired t = tm_fired s"
proof -
  from ok have rep: "arr_rep s as" by (simp add: timers_ok_def)
  from arr_grow_ok [OF rep roomy] obtain a where
    g: "arr_grow s = Inr (Some a, s\<lparr>tm_arr := Some a\<rparr>)" "arr_rep (s\<lparr>tm_arr := Some a\<rparr>) as"
      "length as < arr_cap a" "timers_roomy (Suc n) (s\<lparr>tm_arr := Some a\<rparr>)" "arr_size a = length as" by blast
  let ?w = "\<lparr>tv_sec = int w, tv_nsec = 0\<rparr>"
  let ?ev = "\<lparr>te_args = args, te_cb = cb, te_wait = ?w, te_remaining = ?w\<rparr>"
  let ?e = "length (tm_events s)"
  let ?a = "a\<lparr>arr_events := (arr_events a)[length as := Some ?e], arr_size := Suc (length as)\<rparr>"
  let ?t = "s\<lparr>tm_events := tm_events s @ [Some ?ev], tm_arr := Some ?a\<rparr>"
  have a: "holds (arr_events a) as" "arr_cap a = length (arr_events a)" "arr_cap a * PTR_SIZE \<le> PTRDIFF_MAX"
    "distinct as" "\<forall>e\<in>set as. is_live (tm_events s) e"
    using g(2) by (auto simp: arr_rep_iff)
  have sc: "tm_script s = []" and lc: "live_count (tm_events s) + 1 < SIZE_MOD"
    using roomy by (auto simp: timers_roomy_def)
  have "Suc (length as) < SIZE_MOD"
    using g(3) a(3) by (simp add: size_defs)
  then have sz: "size_add (length as) 1 = Suc (length as)" by (simp add: size_add_small)
  have long: "to_long w = int w" using w by (simp add: to_long_def)
  have tev: "tev_create cb args w (s\<lparr>tm_arr := Some a\<rparr>) =
      (Some ?e, s\<lparr>tm_arr := Some a, tm_events := tm_events s @ [Some ?ev]\<rparr>)"
    using sc lc long by (cases s) (simp add: tev_create_def halloc_ok Let_def)
  have "arr_add cb args w s = Inr (0, ?t)"
    using g tev sz a by (simp add: arr_add_def)
  moreover have "arr_rep ?t (as @ [?e])"
    using g(2,3) a holds_snoc [OF a(1), of ?e] by (auto simp: arr_rep_iff dest: is_live_less)
  moreover have "time_ok ?w" using w by (simp add: time_ok_def LONG_MAX_def)
  moreover have "map (item ?t) as = map (item s) as" using a(5) by (simp add: item_def)
  moreover have "item ?t ?e = ((cb, args), 1000 * w)" by (simp add: item_def ms_of_def nat_mult_distrib)
  moreover have "timers_roomy n ?t" using g(4,5) by (auto simp: timers_roomy_def)
  moreover have "\<forall>e\<in>set as. obj (tm_events ?t) e = obj (tm_events s) e" using a(5) by simp
  ultimately show ?thesis
    using ok by (intro exI [of _ ?t] exI [of _ "as @ [?e]"]) (auto simp: timers_ok_def)
qed

interpretation timer_array: growing_array timers_inv timer_items timer_of timers_roomy add_timer
proof
  fix s n and x :: new_timer
  assume "timers_inv s" and roomy: "timers_roomy (Suc n) s"
  then obtain as where ok: "timers_ok s as" by (auto simp: timers_inv_def)
  have "unat (snd x) < 9000000000000000" using unsigned_less [of "snd x", where ?'a = nat] by simp
  from arr_add_ok [OF ok roomy this, of "fst (fst x)" "snd (fst x)"] obtain t bs where
    "add_timer s x = Inr (0, t)" "timers_ok t bs" "timers_roomy n t"
    "map (item t) bs = map (item s) as @ [timer_of x]"
    by (auto simp: add_timer_def timer_of_def)
  with ok show "\<exists>t. add_timer s x = Inr (0, t) \<and> timers_inv t \<and> timers_roomy n t \<and>
      timer_items t = timer_items s @ [timer_of x]"
    by (intro exI [of _ t]) (auto simp: timers_inv_def timer_items_eq)
qed

section \<open>Every timer fires\<close>

text \<open>
  The progress of a tick of at least one millisecond: a timer fires, so there are fewer, or every
  timer has been decremented, so the longest remaining time is smaller.
\<close>

lemma abs_tick_bounded:
  "\<forall>x\<in>set xs. snd x \<le> w \<Longrightarrow>
     length (snd (abs_tick ms is xs)) \<le> length xs \<and> (\<forall>y\<in>set (snd (abs_tick ms is xs)). snd y \<le> w)"
proof (induction "is" arbitrary: xs)
  case (Cons i "is")
  have "\<forall>x\<in>set (swap_remove xs i). snd x \<le> w" using Cons.prems set_swap_remove [of xs i] by blast
  moreover have "\<forall>x\<in>set (xs[i := (fst (xs ! i), snd (xs ! i) - ms)]). snd x \<le> w" if "i < length xs"
    using Cons.prems nth_mem [OF that] by (fastforce dest!: subsetD [OF set_update_subset_insert])
  ultimately show ?case
    using Cons.prems Cons.IH [of "swap_remove xs i"] Cons.IH [of "xs[i := (fst (xs ! i), snd (xs ! i) - ms)]"]
    by (auto simp: case_prod_beta)
qed simp

lemma abs_tick_progress:
  assumes "0 < ms" and "\<forall>x\<in>set xs. snd x \<le> w" and "\<forall>j<i. j < length xs \<longrightarrow> snd (xs ! j) \<le> w - 1"
  shows "length (snd (abs_tick ms [i..<length xs] xs)) < length xs \<or>
    (\<forall>y\<in>set (snd (abs_tick ms [i..<length xs] xs)). snd y \<le> w - 1)"
  using assms(2,3)
proof (induction "length xs - i" arbitrary: i xs)
  case 0
  then have "snd x \<le> w - 1" if mem: "x \<in> set xs" for x
  proof -
    obtain j where "j < length xs" "xs ! j = x" using mem unfolding in_set_conv_nth by blast
    with 0 show ?thesis by force
  qed
  with 0 show ?case by simp
next
  case (Suc d)
  then have i: "i < length xs" and up: "[i..<length xs] = i # [Suc i..<length xs]" by (simp_all add: upt_conv_Cons)
  show ?case
  proof (cases "snd (xs ! i) = 0")
    case True
    have "\<forall>x\<in>set (swap_remove xs i). snd x \<le> w" using Suc.prems(1) set_swap_remove [of xs i] by blast
    from abs_tick_bounded [OF this, of ms "[Suc i..<length xs]"]
    have "length (snd (abs_tick ms [Suc i..<length xs] (swap_remove xs i))) < length xs" using i by auto
    then show ?thesis using True i by (simp add: up case_prod_beta)
  next
    case False
    let ?ys = "xs[i := (fst (xs ! i), snd (xs ! i) - ms)]"
    have le: "snd (xs ! i) - ms \<le> w - 1" using Suc.prems(1) nth_mem [OF i] assms(1) by fastforce
    have "\<forall>y\<in>set ?ys. snd y \<le> w"
      using Suc.prems(1) le by (fastforce dest!: subsetD [OF set_update_subset_insert])
    moreover have "\<forall>j<Suc i. j < length ?ys \<longrightarrow> snd (?ys ! j) \<le> w - 1"
      using Suc.prems(2) le i by (auto simp: nth_list_update less_Suc_eq)
    moreover have "d = length ?ys - Suc i" using Suc.hyps(2) by simp
    ultimately have "length (snd (abs_tick ms [Suc i..<length ?ys] ?ys)) < length ?ys \<or>
        (\<forall>y\<in>set (snd (abs_tick ms [Suc i..<length ?ys] ?ys)). snd y \<le> w - 1)"
      by (intro Suc.hyps(1)) auto
    then show ?thesis using False i by (simp add: up)
  qed
qed

lemma abs_tick_decreases:
  assumes "0 < ms" and "xs \<noteq> []" and "\<forall>x\<in>set xs. snd x \<le> w" and "w + length xs \<le> Suc n"
  obtains v where "\<forall>y\<in>set (snd (abs_tick ms [0..<length xs] xs)). snd y \<le> v"
    and "v + length (snd (abs_tick ms [0..<length xs] xs)) \<le> n"
proof (cases w)
  case 0
  then have "snd (xs ! 0) = 0" using assms(2,3) by simp
  moreover have "[0..<length xs] = 0 # [1..<length xs]" using assms(2) by (simp add: upt_conv_Cons)
  moreover have swap: "\<forall>x\<in>set (swap_remove xs 0). snd x \<le> 0"
    using assms(3) 0 set_swap_remove [of xs 0] by blast
  ultimately show thesis
    using that [of 0] assms(2,4) 0 abs_tick_bounded [OF swap, of ms "[1..<length xs]"]
    by (auto simp: case_prod_beta)
next
  case (Suc v)
  from abs_tick_progress [OF assms(1,3), of 0] abs_tick_bounded [OF assms(3), of ms "[0..<length xs]"]
  show thesis using that [of w] that [of v] assms(4) Suc by fastforce
qed

lemma abs_loop_drains:
  assumes "\<forall>ms\<in>set mss. 0 < ms" and "\<forall>x\<in>set xs. snd x \<le> w" and "w + length xs \<le> length mss \<or> xs = []"
  shows "fst (abs_loop mss xs) = []"
  using assms
proof (induction mss arbitrary: xs w)
  case (Cons ms mss)
  let ?ys = "fst (act_tick ms xs)"
  obtain v where "\<forall>y\<in>set ?ys. snd y \<le> v" "v + length ?ys \<le> length mss \<or> ?ys = []"
  proof (cases "xs = []")
    case True
    then show thesis using that [of 0] by (simp add: act_tick_def)
  next
    case False
    with Cons.prems have "0 < ms" "w + length xs \<le> Suc (length mss)" by auto
    from abs_tick_decreases [OF this(1) False Cons.prems(2) this(2)] that show thesis by (auto simp: act_tick_def)
  qed
  with Cons.IH [of ?ys v] Cons.prems(1) show ?case by (simp add: case_prod_beta Let_def)
qed auto

lemma abs_loop_empty: "abs_loop mss [] = ([], [])"
  by (induction mss) (simp_all add: act_tick_def)

lemma abs_loop_single:
  "abs_loop mss [(k, w)] =
     (if mss \<noteq> [] \<and> w \<le> sum_list (butlast mss) then ([], [k]) else ([(k, w - sum_list mss)], []))"
proof (induction mss arbitrary: w)
  case (Cons ms mss)
  have "act_tick ms [(k, w)] = (if w = 0 then ([], [k]) else ([(k, w - ms)], []))"
    by (simp add: act_tick_def swap_remove_def)
  then show ?case using Cons.IH [of "w - ms"] by (auto simp: abs_loop_empty)
qed simp

lemma game_loop_drains:
  assumes "holds_items s xs" and "\<forall>ms\<in>set mss. 0 < ms" and "\<forall>x\<in>set xs. snd x \<le> w"
    and "w + length xs \<le> length mss \<or> xs = []"
  shows "\<exists>t fired. game_loop mss s = Inr t \<and> holds_items t [] \<and> tm_fired t = tm_fired s @ fired \<and>
    mset fired = mset (map fst xs)"
  using game_loop_refines [OF assms(1), of mss] abs_loop_drains [OF assms(2-4)] abs_loop_conserves [of xs mss] by auto

section \<open>Properties\<close>

text \<open>A single tick.\<close>

theorem tick_fires_only_expired:
  assumes "holds_items s xs"
  shows "\<exists>t fired ys. tick ms s = Inr t \<and> holds_items t ys \<and> tm_fired t = tm_fired s @ fired \<and>
    mset (map fst xs) = mset fired + mset (map fst ys) \<and> (\<forall>k\<in>set fired. (k, 0) \<in> set xs)"
proof -
  let ?r = "abs_tick ms [0..<length xs] xs"
  from tick_refines [OF assms, of ms] obtain t where
    "tick ms s = Inr t" "holds_items t (snd ?r)" "tm_fired t = tm_fired s @ fst ?r" by blast
  moreover have "\<forall>k\<in>set (fst ?r). (k, 0) \<in> set xs"
    using abs_tick_not_early [of _ ms 0 "length xs" xs] by auto
  moreover note abs_tick_conserves [of xs ms "[0..<length xs]"]
  ultimately show ?thesis by blast
qed

text \<open>A run with one running and two expired timers in the array.\<close>

definition demo_time :: "int \<Rightarrow> timespec" where "demo_time n = \<lparr>tv_sec = n, tv_nsec = 0\<rparr>"

definition demo_timer :: "nat \<Rightarrow> int \<Rightarrow> TEvent" where
  "demo_timer args n = \<lparr>te_args = args, te_cb = 0, te_wait = demo_time 1, te_remaining = demo_time n\<rparr>"

definition demo_timers :: "int \<Rightarrow> int \<Rightarrow> timers" where
  "demo_timers m n = \<lparr>tm_events = [Some (demo_timer 1 m), Some (demo_timer 2 n)],
     tm_arr = Some \<lparr>arr_events = [Some 0, Some 1, None], arr_size = 2, arr_cap = 3\<rparr>,
     tm_script = [], tm_fired = []\<rparr>"

lemma demo_timers_items:
  assumes "0 \<le> m" and "m < 1000" and "0 \<le> n" and "n < 1000"
  shows "holds_items (demo_timers m n) [((0, 1), nat (m * 1000)), ((0, 2), nat (n * 1000))]"
  unfolding holds_items_def
proof (intro exI conjI)
  show "timers_ok (demo_timers m n) [0, 1]"
    using assms by (simp add: timers_ok_def arr_rep_iff demo_timers_def holds_def is_live_def obj_def
        demo_timer_def demo_time_def time_ok_def LONG_MAX_def PTR_SIZE_def PTRDIFF_MAX_def)
  show "map (item (demo_timers m n)) [0, 1] = [((0, 1), nat (m * 1000)), ((0, 2), nat (n * 1000))]"
    by (simp add: item_def demo_timers_def obj_def demo_timer_def demo_time_def ms_of_def)
qed

theorem tick_fires_only_expired_witness:
  "\<exists>t fired ys. tick 16 (demo_timers 1 0) = Inr t \<and> tm_fired t = fired \<and> holds_items t ys \<and>
     mset [(0, 1), (0, 2)] = mset fired + mset (map fst ys)"
proof -
  have "holds_items (demo_timers 1 0) [((0, 1), 1000), ((0, 2), 0)]" using demo_timers_items [of 1 0] by simp
  from tick_fires_only_expired [OF this, of 16] show ?thesis by (auto simp: demo_timers_def)
qed

text \<open>
  C15: no timer fires early, and none is lost or fires twice, whatever the lengths of the ticks are. The game
  loop on a well-formed array never faults; the timers it started with are those it has fired
  and those that are left, and one that has fired had at most the milliseconds left that the ticks
  before the last one had taken together.
\<close>

theorem loop_fires_only_expired:
  assumes "holds_items s xs"
  shows "\<exists>t fired ys. game_loop mss s = Inr t \<and> holds_items t ys \<and> tm_fired t = tm_fired s @ fired \<and>
    mset (map fst xs) = mset fired + mset (map fst ys) \<and>
    (\<forall>k\<in>set fired. \<exists>w. (k, w) \<in> set xs \<and> w \<le> sum_list (butlast mss))"
  using game_loop_refines [OF assms, of mss] abs_loop_conserves [of xs mss] abs_loop_not_early [of _ mss xs] by blast

theorem loop_fires_only_expired_witness:
  "\<exists>t. game_loop [16, 20, 17] (demo_timers 1 0) = Inr t \<and> (0, 1) \<notin> set (tm_fired t)"
proof -
  have "holds_items (demo_timers 1 0) [((0, 1), 1000), ((0, 2), 0)]" using demo_timers_items [of 1 0] by simp
  from loop_fires_only_expired [OF this, of "[16, 20, 17]"] show ?thesis by (fastforce simp: demo_timers_def)
qed

text \<open>
  C33: in any iteration of a tick that fires an event, the last event of the array takes its place, and
  the loop then goes on behind it: whatever the rest of the tick does, the replacement is still
  at that place with the milliseconds it had, and is not fired, even when it had run down as
  well. \<open>xs\<close> is the array when iteration \<open>i\<close> of a tick over \<open>n\<close> events begins; what the tick fires after
  that comes from behind \<open>i\<close> and does not include the replacement.
\<close>

theorem swapped_in_timer_is_skipped:
  assumes "holds_items s xs" and "i + 1 < length xs" and "length xs \<le> n" and "snd (xs ! i) = 0"
  shows "\<exists>t ys fired. tick_loop ms [i..<n] s = Inr t \<and> holds_items t ys \<and> i < length ys \<and> ys ! i = last xs \<and>
    tm_fired t = tm_fired s @ fst (xs ! i) # fired \<and> mset fired \<subseteq># mset (map fst (drop (i + 1) (butlast xs)))"
proof -
  let ?xs = "swap_remove xs i" and ?r = "abs_tick ms [Suc i..<n] (swap_remove xs i)"
  have n: "[i..<n] = i # [Suc i..<n]" using assms(2,3) by (simp add: upt_conv_Cons)
  from assms(1) obtain as where as: "timers_ok s as" "map (item s) as = xs" by (auto simp: holds_items_def)
  from tick_loop_refines [OF as(1), of ms "[i..<n]"] as(2) assms(2,4) obtain t where
    t: "tick_loop ms [i..<n] s = Inr t" "holds_items t (snd ?r)" "tm_fired t = tm_fired s @ fst (xs ! i) # fst ?r"
    by (auto simp: n holds_items_def case_prod_beta)
  have "?xs ! i = last xs" "i < length ?xs" "drop (Suc i) ?xs = drop (i + 1) (butlast xs)"
    using assms(2) by (auto simp: swap_remove_def nth_butlast)
  with t abs_tick_behind [of i "Suc i" ?xs ms n] show ?thesis by (intro exI [of _ t] exI [of _ "snd ?r"] exI [of _ "fst ?r"]) auto
qed

text \<open>Two events that have run down: the first fires, the last is skipped.\<close>

theorem swapped_in_timer_is_skipped_witness:
  "\<exists>t ys. tick 30 (demo_timers 0 0) = Inr t \<and> holds_items t ys \<and> ys ! 0 = ((0, 2), 0) \<and> tm_fired t = [(0, 1)]"
proof -
  have h: "holds_items (demo_timers 0 0) [((0, 1), 0), ((0, 2), 0)]" using demo_timers_items [of 0 0] by simp
  have "tick 30 (demo_timers 0 0) = tick_loop 30 [0..<2] (demo_timers 0 0)"
    by (simp add: tick_def get_arr_def demo_timers_def)
  with swapped_in_timer_is_skipped [OF h, of 0 2 30] show ?thesis by (auto simp: demo_timers_def)
qed

text \<open>
  C21: a timer that is alone in the array fires exactly once, in the first tick that begins when the
  elapsed milliseconds subtracted so far reach its wait time, for any sequence of tick lengths;
  until then what is left of it is its wait time minus their sum. The loop never faults.
\<close>

theorem single_timer_fires_on_time:
  assumes "timers_ok s []" and "timers_roomy 1 s" and "w < 2 ^ 32"
  shows "\<exists>t u. arr_add cb args w s = Inr (0, t) \<and> game_loop mss t = Inr u \<and>
    (if mss \<noteq> [] \<and> 1000 * w \<le> sum_list (butlast mss)
     then holds_items u [] \<and> tm_fired u = tm_fired s @ [(cb, args)]
     else holds_items u [((cb, args), 1000 * w - sum_list mss)] \<and> tm_fired u = tm_fired s)"
proof -
  from assms(3) have "w < 9000000000000000" by simp
  from arr_add_ok [OF assms(1) _ this, of 0 cb args] assms(2) obtain t bs where
    t: "arr_add cb args w s = Inr (0, t)" "timers_ok t bs" "map (item t) bs = [((cb, args), 1000 * w)]"
      "tm_fired t = tm_fired s" by auto
  from t(2,3) have one: "holds_items t [((cb, args), 1000 * w)]" unfolding holds_items_def by (intro exI [of _ bs] conjI)
  from game_loop_refines [OF one, of mss] t show ?thesis by (auto simp: abs_loop_single split: if_splits)
qed

definition no_timers :: timers where
  "no_timers = \<lparr>tm_events = [], tm_arr = Some \<lparr>arr_events = [None, None], arr_size = 0, arr_cap = 2\<rparr>,
     tm_script = [], tm_fired = []\<rparr>"

lemma no_timers_ok: "timers_ok no_timers []" and no_timers_roomy: "timers_roomy 1 no_timers"
  by (simp_all add: timers_ok_def arr_rep_iff no_timers_def timers_roomy_def live_count_def size_defs)

theorem single_timer_fires_on_time_witness:
  "\<exists>t u. arr_add 0 7 1 no_timers = Inr (0, t) \<and> game_loop [400, 400, 400, 9] t = Inr u \<and> tm_fired u = [(0, 7)]"
  using single_timer_fires_on_time [OF no_timers_ok no_timers_roomy, of 1 0 7 "[400, 400, 400, 9]"]
  by (auto simp: no_timers_def)

text \<open>
  C16: every timer fires, and fires once. If every tick takes at least one millisecond, a loop of as
  many ticks as the longest remaining time has milliseconds, plus one for each timer, empties the
  array; what it has fired is the timers it started with, each once.
\<close>

theorem all_timers_fire:
  assumes "holds_items s xs" and "\<forall>ms\<in>set mss. 0 < ms" and "\<forall>x\<in>set xs. snd x \<le> w"
    and "w + length xs \<le> length mss"
  shows "\<exists>t fired. game_loop mss s = Inr t \<and> holds_items t [] \<and> tm_fired t = tm_fired s @ fired \<and>
    mset fired = mset (map fst xs)"
  using game_loop_drains [OF assms(1-3)] assms(4) by blast

theorem all_timers_fire_witness:
  "\<exists>t fired. game_loop (replicate 1002 16) (demo_timers 1 0) = Inr t \<and> tm_fired t = fired \<and>
     mset fired = mset [(0, 1), (0, 2)]"
proof -
  have "holds_items (demo_timers 1 0) [((0, 1), 1000), ((0, 2), 0)]" using demo_timers_items [of 1 0] by simp
  from all_timers_fire [OF this, of "replicate 1002 16" 1000] show ?thesis by (auto simp: demo_timers_def)
qed

section \<open>The program\<close>

lemma timer_start_holds:
  assumes "len < 2 ^ 32"
  shows "\<exists>s. timer_start [] len = Inr (Some s) \<and> tm_fired s = [] \<and>
    holds_items s (map (\<lambda>i. ((0, i), 1000 * (i mod 3 + 1))) [0..<len])"
proof -
  let ?s = "\<lparr>tm_events = [], tm_arr = Some \<lparr>arr_events = replicate 10 None, arr_size = 0, arr_cap = 10\<rparr>,
     tm_script = [], tm_fired = []\<rparr>"
  let ?item = "\<lambda>i. ((0, i), 1000 * (i mod 3 + 1)) :: timer_item"
  let ?add = "\<lambda>i s. bindE (arr_add 0 i (i mod 3 + 1) s) (\<lambda>(_, s). Inr s)"
  have start: "timers_ok ?s []" "timers_roomy len ?s"
    using assms by (simp_all add: timers_ok_def arr_rep_iff timers_roomy_def live_count_def size_defs)
  have loop: "\<exists>t bs. foldE ?add [k..<k + n] s = Inr t \<and> timers_ok t bs \<and> tm_fired t = tm_fired s \<and>
      map (item t) bs = map (item s) as @ map ?item [k..<k + n]"
    if "timers_ok s as" "timers_roomy n s" for n k s as
    using that
  proof (induction n arbitrary: k s as)
    case (Suc n)
    have "k mod 3 + 1 < 9000000000000000" using mod_less_divisor [of 3 k] by linarith
    from arr_add_ok [OF Suc.prems this, of 0 k] obtain t bs where
      t: "arr_add 0 k (k mod 3 + 1) s = Inr (0, t)" "timers_ok t bs" "timers_roomy n t"
        "map (item t) bs = map (item s) as @ [?item k]" "tm_fired t = tm_fired s" by blast
    from Suc.IH [OF t(2,3), of "Suc k"] obtain u cs where
      "foldE ?add [Suc k..<Suc k + n] t = Inr u" "timers_ok u cs" "tm_fired u = tm_fired t"
      "map (item u) cs = map (item t) bs @ map ?item [Suc k..<Suc k + n]" by blast
    moreover have "[k..<k + Suc n] = k # [Suc k..<Suc k + n]" by (simp add: upt_conv_Cons)
    ultimately show ?case using t by auto
  qed auto
  from loop [OF start, of 0] obtain t bs where t: "foldE ?add [0..<len] ?s = Inr t" "timers_ok t bs"
    "tm_fired t = []" "map (item t) bs = map ?item [0..<len]" by auto
  have "arr_create [] 10 = (Some \<lparr>arr_events = replicate 10 None, arr_size = 0, arr_cap = 10\<rparr>, [])"
    by (simp add: arr_create_def alloc_defs)
  with t(1) have "timer_start [] len = Inr (Some t)" by (simp add: timer_start_def)
  with t show ?thesis by (auto simp: holds_items_def)
qed

text \<open>
  C17: the program from its start: \<open>main\<close> adds one event per value, waiting one, two or three
  seconds in turn. If the allocations succeed and every tick takes at least a millisecond, then after
  3000 ticks and one more per value every event has fired exactly once and the array is empty.
\<close>

theorem main_fires_every_event:
  assumes "len < 2 ^ 32" and "\<forall>ms\<in>set mss. 0 < ms" and "3000 + len \<le> length mss"
  shows "\<exists>s u. timer_start [] len = Inr (Some s) \<and> game_loop mss s = Inr u \<and> holds_items u [] \<and>
    mset (tm_fired u) = mset (map (\<lambda>i. (0, i)) [0..<len])"
proof -
  from timer_start_holds [OF assms(1)] obtain s where s: "timer_start [] len = Inr (Some s)" "tm_fired s = []"
    "holds_items s (map (\<lambda>i. ((0, i), 1000 * (i mod 3 + 1))) [0..<len])" by blast
  have "\<forall>x\<in>set (map (\<lambda>i. ((0, i), 1000 * (i mod 3 + 1))) [0..<len]). snd x \<le> 3000"
  proof (clarsimp)
    fix i :: nat show "i mod 3 \<le> 2" by presburger
  qed
  from game_loop_drains [OF s(3) assms(2) this] assms(3) obtain u fired where
    "game_loop mss s = Inr u" "holds_items u []" "tm_fired u = tm_fired s @ fired"
    "mset fired = mset (map (\<lambda>i. (0, i)) [0..<len])" by (auto simp: comp_def)
  with s show ?thesis by auto
qed

theorem main_fires_every_event_witness:
  "\<exists>s u. timer_start [] 2 = Inr (Some s) \<and> game_loop (replicate 3002 16) s = Inr u \<and>
     mset (tm_fired u) = {#(0, 0), (0, 1)#}"
  using main_fires_every_event [of 2 "replicate 3002 16"] by (auto simp: upt_rec)

end
