(* ===== verification/Relay_Server.thy ===== *)
theory Relay_Server
  imports Interfaces Net_Setup
begin

text \<open>
  \<^verbatim>\<open>networking/client_client_over_server/server.c\<close>: the first message of a connection names its
  channel, later messages go to the other connections of that channel. Worker \<open>i\<close> serves the
  connection in slot \<open>i\<close> of a table that is only ever extended. There is no mutex; the steps
  below are the accesses to the shared table, in any order.
\<close>

section \<open>The table\<close>

record conn_t =
  ct_sock :: int
  ct_channel_id :: nat

record Connections =
  co_items :: "addr blk"
  co_capacity :: nat
  co_len :: nat

text \<open>
  \<open>items[len++] = conn\<close> is two writes, and C does not say which comes first: \<open>main\<close> has the
  connection to register, has stored it and not counted it yet, or has counted it and not stored it.
\<close>

datatype relay_main_pc =
    MAccept                       \<comment> \<open>in the accept loop\<close>
  | MRegister addr                \<comment> \<open>before \<open>items[len++] = conn\<close>\<close>
  | MCount                        \<comment> \<open>the item is stored, \<open>len\<close> is old\<close>
  | MStore addr nat               \<comment> \<open>\<open>len\<close> is new, the slot is not written\<close>

datatype relay_pc =
    RNever                        \<comment> \<open>\<open>pthread_create\<close> returned an error number\<close>
  | RWait                         \<comment> \<open>polling for its connection\<close>
  | RRecv                         \<comment> \<open>in \<open>recv\<close>\<close>
  | RSend int string nat nat      \<comment> \<open>in \<open>channel_broadcast\<close>: socket, message, channel, index\<close>
  | RDone

text \<open>Each message in the trace carries the worker that sent it.\<close>

record relay =
  rl_conns :: "conn_t store"
  rl_tab :: "Connections option"
  rl_script :: "bool list"
  rl_main :: relay_main_pc
  rl_out :: "(nat \<times> io) list"
  rl_workers :: "relay_pc list"
  rl_dead :: bool

definition NWORKERS :: nat where "NWORKERS = 24"
definition RELAY_BUF :: nat where "RELAY_BUF = 1024"

text \<open>\<open>main\<close> does not look at what \<open>create_connections\<close> returns: the table may be a null pointer.\<close>

definition get_tab :: "relay \<Rightarrow> Connections res" where
  "get_tab s = (case rl_tab s of None \<Rightarrow> Inl NullDeref | Some c \<Rightarrow> Inr c)"

definition create_connections :: "bool list \<Rightarrow> nat \<Rightarrow> Connections option \<times> bool list" where
  "create_connections sc capacity =
     (let (ok, sc) = next_outcome sc
      in if \<not> ok then (None, sc)
         else let (items, sc) = c_malloc_array sc PTR_SIZE (size_mul capacity PTR_SIZE)
              in case items of
                   None \<Rightarrow> (None, sc)
                 | Some b \<Rightarrow> (Some \<lparr>co_items = b, co_capacity = capacity, co_len = 0\<rparr>, sc))"

definition conn_destroy :: "ptr \<Rightarrow> relay \<Rightarrow> relay res" where
  "conn_destroy c s = bindE (hfree (rl_conns s) c) (\<lambda>h. Inr (s\<lparr>rl_conns := h\<rparr>))"

definition connections_destroy :: "relay \<Rightarrow> relay res" where
  "connections_destroy s =
     bindE (get_tab s) (\<lambda>c.
     bindE (foldE (\<lambda>i s. bindE (aread (co_items c) i) (\<lambda>a. conn_destroy (Some a) s)) [0..<co_len c] s) (\<lambda>s.
     Inr (s\<lparr>rl_tab := None\<rparr>)))"

text \<open>
  \<open>register_connection\<close> up to the access to the table: the result is \<open>-1\<close>, or the connection that
  goes into the next slot. A connection that is not registered is not freed either.
\<close>

definition register_connection :: "int \<Rightarrow> string \<Rightarrow> relay \<Rightarrow> relay res" where
  "register_connection sock channel_id_str s =
     (let (conn, h, sc) = halloc (rl_script s) (rl_conns s) \<lparr>ct_sock = 0, ct_channel_id = 0\<rparr>;
          s = s\<lparr>rl_conns := h, rl_script := sc\<rparr>
      in case conn of
           None \<Rightarrow> Inr s
         | Some a \<Rightarrow>
             bindE (c_atoi channel_id_str) (\<lambda>channel_id.
             if channel_id = 0 then Inr s
             else bindE (hupd (rl_conns s) (Some a) (\<lambda>_. \<lparr>ct_sock = sock, ct_channel_id = to_size channel_id\<rparr>)) (\<lambda>h.
                  let s = s\<lparr>rl_conns := h\<rparr>
                  in bindE (get_tab s) (\<lambda>c.
                     Inr (if co_len c < co_capacity c then s\<lparr>rl_main := MRegister a\<rparr> else s)))))"

text \<open>The two writes of \<open>items[len++] = conn\<close>.\<close>

definition store_item :: "nat \<Rightarrow> addr \<Rightarrow> relay \<Rightarrow> relay res" where
  "store_item n a s =
     bindE (get_tab s) (\<lambda>c. bindE (awrite (co_items c) n a) (\<lambda>b. Inr (s\<lparr>rl_tab := Some (c\<lparr>co_items := b\<rparr>)\<rparr>)))"

definition count_item :: "relay \<Rightarrow> (nat \<times> relay) res" where
  "count_item s =
     bindE (get_tab s) (\<lambda>c. Inr (co_len c, s\<lparr>rl_tab := Some (c\<lparr>co_len := size_add (co_len c) 1\<rparr>)\<rparr>))"

definition register_item :: "bool \<Rightarrow> relay \<Rightarrow> relay res" where
  "register_item store_first s =
     (case rl_main s of
        MAccept \<Rightarrow> Inr s
      | MRegister a \<Rightarrow>
          if store_first
          then bindE (get_tab s) (\<lambda>c. bindE (store_item (co_len c) a s) (\<lambda>s. Inr (s\<lparr>rl_main := MCount\<rparr>)))
          else bindE (count_item s) (\<lambda>(n, s). Inr (s\<lparr>rl_main := MStore a n\<rparr>))
      | MCount \<Rightarrow> bindE (count_item s) (\<lambda>(_, s). Inr (s\<lparr>rl_main := MAccept\<rparr>))
      | MStore a n \<Rightarrow> bindE (store_item n a s) (\<lambda>s. Inr (s\<lparr>rl_main := MAccept\<rparr>)))"

section \<open>Workers\<close>

text \<open>
  The array is not cleared when it is allocated: the comparison with 0 of a slot that has not
  been written looks at what \<open>malloc\<close> left there, \<open>junk i\<close>. The result says whether the worker
  leaves its loop; otherwise it sleeps.
\<close>

definition worker_poll :: "(nat \<Rightarrow> nat) \<Rightarrow> nat \<Rightarrow> relay \<Rightarrow> bool res" where
  "worker_poll junk i s =
     bindE (get_tab s) (\<lambda>c.
     if i < length (co_items c)
     then Inr (case co_items c ! i of None \<Rightarrow> junk i \<noteq> 0 | Some _ \<Rightarrow> True)
     else Inl OutOfBounds)"

text \<open>What a received message is: \<open>buf[nrecv] = '\0'\<close>, read as a string.\<close>

definition received :: "(nat \<Rightarrow> nat) \<Rightarrow> string \<Rightarrow> string res" where
  "received slack d = bindE (store_nul slack RELAY_BUF (length d)) (\<lambda>_. c_str (d @ [NUL]) 0)"

definition worker_recv :: "(nat \<Rightarrow> nat) \<Rightarrow> nat \<Rightarrow> rx \<Rightarrow> relay \<Rightarrow> relay_pc res" where
  "worker_recv slack i r s =
     bindE (get_tab s) (\<lambda>c.
     bindE (aread (co_items c) i) (\<lambda>a.
     bindE (hload (rl_conns s) (Some a)) (\<lambda>cn.
     case recv_upto RELAY_BUF r of
       RxData d \<Rightarrow> bindE (received slack d) (\<lambda>msg. Inr (RSend (ct_sock cn) msg (ct_channel_id cn) 0))
     | RxEof \<Rightarrow> Inr RDone
     | _ \<Rightarrow> Inr RDone)))"

text \<open>
  An iteration of the loop of \<open>channel_broadcast\<close> in worker \<open>i\<close>, or its end. \<open>send\<close> is called without
  \<open>MSG_NOSIGNAL\<close>: on a connection its peer has broken, \<open>SIGPIPE\<close> ends the process.
\<close>

definition broadcast_step ::
  "bool \<Rightarrow> nat \<Rightarrow> int \<Rightarrow> string \<Rightarrow> nat \<Rightarrow> nat \<Rightarrow> relay \<Rightarrow> (relay_pc \<times> relay) res" where
  "broadcast_step broken i sock msg channel j s =
     bindE (get_tab s) (\<lambda>c.
     if j < co_len c then
       bindE (aread (co_items c) j) (\<lambda>a.
       bindE (hload (rl_conns s) (Some a)) (\<lambda>cn.
       Inr (RSend sock msg channel (j + 1),
            if ct_sock cn \<noteq> sock \<and> ct_channel_id cn = channel
            then s\<lparr>rl_out := rl_out s @ [(i, Send (ct_sock cn) msg)], rl_dead := broken\<rparr> else s)))
     else Inr (RRecv, s))"

section \<open>The main thread\<close>

definition relay_accept :: "(nat \<Rightarrow> nat) \<Rightarrow> int \<Rightarrow> rx \<Rightarrow> relay \<Rightarrow> relay res" where
  "relay_accept slack cs r s =
     (if cs = - 1 then Inr s
      else case recv_upto RELAY_BUF r of
             RxData d \<Rightarrow> bindE (received slack d) (\<lambda>text. register_connection cs text s)
           | _ \<Rightarrow> Inr s)"

definition relay_init :: "relay \<Rightarrow> bool" where
  "relay_init s \<longleftrightarrow> (\<exists>sc. create_connections sc 1000 = (rl_tab s, rl_script s)) \<and>
     rl_conns s = [] \<and> rl_out s = [] \<and> rl_main s = MAccept \<and> \<not> rl_dead s \<and>
     length (rl_workers s) = NWORKERS \<and> set (rl_workers s) \<subseteq> {RWait, RNever}"

inductive relay_step :: "(nat \<Rightarrow> nat) \<Rightarrow> (nat \<Rightarrow> nat) \<Rightarrow> relay \<Rightarrow> relay \<Rightarrow> bool" for slack junk where
  relay_accepts: "\<not> rl_dead s \<Longrightarrow> rl_main s = MAccept \<Longrightarrow> relay_accept slack cs r s = Inr t \<Longrightarrow>
     relay_step slack junk s t"
| relay_registers: "\<not> rl_dead s \<Longrightarrow> register_item store_first s = Inr t \<Longrightarrow> relay_step slack junk s t"
| worker_sleeps: "\<not> rl_dead s \<Longrightarrow> i < length (rl_workers s) \<Longrightarrow> rl_workers s ! i = RWait \<Longrightarrow>
     worker_poll junk i s = Inr False \<Longrightarrow> relay_step slack junk s s"
| worker_finds: "\<not> rl_dead s \<Longrightarrow> i < length (rl_workers s) \<Longrightarrow> rl_workers s ! i = RWait \<Longrightarrow>
     worker_poll junk i s = Inr True \<Longrightarrow>
     relay_step slack junk s (s\<lparr>rl_workers := (rl_workers s)[i := RRecv]\<rparr>)"
| worker_receives: "\<not> rl_dead s \<Longrightarrow> i < length (rl_workers s) \<Longrightarrow> rl_workers s ! i = RRecv \<Longrightarrow>
     worker_recv slack i r s = Inr pc \<Longrightarrow>
     relay_step slack junk s (s\<lparr>rl_workers := (rl_workers s)[i := pc]\<rparr>)"
| worker_sends: "\<not> rl_dead s \<Longrightarrow> i < length (rl_workers s) \<Longrightarrow> rl_workers s ! i = RSend sock msg channel j \<Longrightarrow>
     broadcast_step broken i sock msg channel j s = Inr (pc, t) \<Longrightarrow>
     relay_step slack junk s (t\<lparr>rl_workers := (rl_workers t)[i := pc]\<rparr>)"

text \<open>
  \<open>main\<close> up to the accept loop: \<open>None\<close> is \<open>exit (EXIT_FAILURE)\<close>, otherwise the state and the workers that
  run. The joins behind the endless loop are never reached.
\<close>

definition relay_main :: "bool list \<Rightarrow> (nat \<Rightarrow> int) \<Rightarrow> sys_results \<Rightarrow> (relay \<times> nat list) option" where
  "relay_main sc create ret =
     (let (conns, sc) = create_connections sc 1000
      in if \<not> no_create_failed create NWORKERS then None
         else if \<not> snd (relay_setup ret) then None
         else Some (\<lparr>rl_conns = [], rl_tab = conns, rl_script = sc, rl_main = MAccept, rl_out = [],
                      rl_workers = map (\<lambda>i. if create i = 0 then RWait else RNever) [0..<NWORKERS], rl_dead = False\<rparr>,
                    threads_started create NWORKERS))"

lemma relay_main_init: "relay_main sc create ret = Some (s, ws) \<Longrightarrow> relay_init s"
  by (cases "create_connections sc 1000") (auto simp: relay_main_def relay_init_def split: if_splits)

section \<open>The invariant\<close>

text \<open>How many connections are counted when \<open>n\<close> are stored.\<close>

definition main_good :: "conn_t store \<Rightarrow> nat \<Rightarrow> nat \<Rightarrow> relay_main_pc \<Rightarrow> bool" where
  "main_good h len n pc =
     (case pc of
        MAccept \<Rightarrow> len = n
      | MRegister a \<Rightarrow> len = n \<and> n < 1000 \<and> is_live h a
      | MCount \<Rightarrow> Suc len = n
      | MStore a k \<Rightarrow> len = Suc n \<and> k = n \<and> n < 1000 \<and> is_live h a)"

definition relay_rep :: "relay \<Rightarrow> addr list \<Rightarrow> bool" where
  "relay_rep s as \<longleftrightarrow>
     (case rl_tab s of None \<Rightarrow> False
      | Some c \<Rightarrow> main_good (rl_conns s) (co_len c) (length as) (rl_main s) \<and>
          co_capacity c = 1000 \<and> length (co_items c) = 1000 \<and>
          holds (co_items c) as \<and> (\<forall>i. length as \<le> i \<and> i < 1000 \<longrightarrow> co_items c ! i = None)) \<and>
     (\<forall>a\<in>set as. is_live (rl_conns s) a)"

text \<open>The sockets and channels that are in the table, in the order of registration.\<close>

definition relay_view :: "relay \<Rightarrow> addr list \<Rightarrow> (int \<times> nat) list" where
  "relay_view s as = map (\<lambda>a. (ct_sock (obj (rl_conns s) a), ct_channel_id (obj (rl_conns s) a))) as"

definition counted :: "relay \<Rightarrow> nat" where
  "counted s = (case rl_tab s of None \<Rightarrow> 0 | Some c \<Rightarrow> co_len c)"

text \<open>A broadcasting worker has a connection, sends on its behalf, and has looked at counted slots only.\<close>

definition worker_good :: "(int \<times> nat) list \<Rightarrow> nat \<Rightarrow> nat \<Rightarrow> relay_pc \<Rightarrow> bool" where
  "worker_good vs n i pc =
     (case pc of
        RSend sock msg channel j \<Rightarrow> i < length vs \<and> vs ! i = (sock, channel) \<and> j \<le> length vs \<and> j \<le> n
      | _ \<Rightarrow> True)"

definition relay_good :: "relay \<Rightarrow> addr list \<Rightarrow> bool" where
  "relay_good s as \<longleftrightarrow> relay_rep s as \<and> length (rl_workers s) = NWORKERS \<and>
     (\<forall>i<NWORKERS. worker_good (relay_view s as) (counted s) i (rl_workers s ! i))"

text \<open>Without a table no worker ever gets past its polling loop.\<close>

definition relay_null :: "relay \<Rightarrow> bool" where
  "relay_null s \<longleftrightarrow> rl_tab s = None \<and> rl_main s = MAccept \<and> set (rl_workers s) \<subseteq> {RWait, RNever}"

definition relay_inv :: "relay \<Rightarrow> bool" where
  "relay_inv s \<longleftrightarrow> relay_null s \<or> (\<exists>as. relay_good s as)"

lemma relay_repE:
  assumes "relay_rep s as"
  obtains c where "rl_tab s = Some c" and "get_tab s = Inr c"
    and "main_good (rl_conns s) (co_len c) (length as) (rl_main s)"
    and "co_capacity c = 1000" and "length (co_items c) = 1000" and "holds (co_items c) as"
    and "\<And>i. length as \<le> i \<Longrightarrow> i < 1000 \<Longrightarrow> co_items c ! i = None" and "\<forall>a\<in>set as. is_live (rl_conns s) a"
    and "length as \<le> 1000"
  using assms by (auto simp: relay_rep_def get_tab_def split: option.splits dest: holds_length)

lemma worker_good_mono: "worker_good vs n i pc \<Longrightarrow> n \<le> m \<Longrightarrow> worker_good (vs @ ws) m i pc"
  by (auto simp: worker_good_def nth_append split: relay_pc.splits)

text \<open>\<open>register_connection\<close> has a connection for the next slot, with what the client sent, or leaves the table alone.\<close>

lemma register_cases:
  assumes rep: "relay_rep s as" and main: "rl_main s = MAccept" and ret: "register_connection sock str s = Inr t"
  obtains (registers) a channel where "rl_main t = MRegister a" and "c_atoi str = Inr channel" and "channel \<noteq> 0"
      and "obj (rl_conns t) a = \<lparr>ct_sock = sock, ct_channel_id = to_size channel\<rparr>" and "relay_rep t as"
      and "rl_tab t = rl_tab s" and "rl_workers t = rl_workers s" and "relay_view t as = relay_view s as"
  | (refused) "rl_main t = MAccept" and "relay_rep t as"
      and "rl_tab t = rl_tab s" and "rl_workers t = rl_workers s" and "relay_view t as = relay_view s as"
  using rep
proof (cases rule: relay_repE)
  case (1 c)
  let ?a = "length (rl_conns s)" and ?zero = "\<lparr>ct_sock = 0, ct_channel_id = 0\<rparr>"
  show thesis
  proof (cases rule: halloc_cases [of "rl_script s" "rl_conns s" ?zero])
    case (fail sc)
    with ret have t: "t = s\<lparr>rl_script := sc\<rparr>" by (cases s) (auto simp: register_connection_def)
    with rep main 1(1) show thesis by (intro refused) (auto simp: relay_rep_def relay_view_def)
  next
    case (ok sc)
    have grown: "relay_rep (s\<lparr>rl_conns := rl_conns s @ [Some cn], rl_script := sc\<rparr>) as"
      "relay_view (s\<lparr>rl_conns := rl_conns s @ [Some cn], rl_script := sc\<rparr>) as = relay_view s as" for cn
      using rep main 1(8) by (auto simp: relay_rep_def relay_view_def main_good_def split: option.splits)
    from ret ok obtain channel where ch: "c_atoi str = Inr channel"
      by (auto simp: register_connection_def Let_def bindE_eq_Inr_iff)
    let ?cn = "\<lparr>ct_sock = sock, ct_channel_id = to_size channel\<rparr>"
    let ?t = "\<lambda>cn. s\<lparr>rl_conns := rl_conns s @ [Some cn], rl_script := sc\<rparr>"
    consider "channel = 0" | "channel \<noteq> 0" "length as = 1000" | "channel \<noteq> 0" "length as < 1000" using 1(9) by linarith
    then show thesis
    proof cases
      case 1
      with ret ok ch have "t = ?t ?zero" by (cases s) (simp add: register_connection_def)
      with grown main show thesis by (intro refused) simp_all
    next
      case 2
      with ret ok ch 1 main have "t = ?t ?cn"
        by (cases s) (simp add: register_connection_def get_tab_def Let_def main_good_def)
      with grown main show thesis by (intro refused) simp_all
    next
      case 3
      with ret ok ch 1 main have t: "t = (?t ?cn)\<lparr>rl_main := MRegister ?a\<rparr>"
        by (cases s) (simp add: register_connection_def get_tab_def Let_def main_good_def)
      moreover have "relay_rep t as" using t 1 3 main by (auto simp: relay_rep_def main_good_def)
      ultimately show thesis using grown ch 3 by (intro registers [of ?a channel]) (auto simp: relay_view_def)
    qed
  qed
qed

lemma relay_accept_good:
  assumes good: "relay_good s as" and main: "rl_main s = MAccept" and ret: "relay_accept slack cs r s = Inr t"
  shows "relay_good t as \<and> relay_view t as = relay_view s as \<and> counted t = counted s"
proof (cases "t = s")
  case True
  with good show ?thesis by simp
next
  case False
  with ret obtain d str where "recv_upto RELAY_BUF r = RxData d" "register_connection cs str s = Inr t"
    by (cases "recv_upto RELAY_BUF r") (auto simp: relay_accept_def bindE_eq_Inr_iff split: if_splits)
  with good have "relay_rep s as" "register_connection cs str s = Inr t" by (auto simp: relay_good_def)
  from this(1) main this(2) show ?thesis
    by (cases rule: register_cases) (use good in \<open>auto simp: relay_good_def counted_def\<close>)
qed

text \<open>The two writes, in either order, append the connection.\<close>

lemma register_item_good:
  assumes good: "relay_good s as" and ret: "register_item store_first s = Inr t"
  shows "\<exists>bs. relay_good t (as @ bs) \<and> relay_view t as = relay_view s as \<and> counted s \<le> counted t \<and>
    counted t \<le> Suc (counted s)"
proof -
  from good have rep: "relay_rep s as" by (simp add: relay_good_def)
  then obtain c where c: "rl_tab s = Some c" "get_tab s = Inr c"
    "main_good (rl_conns s) (co_len c) (length as) (rl_main s)" "co_capacity c = 1000" "length (co_items c) = 1000"
    "holds (co_items c) as" "\<And>i. length as \<le> i \<Longrightarrow> i < 1000 \<Longrightarrow> co_items c ! i = None"
    "\<forall>a\<in>set as. is_live (rl_conns s) a" "length as \<le> 1000"
    by (rule relay_repE) blast
  have small: "size_add n 1 = Suc n" if "n < 1000" for n
    using that by (simp add: size_add_small SIZE_MOD_def)
  let ?bs = "case rl_main s of MRegister a \<Rightarrow> if store_first then [a] else [] | MStore a n \<Rightarrow> [a] | _ \<Rightarrow> []"
  have t: "relay_rep t (as @ ?bs)" "rl_workers t = rl_workers s" "rl_conns t = rl_conns s"
    "counted s \<le> counted t" "counted t \<le> Suc (counted s)"
    using ret c small holds_snoc [OF c(6)]
    by (auto simp: register_item_def store_item_def count_item_def relay_rep_def main_good_def counted_def get_tab_def
        bindE_eq_Inr_iff split: relay_main_pc.splits if_splits)
  moreover have "relay_view t bs = relay_view s bs" for bs using t(3) by (simp add: relay_view_def)
  moreover have "relay_view s (as @ ?bs) = relay_view s as @ relay_view s ?bs" by (simp add: relay_view_def)
  ultimately have "relay_good t (as @ ?bs)"
    using good by (auto simp: relay_good_def intro: worker_good_mono)
  with t(4,5) \<open>\<And>bs. relay_view t bs = relay_view s bs\<close> show ?thesis by blast
qed

text \<open>What the poll finds in a slot nobody has written is what was in the memory before.\<close>

lemma relay_poll_uninitialised:
  assumes "relay_rep s as" and "length as \<le> i" and "i < NWORKERS"
  shows "worker_poll junk i s = Inr (junk i \<noteq> 0) \<and> worker_recv slack i r s = Inl Uninitialised"
  using assms by (auto simp: worker_poll_def worker_recv_def aread_def NWORKERS_def elim!: relay_repE)

lemma relay_poll_written:
  assumes "relay_rep s as" and "i < length as"
  shows "worker_poll junk i s = Inr True"
  using assms by (auto simp: worker_poll_def dest: holds_nth elim!: relay_repE)

lemma aread_item:
  assumes "relay_rep s as" and "rl_tab s = Some c" and "aread (co_items c) i = Inr a"
  shows "i < length as" and "a = as ! i" and "is_live (rl_conns s) a"
proof -
  show "i < length as"
    using assms by (cases "i < length as") (auto simp: aread_def relay_rep_def split: if_splits option.splits)
  with assms show "a = as ! i" "is_live (rl_conns s) a" by (auto simp: relay_rep_def)
qed

text \<open>
  An iteration of the broadcast loop looks at the next counted connection; while the counted slot is not
  written it reads an indeterminate pointer.
\<close>

lemma broadcast_step_rep:
  assumes rep: "relay_rep s as"
  shows "broadcast_step broken i sock msg channel j s =
    (if counted s \<le> j then Inr (RRecv, s)
     else if j < length as
     then Inr (RSend sock msg channel (j + 1),
       if fst (relay_view s as ! j) \<noteq> sock \<and> snd (relay_view s as ! j) = channel
       then s\<lparr>rl_out := rl_out s @ [(i, Send (fst (relay_view s as ! j)) msg)], rl_dead := broken\<rparr> else s)
     else Inl Uninitialised)"
  using rep
proof (cases rule: relay_repE)
  case (1 c)
  have n: "counted s = co_len c" using 1(1) by (simp add: counted_def)
  show ?thesis
  proof (cases "j < length as")
    case True
    moreover have "aread (co_items c) j = Inr (as ! j)" using 1(6) True by (rule aread_holds)
    moreover have "is_live (rl_conns s) (as ! j)" using 1(8) True by simp
    ultimately show ?thesis using 1 n by (simp add: broadcast_step_def relay_view_def)
  next
    case False
    moreover have "j < co_len c \<Longrightarrow> aread (co_items c) j = Inl Uninitialised"
      using 1(3,5,7) False by (auto simp: aread_def main_good_def split: relay_main_pc.splits)
    ultimately show ?thesis using 1 n by (auto simp: broadcast_step_def)
  qed
qed

text \<open>The race: a broadcast that gets to the new slot after the count and before the store reads a wild pointer.\<close>

lemma relay_counted_before_stored:
  assumes "relay_rep s as" and "rl_main s = MStore a n"
  shows "n < counted s \<and> broadcast_step broken i sock msg channel n s = Inl Uninitialised"
  using assms broadcast_step_rep [OF assms(1), of broken i sock msg channel n]
  by (auto simp: main_good_def counted_def elim!: relay_repE)

lemma relay_worker_good:
  assumes "relay_good s as" and "worker_good (relay_view s as) (counted s) i pc"
  shows "relay_good (s\<lparr>rl_workers := (rl_workers s)[i := pc]\<rparr>) as"
  using assms
  by (cases "i < length (rl_workers s)")
    (auto simp: relay_good_def relay_rep_def relay_view_def counted_def nth_list_update list_update_beyond
      cong: option.case_cong)

lemma worker_recv_good:
  assumes rep: "relay_rep s as" and ret: "worker_recv slack i r s = Inr pc"
  shows "worker_good (relay_view s as) (counted s) i pc"
proof -
  from rep obtain c where tab: "rl_tab s = Some c" by (rule relay_repE)
  with ret obtain a where a: "aread (co_items c) i = Inr a" by (auto simp: worker_recv_def get_tab_def bindE_eq_Inr_iff)
  note item = aread_item [OF rep tab a]
  from ret a item(3) tab have "pc = RDone \<or>
      (\<exists>msg. pc = RSend (ct_sock (obj (rl_conns s) a)) msg (ct_channel_id (obj (rl_conns s) a)) 0)"
    by (cases "recv_upto RELAY_BUF r") (auto simp: worker_recv_def get_tab_def bindE_eq_Inr_iff)
  with item(1,2) show ?thesis by (auto simp: worker_good_def relay_view_def)
qed

lemma worker_send_good:
  assumes good: "relay_good s as" and w: "worker_good (relay_view s as) (counted s) i (RSend sock msg channel j)"
    and ret: "broadcast_step broken i sock msg channel j s = Inr (pc, u)"
  shows "relay_good u as \<and> relay_view u as = relay_view s as \<and> counted u = counted s \<and>
    worker_good (relay_view u as) (counted u) i pc"
proof -
  from good have rep: "relay_rep s as" by (simp add: relay_good_def)
  from ret broadcast_step_rep [OF rep, of broken i sock msg channel j]
  have pc: "pc = RRecv \<or> pc = RSend sock msg channel (j + 1) \<and> j < length as \<and> j < counted s"
    and "\<exists>out dead. u = s\<lparr>rl_out := out, rl_dead := dead\<rparr>"
    by (cases s; auto split: if_splits)+
  then obtain out dead where u: "u = s\<lparr>rl_out := out, rl_dead := dead\<rparr>" by blast
  have "relay_view u as = relay_view s as" "counted u = counted s" by (simp_all add: u relay_view_def counted_def)
  moreover have "relay_good u as"
    using good by (simp add: u relay_good_def relay_rep_def relay_view_def counted_def cong: option.case_cong)
  moreover have "worker_good (relay_view s as) (counted s) i pc"
    using pc w by (auto simp: worker_good_def relay_view_def)
  ultimately show ?thesis by simp
qed

text \<open>Every step keeps the table, up to one more connection at its end.\<close>

lemma relay_step_good:
  assumes good: "relay_good s as" and step: "relay_step slack junk s t"
  shows "\<exists>bs. relay_good t (as @ bs) \<and> relay_view t as = relay_view s as \<and> counted s \<le> counted t"
proof -
  from good have rep: "relay_rep s as" and len: "length (rl_workers s) = NWORKERS"
    and ws: "\<And>i. i < NWORKERS \<Longrightarrow> worker_good (relay_view s as) (counted s) i (rl_workers s ! i)"
    by (auto simp: relay_good_def)
  have nil: ?thesis if "relay_good t as" "relay_view t as = relay_view s as" "counted s \<le> counted t"
    using that by (intro exI [of _ "[]"]) simp
  from step show ?thesis
  proof (cases rule: relay_step.cases)
    case (relay_accepts cs r)
    with relay_accept_good [OF good] show ?thesis by (intro nil) auto
  next
    case (relay_registers store_first)
    with register_item_good [OF good] show ?thesis by blast
  next
    case (worker_sleeps i)
    with good show ?thesis by (intro nil) simp_all
  next
    case (worker_finds i)
    have "worker_good (relay_view s as) (counted s) i RRecv" by (simp add: worker_good_def)
    with worker_finds(1) relay_worker_good [OF good] show ?thesis
      by (intro nil) (simp_all add: relay_view_def counted_def)
  next
    case (worker_receives i r pc)
    from worker_recv_good [OF rep worker_receives(5)] worker_receives(1) relay_worker_good [OF good]
    show ?thesis by (intro nil) (simp_all add: relay_view_def counted_def)
  next
    case (worker_sends i sock msg channel j broken pc u)
    with ws [of i] len have "worker_good (relay_view s as) (counted s) i (RSend sock msg channel j)" by simp
    from worker_send_good [OF good this worker_sends(5)] have
      u: "relay_good u as" "relay_view u as = relay_view s as" "counted u = counted s"
        "worker_good (relay_view u as) (counted u) i pc" by auto
    from relay_worker_good [OF u(1,4)] u(2,3) worker_sends(1)
    show ?thesis by (intro nil) (simp_all add: relay_view_def counted_def)
  qed
qed

lemma relay_init_cases:
  assumes "relay_init s"
  shows "relay_null s \<or> relay_good s []"
proof (cases "rl_tab s")
  case None
  with assms show ?thesis by (simp add: relay_init_def relay_null_def)
next
  case (Some c)
  with assms obtain sc where c: "create_connections sc 1000 = (Some c, rl_script s)"
    and w: "length (rl_workers s) = NWORKERS" "set (rl_workers s) \<subseteq> {RWait, RNever}" "rl_main s = MAccept"
    by (auto simp: relay_init_def)
  from c have "c = \<lparr>co_items = replicate 1000 None, co_capacity = 1000, co_len = 0\<rparr>"
    by (cases "next_outcome sc"; cases "next_outcome (snd (next_outcome sc))")
      (auto simp: create_connections_def alloc_defs split: if_splits)
  moreover have "worker_good vs n i (rl_workers s ! i)" if "i < NWORKERS" for vs n i
  proof -
    from that w(1) have "rl_workers s ! i \<in> set (rl_workers s)" by simp
    with w(2) show ?thesis by (auto simp: worker_good_def)
  qed
  ultimately show ?thesis using Some w by (simp add: relay_good_def relay_rep_def main_good_def)
qed

lemma relay_null_accept:
  assumes "rl_tab s = None" and "rl_main s = MAccept" and "relay_accept slack cs r s = Inr t"
  shows "rl_tab t = None \<and> rl_main t = MAccept \<and> rl_workers t = rl_workers s"
  using assms
  by (cases s; cases "recv_upto RELAY_BUF r"; cases "next_outcome (rl_script s)")
    (auto simp: relay_accept_def register_connection_def get_tab_def halloc_def Let_def bindE_eq_Inr_iff split: if_splits)

lemma relay_null_step:
  assumes null: "relay_null s" and step: "relay_step slack junk s t"
  shows "relay_null t"
proof -
  have w: "rl_workers s ! i \<in> {RWait, RNever}" if "i < length (rl_workers s)" for i
    using null subsetD [OF _ nth_mem [OF that], of "{RWait, RNever}"] by (simp add: relay_null_def)
  from step show ?thesis
  proof (cases rule: relay_step.cases)
    case (relay_accepts cs r)
    with null relay_null_accept [OF _ _ relay_accepts(3)] show ?thesis by (simp add: relay_null_def)
  next
    case (worker_receives i r pc)
    with w [of i] show ?thesis by simp
  next
    case (worker_sends i sock msg channel j broken pc u)
    with w [of i] show ?thesis by simp
  qed (use null in \<open>auto simp: relay_null_def worker_poll_def get_tab_def register_item_def\<close>)
qed

interpretation relay: invariant_system relay_init "relay_step slack junk" relay_inv
proof
  fix s t
  show "relay_init s \<Longrightarrow> relay_inv s" by (auto simp: relay_inv_def dest: relay_init_cases)
  show "relay_inv s \<Longrightarrow> relay_step slack junk s t \<Longrightarrow> relay_inv t"
    unfolding relay_inv_def using relay_step_good relay_null_step by blast
qed

section \<open>Properties\<close>

text \<open>The connections that are registered: the counted slots that are written.\<close>

definition registered_conns :: "relay \<Rightarrow> (int \<times> nat) list" where
  "registered_conns s =
     (case rl_tab s of None \<Rightarrow> []
      | Some c \<Rightarrow> relay_view s (map the (filter (\<lambda>x. x \<noteq> None) (take (co_len c) (co_items c)))))"

text \<open>The socket and the channel of the connection in slot \<open>i\<close>.\<close>

definition slot_conn :: "relay \<Rightarrow> nat \<Rightarrow> (int \<times> nat) option" where
  "slot_conn s i =
     (case rl_tab s of None \<Rightarrow> None
      | Some c \<Rightarrow> (case aread (co_items c) i of Inl _ \<Rightarrow> None | Inr a \<Rightarrow> Some (hd (relay_view s [a]))))"

lemma registered_conns_eq:
  assumes rep: "relay_rep s as"
  shows "registered_conns s = take (counted s) (relay_view s as)"
  using rep
proof (cases rule: relay_repE)
  case (1 c)
  have b: "co_items c = map Some as @ drop (length as) (co_items c)"
    using 1(6) append_take_drop_id [of "length as" "co_items c"] by (simp add: holds_def)
  have "filter (\<lambda>x. x \<noteq> None) (take (co_len c) (co_items c)) = map Some (take (co_len c) as)"
  proof (cases "co_len c \<le> length as")
    case True
    then have "take (co_len c) (co_items c) = map Some (take (co_len c) as)" by (subst b) (simp add: take_map)
    then show ?thesis by (simp add: filter_map comp_def)
  next
    case False
    then have n: "co_len c = Suc (length as)" "length as < 1000"
      using 1(3) by (auto simp: main_good_def split: relay_main_pc.splits)
    then have "take (co_len c) (co_items c) = map Some as @ [None]"
      using 1(5,6,7) by (simp add: take_Suc_conv_app_nth holds_def)
    then show ?thesis using False by (simp add: filter_map comp_def)
  qed
  then show ?thesis using 1 by (simp add: registered_conns_def relay_view_def counted_def take_map comp_def)
qed

text \<open>What worker \<open>i\<close> has sent.\<close>

definition sent_by :: "nat \<Rightarrow> relay \<Rightarrow> (int \<times> string) list" where
  "sent_by i s = sends (map snd (filter (\<lambda>e. fst e = i) (rl_out s)))"

text \<open>The messages of a broadcast to the connections \<open>vs\<close>.\<close>

definition relay_sends :: "int \<Rightarrow> string \<Rightarrow> nat \<Rightarrow> (int \<times> nat) list \<Rightarrow> (int \<times> string) list" where
  "relay_sends sock msg channel vs = map (\<lambda>v. (fst v, msg)) (filter (\<lambda>v. fst v \<noteq> sock \<and> snd v = channel) vs)"

definition in_broadcast :: "nat \<Rightarrow> relay \<Rightarrow> bool" where
  "in_broadcast i s = (case rl_workers s ! i of RSend sock msg channel j \<Rightarrow> True | _ \<Rightarrow> False)"

text \<open>Steps of any thread while worker \<open>i\<close> stays in its broadcast loop.\<close>

definition while_broadcasting :: "(nat \<Rightarrow> nat) \<Rightarrow> (nat \<Rightarrow> nat) \<Rightarrow> nat \<Rightarrow> relay \<Rightarrow> relay \<Rightarrow> bool" where
  "while_broadcasting slack junk i s t \<longleftrightarrow> relay_step slack junk s t \<and> in_broadcast i t"

text \<open>The broadcast of worker \<open>i\<close> has dealt with the connections \<open>vs\<close>; its messages come after \<open>before\<close>.\<close>

definition broadcast_at ::
  "nat \<Rightarrow> int \<Rightarrow> string \<Rightarrow> nat \<Rightarrow> (int \<times> string) list \<Rightarrow> relay \<Rightarrow> addr list \<Rightarrow> nat \<Rightarrow> bool" where
  "broadcast_at i sock msg channel before s as j \<longleftrightarrow>
     relay_good s as \<and> rl_workers s ! i = RSend sock msg channel j \<and>
     sent_by i s = before @ relay_sends sock msg channel (take j (relay_view s as))"

lemma relay_sends_snoc:
  "j < length vs \<Longrightarrow> relay_sends sock msg channel (take (Suc j) vs) =
     relay_sends sock msg channel (take j vs) @
     (if fst (vs ! j) \<noteq> sock \<and> snd (vs ! j) = channel then [(fst (vs ! j), msg)] else [])"
  by (simp add: relay_sends_def take_Suc_conv_app_nth)

text \<open>Only the worker itself moves its broadcast loop.\<close>

lemma broadcast_at_step:
  assumes at: "broadcast_at i sock msg channel before s as j" and step: "relay_step slack junk s t" and i: "i < NWORKERS"
  shows "(\<exists>bs k. broadcast_at i sock msg channel before t (as @ bs) k) \<or>
    rl_workers t ! i = RRecv \<and> registered_conns t = registered_conns s \<and>
    sent_by i t = before @ relay_sends sock msg channel (registered_conns s)"
proof -
  from at have good: "relay_good s as" and pc: "rl_workers s ! i = RSend sock msg channel j"
    and out: "sent_by i s = before @ relay_sends sock msg channel (take j (relay_view s as))"
    by (simp_all add: broadcast_at_def)
  from good have rep: "relay_rep s as" and len: "length (rl_workers s) = NWORKERS" by (simp_all add: relay_good_def)
  from good i pc have jn: "j \<le> counted s" "j \<le> length as"
    by (force simp: relay_good_def worker_good_def relay_view_def)+
  obtain bs where bs: "relay_good t (as @ bs)" "relay_view t as = relay_view s as"
    using relay_step_good [OF good step] by blast
  have n: "length (relay_view s as) = length as" by (simp add: relay_view_def)
  have app: "relay_view t (as @ bs) = relay_view s as @ relay_view t bs"
    unfolding bs(2) [symmetric] by (simp add: relay_view_def)
  have view: "take j (relay_view t (as @ bs)) = take j (relay_view s as)" using jn(2) n by (simp add: app)
  have stays: ?thesis if "rl_workers t ! i = RSend sock msg channel j" "sent_by i t = sent_by i s"
    using that bs(1) out view by (auto simp: broadcast_at_def)
  from step show ?thesis
  proof (cases rule: relay_step.cases)
    case (relay_accepts cs r)
    have "rl_workers t = rl_workers s \<and> rl_out t = rl_out s"
      using relay_accepts(3) by (cases s; cases "recv_upto RELAY_BUF r"; cases "next_outcome (rl_script s)")
        (auto simp: relay_accept_def register_connection_def get_tab_def halloc_def Let_def bindE_eq_Inr_iff
          split: if_splits option.splits)
    with pc show ?thesis by (intro stays) (simp_all add: sent_by_def)
  next
    case (relay_registers store_first)
    then have "rl_workers t = rl_workers s \<and> rl_out t = rl_out s"
      by (auto simp: register_item_def store_item_def count_item_def get_tab_def bindE_eq_Inr_iff
          split: relay_main_pc.splits if_splits option.splits)
    with pc show ?thesis by (intro stays) (simp_all add: sent_by_def)
  next
    case (worker_sends k sock' msg' channel' j' broken pc' u)
    show ?thesis
    proof (cases "k = i")
      case False
      with worker_sends pc broadcast_step_rep [OF rep, of broken k sock' msg' channel' j'] show ?thesis
        by (intro stays) (auto simp: sent_by_def split: if_splits)
    next
      case True
      with worker_sends(4) pc have eq: "sock' = sock" "msg' = msg" "channel' = channel" "j' = j" by simp_all
      note b = broadcast_step_rep [OF rep, of broken i sock msg channel j]
      show ?thesis
      proof (cases "counted s \<le> j")
        case True
        with jn have "registered_conns s = take j (relay_view s as)" by (simp add: registered_conns_eq [OF rep])
        moreover from b True worker_sends(1,5) eq \<open>k = i\<close> have "t = s\<lparr>rl_workers := (rl_workers s)[i := RRecv]\<rparr>" by simp
        moreover have "registered_conns (s\<lparr>rl_workers := ws\<rparr>) = registered_conns s" for ws
          by (simp add: registered_conns_def relay_view_def cong: option.case_cong)
        ultimately show ?thesis using out i len by (simp add: sent_by_def)
      next
        case False
        with b worker_sends(5) eq \<open>k = i\<close> have j: "j < length as" by (cases "j < length as") simp_all
        let ?v = "relay_view s as ! j"
        have "sent_by i t = sent_by i s @ (if fst ?v \<noteq> sock \<and> snd ?v = channel then [(fst ?v, msg)] else [])"
          and "rl_workers t ! i = RSend sock msg channel (Suc j)"
          using b False j worker_sends(1,5) eq \<open>k = i\<close> i len by (auto simp: sent_by_def)
        moreover have "take (Suc j) (relay_view t (as @ bs)) = take (Suc j) (relay_view s as)" using j n by (simp add: app)
        ultimately have "broadcast_at i sock msg channel before t (as @ bs) (Suc j)"
          using bs(1) out j n relay_sends_snoc [of j "relay_view s as" sock msg channel]
          by (simp add: broadcast_at_def)
        then show ?thesis by blast
      qed
    qed
  next
    case (worker_finds k)
    with pc have "k \<noteq> i" by auto
    with worker_finds(1) pc show ?thesis by (intro stays) (simp_all add: sent_by_def)
  next
    case (worker_receives k r pc')
    with pc have "k \<noteq> i" by auto
    with worker_receives(1) pc show ?thesis by (intro stays) (simp_all add: sent_by_def)
  next
    case (worker_sleeps k)
    with pc show ?thesis by (intro stays) simp_all
  qed
qed

lemma broadcast_at_run:
  assumes "(while_broadcasting slack junk i)\<^sup>*\<^sup>* s t" and "broadcast_at i sock msg channel before s as j"
    and "i < NWORKERS"
  shows "\<exists>bs k. broadcast_at i sock msg channel before t (as @ bs) k"
  using assms(1)
proof (induction rule: rtranclp_induct)
  case base
  show ?case using assms(2) by (intro exI [of _ "[]"] exI [of _ j]) simp
next
  case (step t u)
  then obtain bs k where "broadcast_at i sock msg channel before t (as @ bs) k" by blast
  from broadcast_at_step [OF this _ assms(3)] step(2) show ?case
    by (fastforce simp: while_broadcasting_def in_broadcast_def)
qed

text \<open>Left alone while \<open>main\<close> is not between its two writes, a broadcast comes to its end.\<close>

lemma relay_broadcast_ends:
  assumes "relay_good s as" and "rl_workers s ! i = RSend sock msg channel j" and "i < NWORKERS" and "\<not> rl_dead s"
    and "counted s \<le> length as"
  shows "\<exists>t u. (while_broadcasting slack junk i)\<^sup>*\<^sup>* s t \<and> relay_step slack junk t u \<and> rl_workers u ! i = RRecv"
  using assms
proof (induction "counted s - j" arbitrary: s as j rule: less_induct)
  case less
  then have rep: "relay_rep s as" and len: "length (rl_workers s) = NWORKERS" by (simp_all add: relay_good_def)
  note b = broadcast_step_rep [OF rep, of False i sock msg channel j]
  show ?case
  proof (cases "counted s \<le> j")
    case True
    with b less.prems len have "relay_step slack junk s (s\<lparr>rl_workers := (rl_workers s)[i := RRecv]\<rparr>)"
      by (intro worker_sends [of s i sock msg channel j False]) simp_all
    moreover have "rl_workers (s\<lparr>rl_workers := (rl_workers s)[i := RRecv]\<rparr>) ! i = RRecv" using less.prems len by simp
    ultimately show ?thesis by blast
  next
    case False
    then have j: "j < length as" using less.prems(5) by simp
    with b False obtain u where u: "broadcast_step False i sock msg channel j s = Inr (RSend sock msg channel (Suc j), u)"
      "rl_workers u = rl_workers s" "\<not> rl_dead u" "counted u = counted s"
      using less.prems(4) by (cases s) (auto simp: counted_def)
    define t where "t = u\<lparr>rl_workers := (rl_workers u)[i := RSend sock msg channel (Suc j)]\<rparr>"
    have step: "relay_step slack junk s t"
      unfolding t_def using u(1) less.prems len by (intro worker_sends [of s i sock msg channel j False]) simp_all
    have t: "rl_workers t ! i = RSend sock msg channel (Suc j)" "\<not> rl_dead t" "counted t = counted s"
      using u less.prems len by (simp_all add: t_def counted_def)
    from relay_step_good [OF less.prems(1) step] obtain bs where good: "relay_good t (as @ bs)" by blast
    have "counted t - Suc j < counted s - j" "counted t \<le> length (as @ bs)" using False t(3) less.prems(5) by simp_all
    from less.hyps [OF this(1) good t(1) less.prems(3) t(2) this(2)] obtain v w where
      "(while_broadcasting slack junk i)\<^sup>*\<^sup>* t v" "relay_step slack junk v w" "rl_workers w ! i = RRecv" by blast
    moreover have "while_broadcasting slack junk i s t"
      using step t(1) by (simp add: while_broadcasting_def in_broadcast_def)
    ultimately show ?thesis by (blast intro: converse_rtranclp_into_rtranclp)
  qed
qed

text \<open>Sockets 5 and 6 join channel 4, and worker 0 receives a message from socket 5.\<close>

definition relay_demo :: "conn_t store \<Rightarrow> relay_main_pc \<Rightarrow> addr blk \<Rightarrow> nat \<Rightarrow> relay_pc \<Rightarrow> relay" where
  "relay_demo h m b n pc = \<lparr>rl_conns = h, rl_tab = Some \<lparr>co_items = b, co_capacity = 1000, co_len = n\<rparr>,
     rl_script = [], rl_main = m, rl_out = [], rl_workers = (replicate NWORKERS RWait)[0 := pc], rl_dead = False\<rparr>"

definition demo_member :: "int \<Rightarrow> conn_t option" where
  "demo_member sock = Some \<lparr>ct_sock = sock, ct_channel_id = 4\<rparr>"

abbreviation empty_slots :: "addr blk" where "empty_slots \<equiv> replicate 1000 None"

definition relay_0 :: relay where "relay_0 = relay_demo [] MAccept empty_slots 0 RWait"
definition relay_1 :: relay where "relay_1 = relay_demo [demo_member 5] MAccept (empty_slots[0 := Some 0]) 1 RWait"
definition relay_2 :: "relay_pc \<Rightarrow> relay" where
  "relay_2 = relay_demo [demo_member 5, demo_member 6] MAccept (empty_slots[0 := Some 0, 1 := Some 1]) 2"

lemma relay_demo_init: "relay_init relay_0"
  by (auto simp: relay_init_def relay_0_def relay_demo_def create_connections_def alloc_defs NWORKERS_def
      intro!: exI [of _ "[]"] dest!: subsetD [OF set_update_subset_insert])

lemma received_4: "received slack ''4'' = Inr ''4''" and received_hi: "received slack ''hi'' = Inr ''hi''"
  by (simp_all add: received_def RELAY_BUF_def c_str_def)

lemma atoi_4: "c_atoi ''4'' = Inr 4"
  by (simp add: c_atoi_def atoi_val_def c_isspace_def c_isdigit_def byte_def INT_MIN_def INT_MAX_def)

text \<open>Socket 5 is stored before it is counted, socket 6 is counted before it is stored.\<close>

lemma relay_demo_accept:
  "relay_accept slack 5 (RxData ''4'') relay_0 =
     Inr (relay_demo [demo_member 5] (MRegister 0) empty_slots 0 RWait)"
  "register_item True (relay_demo [demo_member 5] (MRegister 0) empty_slots 0 RWait) =
     Inr (relay_demo [demo_member 5] MCount (empty_slots[0 := Some 0]) 0 RWait)"
  "register_item b (relay_demo [demo_member 5] MCount (empty_slots[0 := Some 0]) 0 RWait) = Inr relay_1"
  "relay_accept slack 6 (RxData ''4'') relay_1 =
     Inr (relay_demo [demo_member 5, demo_member 6] (MRegister 1) (empty_slots[0 := Some 0]) 1 RWait)"
  "register_item False (relay_demo [demo_member 5, demo_member 6] (MRegister 1) (empty_slots[0 := Some 0]) 1 RWait) =
     Inr (relay_demo [demo_member 5, demo_member 6] (MStore 1 1) (empty_slots[0 := Some 0]) 2 RWait)"
  "register_item b (relay_demo [demo_member 5, demo_member 6] (MStore 1 1) (empty_slots[0 := Some 0]) 2 RWait) =
     Inr (relay_2 RWait)"
  by (simp_all add: relay_accept_def RELAY_BUF_def received_4 register_connection_def atoi_4 halloc_def live_count_def
      SIZE_MOD_def relay_0_def relay_1_def relay_2_def relay_demo_def get_tab_def size_add_def demo_member_def to_size_def
      hupd_def hload_def register_item_def store_item_def count_item_def)

lemma relay_demo_alive [simp]: "\<not> rl_dead (relay_demo h m b n pc)" "rl_main (relay_demo h m b n pc) = m"
  by (simp_all add: relay_demo_def)

lemma three_steps: "r a b \<Longrightarrow> r b c \<Longrightarrow> r c d \<Longrightarrow> r\<^sup>*\<^sup>* a d"
  by (meson converse_rtranclp_into_rtranclp r_into_rtranclp)

lemma relay_demo_steps:
  "(relay_step slack junk)\<^sup>*\<^sup>* relay_0 relay_1" "(relay_step slack junk)\<^sup>*\<^sup>* relay_1 (relay_2 RWait)"
proof -
  note d = relay_demo_accept
  have 0: "relay_step slack junk relay_0 (relay_demo [demo_member 5] (MRegister 0) empty_slots 0 RWait)"
    by (rule relay_accepts [OF _ _ d(1)]) (simp_all add: relay_0_def)
  note 1 = relay_registers [OF relay_demo_alive(1) d(2)] and 2 = relay_registers [OF relay_demo_alive(1) d(3)]
  show "(relay_step slack junk)\<^sup>*\<^sup>* relay_0 relay_1" by (rule three_steps [of "relay_step slack junk", OF 0 1 2])
  have 3: "relay_step slack junk relay_1
      (relay_demo [demo_member 5, demo_member 6] (MRegister 1) (empty_slots[0 := Some 0]) 1 RWait)"
    by (rule relay_accepts [OF _ _ d(4)]) (simp_all add: relay_1_def)
  note 4 = relay_registers [OF relay_demo_alive(1) d(5)] and 5 = relay_registers [OF relay_demo_alive(1) d(6)]
  show "(relay_step slack junk)\<^sup>*\<^sup>* relay_1 (relay_2 RWait)" by (rule three_steps [of "relay_step slack junk", OF 3 4 5])
qed

lemma reach_steps: "step\<^sup>*\<^sup>* s t \<Longrightarrow> reach init step s \<Longrightarrow> reach init step t"
  by (induction rule: rtranclp_induct) (auto intro: reach_step)

lemma relay_demo_run: "(relay_step slack junk)\<^sup>*\<^sup>* relay_0 (relay_2 (RSend 5 ''hi'' 4 0))"
proof -
  have 2: "(relay_step slack junk)\<^sup>*\<^sup>* relay_0 (relay_2 RWait)" using relay_demo_steps by (rule rtranclp_trans)
  have "worker_poll junk 0 (relay_2 RWait) = Inr True"
    by (simp add: worker_poll_def get_tab_def relay_2_def relay_demo_def)
  with worker_finds [of "relay_2 RWait" 0 junk slack]
  have "relay_step slack junk (relay_2 RWait) (relay_2 RRecv)"
    by (simp add: relay_2_def relay_demo_def NWORKERS_def)
  with 2 have 3: "(relay_step slack junk)\<^sup>*\<^sup>* relay_0 (relay_2 RRecv)" by (rule rtranclp.rtrancl_into_rtrancl)
  have "worker_recv slack 0 (RxData ''hi'') (relay_2 RRecv) = Inr (RSend 5 ''hi'' 4 0)"
    by (simp add: worker_recv_def get_tab_def relay_2_def relay_demo_def aread_def hload_def demo_member_def
        RELAY_BUF_def received_hi)
  with worker_receives [of "relay_2 RRecv" 0 slack "RxData ''hi''" "RSend 5 ''hi'' 4 0" junk]
  have "relay_step slack junk (relay_2 RRecv) (relay_2 (RSend 5 ''hi'' 4 0))"
    by (simp add: relay_2_def relay_demo_def NWORKERS_def)
  with 3 show ?thesis by (rule rtranclp.rtrancl_into_rtrancl)
qed

lemmas relay_demo_start = reach_init [of relay_init, OF relay_demo_init]
lemmas relay_demo_reach = reach_steps [OF relay_demo_steps(1) relay_demo_start] reach_steps [OF relay_demo_run relay_demo_start]

lemma relay_demo_conns: "registered_conns (relay_2 pc) = [(5, 4), (6, 4)]" "registered_conns relay_1 = [(5, 4)]"
proof -
  have "relay_rep (relay_2 pc) [0, 1]"
    by (auto simp: relay_rep_def relay_2_def relay_demo_def main_good_def holds_iff nth_list_update less_Suc_eq is_live_def demo_member_def)
  from registered_conns_eq [OF this] show "registered_conns (relay_2 pc) = [(5, 4), (6, 4)]"
    by (simp add: relay_view_def relay_2_def relay_demo_def obj_def demo_member_def counted_def)
  have "relay_rep relay_1 [0]"
    by (auto simp: relay_rep_def relay_1_def relay_demo_def main_good_def holds_iff nth_list_update less_Suc_eq is_live_def demo_member_def)
  from registered_conns_eq [OF this] show "registered_conns relay_1 = [(5, 4)]"
    by (simp add: relay_view_def relay_1_def relay_demo_def obj_def demo_member_def counted_def)
qed

text \<open>The run goes on: worker 0 sends the message to socket 6.\<close>

definition relay_3 :: "relay_pc \<Rightarrow> relay" where
  "relay_3 pc = (relay_2 pc)\<lparr>rl_out := [(0, Send 6 ''hi'')]\<rparr>"

lemma relay_3_conns: "registered_conns (relay_3 pc) = registered_conns (relay_2 pc)"
  by (simp add: relay_3_def registered_conns_def relay_view_def relay_2_def relay_demo_def)

lemma relay_demo_broadcast:
  "\<exists>t. (while_broadcasting slack junk 0)\<^sup>*\<^sup>* (relay_2 (RSend 5 ''hi'' 4 0)) t \<and> relay_step slack junk t (relay_3 RRecv)"
proof -
  let ?pc = "RSend 5 ''hi'' 4"
  note defs = relay_3_def relay_2_def relay_demo_def NWORKERS_def
  have "broadcast_step False 0 5 ''hi'' 4 0 (relay_2 (?pc 0)) = Inr (?pc 1, relay_2 (?pc 0))"
    "broadcast_step False 0 5 ''hi'' 4 1 (relay_2 (?pc 1)) = Inr (?pc 2, relay_3 (?pc 1))"
    "broadcast_step False 0 5 ''hi'' 4 2 (relay_3 (?pc 2)) = Inr (RRecv, relay_3 (?pc 2))"
    by (simp_all add: broadcast_step_def get_tab_def aread_def hload_def demo_member_def defs)
  then have "relay_step slack junk (relay_2 (?pc 0)) (relay_2 (?pc 1))"
    "relay_step slack junk (relay_2 (?pc 1)) (relay_3 (?pc 2))" and
    3: "relay_step slack junk (relay_3 (?pc 2)) (relay_3 RRecv)"
    using worker_sends [of "relay_2 (?pc 0)" 0 5 "''hi''" 4 0 False]
      worker_sends [of "relay_2 (?pc 1)" 0 5 "''hi''" 4 1 False] worker_sends [of "relay_3 (?pc 2)" 0 5 "''hi''" 4 2 False]
    by (simp_all add: defs)
  then have "while_broadcasting slack junk 0 (relay_2 (?pc 0)) (relay_2 (?pc 1))"
    and 2: "while_broadcasting slack junk 0 (relay_2 (?pc 1)) (relay_3 (?pc 2))"
    by (simp_all add: while_broadcasting_def in_broadcast_def defs)
  from converse_rtranclp_into_rtranclp [OF this(1) r_into_rtranclp [of "while_broadcasting slack junk 0", OF 2]] 3
  show ?thesis by blast
qed

lemma while_broadcasting_steps: "(while_broadcasting slack junk i)\<^sup>*\<^sup>* s t \<Longrightarrow> (relay_step slack junk)\<^sup>*\<^sup>* s t"
  by (erule rtranclp_mono [THEN predicate2D, rotated]) (auto simp: while_broadcasting_def)

text \<open>
  C14: the broadcasts of the relay, in every interleaving: while worker \<open>i\<close> is in the loop over a message,
  whatever the other threads do in between, the message came from the connection in slot \<open>i\<close>, so only the first 24
  connections are ever heard; what the worker has sent for the message is one copy to every registered
  connection of that channel with another socket among those the loop has passed, in the order of registration; and
  when the loop ends it has passed all that are registered then. Unless \<open>main\<close> is between its two writes or
  the process has been killed, the loop left alone does end.
\<close>

theorem relay_broadcast_delivers:
  assumes "reach relay_init (relay_step slack junk) s" and "i < length (rl_workers s)"
    and "rl_workers s ! i = RSend sock msg channel 0" and "(while_broadcasting slack junk i)\<^sup>*\<^sup>* s t"
  shows "i < 24 \<and> slot_conn t i = Some (sock, channel) \<and>
    (\<exists>j \<le> length (registered_conns t). rl_workers t ! i = RSend sock msg channel j \<and>
       sent_by i t = sent_by i s @ relay_sends sock msg channel (take j (registered_conns t))) \<and>
    (\<forall>u. relay_step slack junk t u \<and> rl_workers u ! i = RRecv \<longrightarrow>
       registered_conns u = registered_conns t \<and>
       sent_by i u = sent_by i s @ relay_sends sock msg channel (registered_conns u)) \<and>
    (rl_main t = MAccept \<and> \<not> rl_dead t \<longrightarrow>
       (\<exists>u v. (while_broadcasting slack junk i)\<^sup>*\<^sup>* t u \<and> relay_step slack junk u v \<and> rl_workers v ! i = RRecv))"
proof -
  have "rl_workers s ! i \<in> set (rl_workers s)" using assms(2) by simp
  with assms(3) have "\<not> relay_null s" by (auto simp: relay_null_def)
  with relay.reach_inv [OF assms(1)] obtain as where good: "relay_good s as" by (auto simp: relay_inv_def)
  then have i: "i < NWORKERS" using assms(2) by (simp add: relay_good_def)
  have "broadcast_at i sock msg channel (sent_by i s) s as 0"
    using good assms(3) by (simp add: broadcast_at_def relay_sends_def)
  from broadcast_at_run [OF assms(4) this i] obtain bs j where at: "broadcast_at i sock msg channel (sent_by i s) t bs j"
    by blast
  then have good: "relay_good t bs" and pc: "rl_workers t ! i = RSend sock msg channel j" by (simp_all add: broadcast_at_def)
  then have rep: "relay_rep t bs" by (simp add: relay_good_def)
  note reg = registered_conns_eq [OF rep]
  have w: "i < length bs" "relay_view t bs ! i = (sock, channel)" "j \<le> length bs" "j \<le> counted t"
    using good i pc by (force simp: relay_good_def worker_good_def relay_view_def)+
  have "slot_conn t i = Some (sock, channel)"
    using rep w(1,2) by (auto simp: slot_conn_def relay_view_def elim!: relay_repE)
  moreover have "counted t \<le> length bs" if "rl_main t = MAccept"
    using rep that by (auto simp: main_good_def counted_def elim!: relay_repE)
  moreover have "relay_step slack junk t u \<and> rl_workers u ! i = RRecv \<Longrightarrow>
      registered_conns u = registered_conns t \<and>
      sent_by i u = sent_by i s @ relay_sends sock msg channel (registered_conns u)" for u
    using broadcast_at_step [OF at _ i] by (fastforce simp: broadcast_at_def)
  moreover have "j \<le> length (registered_conns t)" using w reg by (simp add: relay_view_def)
  moreover have "sent_by i t = sent_by i s @ relay_sends sock msg channel (take j (registered_conns t))"
    using at w reg by (simp add: broadcast_at_def min_def)
  ultimately show ?thesis
    using i pc relay_broadcast_ends [OF good pc i] unfolding NWORKERS_def by auto
qed

theorem relay_broadcast_delivers_witness:
  "\<exists>u v. (relay_step (\<lambda>_. 0) (\<lambda>_. 0))\<^sup>*\<^sup>* relay_0 u \<and> relay_step (\<lambda>_. 0) (\<lambda>_. 0) u v \<and>
    rl_workers v ! 0 = RRecv \<and> sent_by 0 v = [(6, ''hi'')]"
proof -
  let ?step = "relay_step (\<lambda>_. 0) (\<lambda>_. 0)" and ?s = "relay_2 (RSend 5 ''hi'' 4 0)"
  note defs = relay_2_def relay_demo_def NWORKERS_def
  have s: "0 < length (rl_workers ?s)" "rl_workers ?s ! 0 = RSend 5 ''hi'' 4 0" "sent_by 0 ?s = []"
    by (simp_all add: defs sent_by_def)
  note run = relay_broadcast_delivers [OF relay_demo_reach(2) s(1,2), where slack = "\<lambda>_. 0" and junk = "\<lambda>_. 0"]
  obtain t where t: "(while_broadcasting (\<lambda>_. 0) (\<lambda>_. 0) 0)\<^sup>*\<^sup>* ?s t" "?step t (relay_3 RRecv)"
    using relay_demo_broadcast by blast
  have "rl_workers (relay_3 RRecv) ! 0 = RRecv" by (simp add: relay_3_def defs)
  with run [OF t(1)] t(2) s(3) have "sent_by 0 (relay_3 RRecv) =
      relay_sends 5 ''hi'' 4 (registered_conns (relay_3 RRecv))" by auto
  then have "sent_by 0 (relay_3 RRecv) = [(6, ''hi'')]"
    by (simp add: relay_demo_conns relay_sends_def relay_3_conns)
  moreover have "?step\<^sup>*\<^sup>* ?s t" using t(1) by (rule while_broadcasting_steps)
  ultimately show ?thesis using t(2) relay_demo_run \<open>rl_workers (relay_3 RRecv) ! 0 = RRecv\<close>
    by (blast intro: rtranclp_trans)
qed

lemma take_grows: "n \<le> m \<Longrightarrow> \<exists>new. take m (xs @ ys) = take n xs @ new"
  by (auto simp: le_iff_add take_add)

text \<open>
  C23: the table of connections is append-only: whatever the threads do, the connections that are
  registered stay registered under the same socket and channel, disconnected or not.
\<close>

theorem relay_registrations_kept:
  assumes "reach relay_init (relay_step slack junk) s" and "(relay_step slack junk)\<^sup>*\<^sup>* s t"
  shows "\<exists>new. registered_conns t = registered_conns s @ new"
  using assms(2)
proof (induction rule: rtranclp_induct)
  case base
  show ?case by (intro exI [of _ "[]"]) simp
next
  case (step t u)
  have "relay_inv s" using assms(1) by (rule relay.reach_inv)
  then have "relay_inv t" by (rule relay.rtranclp_inv [OF step(1)])
  then consider "relay_null t" | as where "relay_good t as" by (auto simp: relay_inv_def)
  then have "\<exists>new. registered_conns u = registered_conns t @ new"
  proof cases
    case 1
    with relay_null_step [OF 1 step(2)] show ?thesis by (simp add: relay_null_def registered_conns_def)
  next
    case (2 as)
    from relay_step_good [OF 2 step(2)] obtain bs where
      bs: "relay_good u (as @ bs)" "relay_view u as = relay_view t as" "counted t \<le> counted u" by blast
    have "relay_view u (as @ bs) = relay_view t as @ relay_view u bs"
      unfolding bs(2) [symmetric] by (simp add: relay_view_def)
    with 2 bs(1) have "registered_conns u = take (counted u) (relay_view t as @ relay_view u bs)"
      "registered_conns t = take (counted t) (relay_view t as)"
      by (simp_all add: registered_conns_eq [of u "as @ bs"] registered_conns_eq [of t as] relay_good_def del: take_append)
    with take_grows [OF bs(3)] show ?thesis by simp
  qed
  then show ?case using step.IH by auto
qed

theorem relay_registrations_kept_witness:
  "\<exists>new. registered_conns (relay_2 RWait) = [(5, 4)] @ new"
proof -
  have "(relay_step (\<lambda>_. 0) (\<lambda>_. 0))\<^sup>*\<^sup>* relay_1 (relay_2 RWait)" by (rule relay_demo_steps)
  from relay_registrations_kept [OF relay_demo_reach(1) this] show ?thesis by (simp add: relay_demo_conns)
qed

text \<open>
  C40: without a table: when memory is short and \<open>create_connections\<close> fails, the server starts all the same,
  and every worker dereferences the null pointer in its first poll, whatever has happened in the meantime.
\<close>

theorem relay_starts_without_table:
  assumes "fst (create_connections sc 1000) = None" and "\<forall>i. 0 \<le> create i" and "snd (relay_setup ret)"
  shows "\<exists>s ws. relay_main sc create ret = Some (s, ws) \<and>
    (\<forall>t i. (relay_step slack junk)\<^sup>*\<^sup>* s t \<longrightarrow> worker_poll junk i t = Inl NullDeref)"
proof -
  from assms create_failure_unnoticed [OF assms(2), of NWORKERS] obtain s ws where
    m: "relay_main sc create ret = Some (s, ws)" "rl_tab s = None"
    by (cases "create_connections sc 1000") (auto simp: relay_main_def)
  from relay_init_cases [OF relay_main_init [OF m(1)]] m(2) have null: "relay_null s"
    by (auto simp: relay_good_def relay_rep_def)
  have "worker_poll junk i t = Inl NullDeref" if "(relay_step slack junk)\<^sup>*\<^sup>* s t" for i t
  proof -
    from that null have "relay_null t" by (induction rule: rtranclp_induct) (auto intro: relay_null_step)
    then show ?thesis by (simp add: relay_null_def worker_poll_def get_tab_def)
  qed
  with m show ?thesis by blast
qed

theorem relay_starts_without_table_witness:
  "\<exists>s ws. relay_main [False] (\<lambda>_. 0) (\<lambda>_. 3) = Some (s, ws) \<and> worker_poll (\<lambda>_. 0) 0 s = Inl NullDeref"
proof -
  have "fst (create_connections [False] 1000) = None" by (simp add: create_connections_def alloc_defs)
  from relay_starts_without_table [OF this, of "\<lambda>_. 0" "\<lambda>_. 3" "\<lambda>_. 0" "\<lambda>_. 0"] show ?thesis
    by (auto simp: relay_setup_def)
qed

text \<open>
  a message of 1024 bytes or more, the first one that names the channel or a later one, makes the
  server store its terminating NUL behind the buffer.
\<close>

theorem relay_full_buffer:
  assumes "RELAY_BUF \<le> length d"
  shows "received (\<lambda>_. 0) (take RELAY_BUF d) = Inl OutOfBounds"
  using assms by (simp add: received_def store_nul_def)

theorem relay_full_buffer_witness: "received (\<lambda>_. 0) (take RELAY_BUF (replicate 2000 (CHR ''a''))) = Inl OutOfBounds"
  by (rule relay_full_buffer) (simp add: RELAY_BUF_def)

end
