(* ===== verification/Broadcast_Server.thy ===== *)
theory Broadcast_Server
  imports Interfaces
begin

text \<open>
  \<^verbatim>\<open>networking/inte_server_broadcast_with_controller/server.c\<close>: a sender thread broadcasts a
  counter once per round, an acceptor thread adds clients under a mutex, a controller thread
  sets a signal that resets the counter or makes the sender broadcast "exit".
\<close>

section \<open>State\<close>

definition C_NO_SIGNAL :: int where "C_NO_SIGNAL = - 1"
definition C_EXIT :: int where "C_EXIT = 1"
definition C_RESET :: int where "C_RESET = 2"
definition C_MSG_EXIT :: string where "C_MSG_EXIT = ''exit''"
definition C_MSG_RESET :: string where "C_MSG_RESET = ''reset''"
definition MAX_BUFSIZE :: nat where "MAX_BUFSIZE = 1024"
definition MAX_CONNECTIONS :: nat where "MAX_CONNECTIONS = 5"

text \<open>
  Program points. The sender: before the first and the second comparison of the signal, before
  clearing it, before locking, in the loop with index \<open>j\<close> (holding the mutex); the acceptor: in
  \<open>accept\<close>, before locking, holding the mutex.
\<close>

datatype sender_pc =
    SRead | SRead2
  | SClear "char list" | SLock "char list" | SLoop "char list" nat

datatype acceptor_pc = AAccept | ALock int | AAdd int

datatype holder = HSender | HAcceptor

record bcast =
  bc_fds :: "int blk"           \<comment> \<open>\<open>client_fds\<close>\<close>
  bc_n :: nat                   \<comment> \<open>\<open>n_connections\<close>\<close>
  bc_signal :: int
  bc_counter :: nat
  bc_mut :: "holder option"
  bc_sender :: sender_pc
  bc_acceptor :: acceptor_pc
  bc_out :: "io list"
  bc_mark :: "io list"          \<comment> \<open>history: the trace when the current round took the mutex\<close>

definition bcast_init :: "bcast \<Rightarrow> bool" where
  "bcast_init s \<longleftrightarrow> bc_fds s = replicate MAX_CONNECTIONS None \<and> bc_n s = 0 \<and> bc_signal s = C_NO_SIGNAL \<and>
     bc_counter s = 0 \<and> bc_mut s = None \<and> bc_sender s = SRead \<and> bc_acceptor s = AAccept \<and> bc_out s = [] \<and> bc_mark s = []"

section \<open>The sender\<close>

text \<open>
  The automatic buffer holds \<open>junk\<close> when it is declared. \<open>sprintf\<close> terminates what it writes,
  \<open>strncpy (buf, "exit", 4)\<close> copies four characters and no NUL.
\<close>

definition sprintf_zu :: "char list \<Rightarrow> nat \<Rightarrow> char list" where
  "sprintf_zu junk n = buf_write junk (dec n @ [NUL])"

definition strncpy_exit :: "char list \<Rightarrow> char list" where
  "strncpy_exit junk = buf_write junk (take 4 C_MSG_EXIT)"

definition sender_read :: "char list \<Rightarrow> bcast \<Rightarrow> bcast" where
  "sender_read junk s =
     (if bc_signal s = C_EXIT then s\<lparr>bc_sender := SClear (strncpy_exit junk)\<rparr>
      else s\<lparr>bc_sender := SRead2\<rparr>)"

definition sender_read2 :: "char list \<Rightarrow> bcast \<Rightarrow> bcast" where
  "sender_read2 junk s =
     (let counter = (if bc_signal s = C_RESET then 0 else bc_counter s)
      in s\<lparr>bc_sender := SClear (sprintf_zu junk counter), bc_counter := size_add counter 1\<rparr>)"

definition sender_clear :: "char list \<Rightarrow> bcast \<Rightarrow> bcast" where
  "sender_clear buf s = s\<lparr>bc_signal := C_NO_SIGNAL, bc_sender := SLock buf\<rparr>"

definition sender_send :: "char list \<Rightarrow> nat \<Rightarrow> bcast \<Rightarrow> bcast res" where
  "sender_send buf j s =
     (if j < bc_n s then
        bindE (aread (bc_fds s) j) (\<lambda>fd.
        bindE (c_str buf 0) (\<lambda>text.
        Inr (s\<lparr>bc_out := bc_out s @ [Send fd text], bc_sender := SLoop buf (j + 1)\<rparr>)))
      else Inr (s\<lparr>bc_mut := None, bc_sender := SRead\<rparr>))"

section \<open>The acceptor and the controller\<close>

definition accept_check :: "int \<Rightarrow> bcast \<Rightarrow> bcast" where
  "accept_check client_fd s =
     (if client_fd = - 1 then s
      else if bc_n s < MAX_CONNECTIONS then s\<lparr>bc_acceptor := ALock client_fd\<rparr>
      else s)"

definition accept_add :: "int \<Rightarrow> bcast \<Rightarrow> bcast res" where
  "accept_add client_fd s =
     bindE (awrite (bc_fds s) (bc_n s) client_fd) (\<lambda>b.
     Inr (s\<lparr>bc_fds := b, bc_n := size_add (bc_n s) 1, bc_mut := None, bc_acceptor := AAccept\<rparr>))"

text \<open>What one connection of a controller does; \<open>client_fd\<close> is the result of \<open>accept\<close>.\<close>

definition controller_message :: "(nat \<Rightarrow> nat) \<Rightarrow> int \<Rightarrow> rx \<Rightarrow> bcast \<Rightarrow> bcast res" where
  "controller_message slack client_fd r s =
     (if client_fd = - 1 then Inr s
      else case recv_upto (MAX_BUFSIZE - 1) r of
             RxData d \<Rightarrow>
               bindE (store_nul slack MAX_BUFSIZE (length d)) (\<lambda>_.
               bindE (c_str (d @ [NUL]) 0) (\<lambda>buf.
               if c_strneq buf C_MSG_EXIT 4 then Inr (s\<lparr>bc_signal := C_EXIT\<rparr>)
               else if c_strneq buf C_MSG_RESET (length C_MSG_RESET) then Inr (s\<lparr>bc_signal := C_RESET\<rparr>)
               else Inr s))
           | _ \<Rightarrow> Inr s)"

section \<open>The threads\<close>

inductive bcast_step :: "(nat \<Rightarrow> nat) \<Rightarrow> bcast \<Rightarrow> bcast \<Rightarrow> bool" for slack where
  s_reads: "bc_sender s = SRead \<Longrightarrow> length junk = MAX_BUFSIZE \<Longrightarrow> bcast_step slack s (sender_read junk s)"
| s_reads2: "bc_sender s = SRead2 \<Longrightarrow> length junk = MAX_BUFSIZE \<Longrightarrow> bcast_step slack s (sender_read2 junk s)"
| s_clears: "bc_sender s = SClear buf \<Longrightarrow> bcast_step slack s (sender_clear buf s)"
| s_locks: "bc_sender s = SLock buf \<Longrightarrow> bc_mut s = None \<Longrightarrow>
     bcast_step slack s (s\<lparr>bc_mut := Some HSender, bc_sender := SLoop buf 0, bc_mark := bc_out s\<rparr>)"
| s_sends: "bc_sender s = SLoop buf j \<Longrightarrow> sender_send buf j s = Inr t \<Longrightarrow> bcast_step slack s t"
| a_accepts: "bc_acceptor s = AAccept \<Longrightarrow> bcast_step slack s (accept_check client_fd s)"
| a_locks: "bc_acceptor s = ALock fd \<Longrightarrow> bc_mut s = None \<Longrightarrow>
     bcast_step slack s (s\<lparr>bc_mut := Some HAcceptor, bc_acceptor := AAdd fd\<rparr>)"
| a_adds: "bc_acceptor s = AAdd fd \<Longrightarrow> accept_add fd s = Inr t \<Longrightarrow> bcast_step slack s t"
| controls: "controller_message slack client_fd r s = Inr t \<Longrightarrow> bcast_step slack s t"

section \<open>The invariant\<close>

definition bcast_clients :: "bcast \<Rightarrow> int list" where
  "bcast_clients s = slots (bc_fds s) (bc_n s)"

text \<open>
  The array holds the clients; the mutex is held by exactly the thread that is between its lock
  and its unlock; a client that is about to be added has a free slot; the round in progress has
  sent its text to the first \<open>j\<close> clients.
\<close>

definition bcast_inv :: "bcast \<Rightarrow> bool" where
  "bcast_inv s \<longleftrightarrow>
     length (bc_fds s) = MAX_CONNECTIONS \<and> bc_n s \<le> MAX_CONNECTIONS \<and> (\<exists>cs. holds (bc_fds s) cs \<and> length cs = bc_n s) \<and>
     (bc_mut s = Some HSender \<longleftrightarrow> (\<exists>buf j. bc_sender s = SLoop buf j)) \<and>
     (bc_mut s = Some HAcceptor \<longleftrightarrow> (\<exists>fd. bc_acceptor s = AAdd fd)) \<and>
     (bc_acceptor s \<noteq> AAccept \<longrightarrow> bc_n s < MAX_CONNECTIONS) \<and>
     (case bc_sender s of
        SLoop buf j \<Rightarrow> j \<le> bc_n s \<and>
          (\<forall>text. c_str buf 0 = Inr text \<longrightarrow> bc_out s = bc_mark s @ map (\<lambda>fd. Send fd text) (take j (bcast_clients s)))
      | _ \<Rightarrow> True)"

lemma bcast_inv_init: "bcast_init s \<Longrightarrow> bcast_inv s"
  by (auto simp: bcast_init_def bcast_inv_def intro!: exI [of _ "[]"])

lemma controller_message_signal:
  "controller_message slack fd r s = Inr t \<Longrightarrow> \<exists>sig. t = s\<lparr>bc_signal := sig\<rparr>"
proof -
  assume "controller_message slack fd r s = Inr t"
  then have "t = s\<lparr>bc_signal := bc_signal t\<rparr>"
    by (cases "recv_upto (MAX_BUFSIZE - 1) r") (auto simp: controller_message_def bindE_eq_Inr_iff split: if_splits)
  then show ?thesis by blast
qed

lemma bcast_inv_signal [simp]: "bcast_inv (s\<lparr>bc_signal := sig\<rparr>) = bcast_inv s"
  by (auto simp: bcast_inv_def bcast_clients_def split: sender_pc.split)

lemma accept_add_result:
  assumes "bcast_inv s" and "bc_acceptor s = AAdd fd" and "accept_add fd s = Inr t"
    and "holds (bc_fds s) cs" and "length cs = bc_n s"
  shows "t = s\<lparr>bc_fds := (bc_fds s)[bc_n s := Some fd], bc_n := bc_n s + 1, bc_mut := None, bc_acceptor := AAccept\<rparr>"
    and "holds (bc_fds t) (cs @ [fd])"
proof -
  have free: "bc_n s < MAX_CONNECTIONS" "length (bc_fds s) = MAX_CONNECTIONS" using assms(1,2) by (auto simp: bcast_inv_def)
  then have "size_add (bc_n s) 1 = bc_n s + 1" by (simp add: size_add_small MAX_CONNECTIONS_def SIZE_MOD_def)
  with assms(3) free show t: "t = s\<lparr>bc_fds := (bc_fds s)[bc_n s := Some fd], bc_n := bc_n s + 1,
      bc_mut := None, bc_acceptor := AAccept\<rparr>"
    by (simp add: accept_add_def)
  show "holds (bc_fds t) (cs @ [fd])" using holds_snoc [OF assms(4), of fd] assms(5) free by (simp add: t)
qed

lemma sender_send_inv:
  assumes inv: "bcast_inv s" and cs: "holds (bc_fds s) cs" "length cs = bc_n s"
    and pc: "bc_sender s = SLoop buf j" and ret: "sender_send buf j s = Inr t"
  shows "bcast_inv t"
proof (cases "j < bc_n s")
  case True
  with ret obtain body where body: "c_str buf 0 = Inr body"
    and t: "t = s\<lparr>bc_out := bc_out s @ [Send (cs ! j) body], bc_sender := SLoop buf (j + 1)\<rparr>"
    using cs by (auto simp: sender_send_def bindE_eq_Inr_iff)
  have view: "bcast_clients s = cs" using cs by (metis bcast_clients_def slots_holds)
  have "take (Suc j) cs = take j cs @ [cs ! j]" using True cs(2) by (simp add: take_Suc_conv_app_nth)
  with inv pc t body True view show ?thesis by (auto simp: bcast_inv_def bcast_clients_def)
next
  case False
  with inv pc ret show ?thesis by (auto simp: bcast_inv_def sender_send_def)
qed

lemma bcast_inv_step:
  assumes inv: "bcast_inv s" and step: "bcast_step slack s t"
  shows "bcast_inv t"
proof -
  from inv obtain cs where cs: "holds (bc_fds s) cs" "length cs = bc_n s" by (auto simp: bcast_inv_def)
  from step show ?thesis
  proof (cases rule: bcast_step.cases)
    case (s_reads junk)
    with inv show ?thesis by (auto simp: bcast_inv_def sender_read_def bcast_clients_def)
  next
    case (s_reads2 junk)
    with inv show ?thesis by (auto simp: bcast_inv_def sender_read2_def bcast_clients_def Let_def)
  next
    case (s_clears buf)
    with inv show ?thesis by (auto simp: bcast_inv_def sender_clear_def bcast_clients_def)
  next
    case (s_locks buf)
    with inv show ?thesis by (auto simp: bcast_inv_def)
  next
    case (s_sends buf j)
    with sender_send_inv [OF inv cs] show ?thesis by blast
  next
    case (a_accepts fd)
    with inv show ?thesis by (auto simp: bcast_inv_def accept_check_def bcast_clients_def split: sender_pc.splits)
  next
    case (a_locks fd)
    with inv show ?thesis by (auto simp: bcast_inv_def bcast_clients_def split: sender_pc.splits)
  next
    case (a_adds fd)
    have free: "bc_n s < MAX_CONNECTIONS" and mut: "bc_mut s = Some HAcceptor" using inv a_adds(1) by (auto simp: bcast_inv_def)
    note t = accept_add_result [OF inv a_adds cs]
    have "holds ((bc_fds s)[bc_n s := Some fd]) (cs @ [fd])" using t(2) by (simp add: t(1))
    moreover have "\<nexists>buf j. bc_sender s = SLoop buf j" using inv mut by (auto simp: bcast_inv_def)
    ultimately show ?thesis using inv t(1) free cs(2) mut
      by (auto simp: bcast_inv_def intro!: exI [of _ "cs @ [fd]"] split: sender_pc.splits)
  next
    case (controls fd r)
    with controller_message_signal inv show ?thesis by fastforce
  qed
qed

interpretation bcast: invariant_system bcast_init "bcast_step slack" bcast_inv
  by unfold_locales (auto intro: bcast_inv_init bcast_inv_step)

section \<open>Properties\<close>

lemma sprintf_zu_str:
  assumes "n < SIZE_MOD"
  shows "c_str (sprintf_zu junk n) 0 = Inr (dec n)"
proof -
  have "NUL \<notin> set (dec n)" using dec_digits [of n] by (auto simp: c_isdigit_def byte_def)
  from c_str_terminated [OF this] show ?thesis by (simp add: sprintf_zu_def buf_write_def)
qed

text \<open>
  C11: whatever the other threads do, when the sender's loop has reached the number of connections it
  has sent the round's text to every client that is in the array exactly once, in order, and
  nothing else since it took the mutex; the number of clients never exceeds the five slots.
\<close>

theorem broadcast_round_complete:
  assumes "reach bcast_init (bcast_step slack) s" and "bc_sender s = SLoop buf (bc_n s)" and "c_str buf 0 = Inr body"
  shows "bc_out s = bc_mark s @ map (\<lambda>fd. Send fd body) (bcast_clients s) \<and> length (bcast_clients s) \<le> 5"
proof -
  from bcast.reach_inv [OF assms(1)] have inv: "bcast_inv s" .
  then obtain cs where "holds (bc_fds s) cs" "length cs = bc_n s" by (auto simp: bcast_inv_def)
  then have "bcast_clients s = cs" "length cs = bc_n s" by (metis bcast_clients_def slots_holds)+
  with inv assms(2,3) show ?thesis by (auto simp: bcast_inv_def MAX_CONNECTIONS_def)
qed

text \<open>
  The run of the witnesses: one client is connected and the first round has sent to it.
\<close>

definition bcast_demo :: "sender_pc \<Rightarrow> holder option \<Rightarrow> nat \<Rightarrow> io list \<Rightarrow> bcast" where
  "bcast_demo pc m k out = \<lparr>bc_fds = [Some 9, None, None, None, None], bc_n = 1, bc_signal = C_NO_SIGNAL, bc_counter = k,
     bc_mut = m, bc_sender = pc, bc_acceptor = AAccept, bc_out = out, bc_mark = []\<rparr>"

definition zeros :: "char list" where "zeros = replicate MAX_BUFSIZE NUL"

lemma bcast_demo_reach_client: "reach bcast_init (bcast_step slack) (bcast_demo SRead None 0 [])"
proof -
  let ?i = "(bcast_demo SRead None 0 [])\<lparr>bc_fds := replicate 5 None, bc_n := 0\<rparr>"
  have i: "bcast_init ?i" by (simp add: bcast_init_def bcast_demo_def MAX_CONNECTIONS_def)
  let ?l = "?i\<lparr>bc_acceptor := ALock 9\<rparr>" and ?a = "?i\<lparr>bc_acceptor := AAdd 9, bc_mut := Some HAcceptor\<rparr>"
  have "bcast_step slack ?i ?l"
    using a_accepts [of ?i slack 9] by (simp add: accept_check_def bcast_demo_def MAX_CONNECTIONS_def)
  with reach_init [of bcast_init, OF i] have l: "reach bcast_init (bcast_step slack) ?l" by (rule reach_step)
  have "bcast_step slack ?l ?a"
    using a_locks [of ?l 9 slack] by (simp add: bcast_demo_def)
  with l have a: "reach bcast_init (bcast_step slack) ?a" by (rule reach_step)
  have five: "replicate 5 (None :: int option) = [None, None, None, None, None]" by (simp add: eval_nat_numeral)
  have "accept_add 9 ?a = Inr (bcast_demo SRead None 0 [])"
    by (simp add: accept_add_def bcast_demo_def size_add_def SIZE_MOD_def five)
  from a_adds [OF _ this, of slack] have "bcast_step slack ?a (bcast_demo SRead None 0 [])"
    by (simp add: bcast_demo_def)
  with a show ?thesis by (rule reach_step)
qed

lemma bcast_demo_reach_round:
  "reach bcast_init (bcast_step slack) (bcast_demo (SLoop (sprintf_zu zeros 0) 1) (Some HSender) 1 [Send 9 ''0''])"
proof -
  have z: "length zeros = MAX_BUFSIZE" by (simp add: zeros_def)
  let ?buf = "sprintf_zu zeros 0"
  let ?d = bcast_demo
  have "bcast_step slack (?d SRead None 0 []) (?d SRead2 None 0 [])"
    using s_reads [OF _ z, of "?d SRead None 0 []" slack]
    by (simp add: bcast_demo_def sender_read_def C_NO_SIGNAL_def C_EXIT_def)
  with bcast_demo_reach_client have 1: "reach bcast_init (bcast_step slack) (?d SRead2 None 0 [])" by (rule reach_step)
  have "bcast_step slack (?d SRead2 None 0 []) (?d (SClear ?buf) None 1 [])"
    using s_reads2 [OF _ z, of "?d SRead2 None 0 []" slack]
    by (simp add: bcast_demo_def sender_read2_def C_NO_SIGNAL_def C_RESET_def size_add_def SIZE_MOD_def)
  with 1 have 2: "reach bcast_init (bcast_step slack) (?d (SClear ?buf) None 1 [])" by (rule reach_step)
  have "bcast_step slack (?d (SClear ?buf) None 1 []) (?d (SLock ?buf) None 1 [])"
    using s_clears [of "?d (SClear ?buf) None 1 []" ?buf slack] by (simp add: bcast_demo_def sender_clear_def)
  with 2 have 3: "reach bcast_init (bcast_step slack) (?d (SLock ?buf) None 1 [])" by (rule reach_step)
  have "bcast_step slack (?d (SLock ?buf) None 1 []) (?d (SLoop ?buf 0) (Some HSender) 1 [])"
    using s_locks [of "?d (SLock ?buf) None 1 []" ?buf slack] by (simp add: bcast_demo_def)
  with 3 have 4: "reach bcast_init (bcast_step slack) (?d (SLoop ?buf 0) (Some HSender) 1 [])" by (rule reach_step)
  have "c_str ?buf 0 = Inr ''0''" using sprintf_zu_str [of 0 zeros] by (simp add: SIZE_MOD_def dec.simps char_of_def bit_0)
  then have "sender_send ?buf 0 (?d (SLoop ?buf 0) (Some HSender) 1 []) = Inr (?d (SLoop ?buf 1) (Some HSender) 1 [Send 9 ''0''])"
    by (simp add: sender_send_def bcast_demo_def aread_def)
  from s_sends [OF _ this, of slack] have "bcast_step slack (?d (SLoop ?buf 0) (Some HSender) 1 [])
      (?d (SLoop ?buf 1) (Some HSender) 1 [Send 9 ''0''])" by (simp add: bcast_demo_def)
  with 4 show ?thesis by (rule reach_step)
qed

theorem broadcast_round_complete_witness:
  "bc_out (bcast_demo (SLoop (sprintf_zu zeros 0) 1) (Some HSender) 1 [Send 9 ''0'']) = [] @ map (\<lambda>fd. Send fd ''0'') [9]"
proof -
  let ?s = "bcast_demo (SLoop (sprintf_zu zeros 0) 1) (Some HSender) 1 [Send 9 ''0'']"
  have "c_str (sprintf_zu zeros 0) 0 = Inr ''0''"
    using sprintf_zu_str [of 0 zeros] by (simp add: SIZE_MOD_def dec.simps char_of_def bit_0)
  from broadcast_round_complete [OF bcast_demo_reach_round [of "\<lambda>_. 0"] _ this]
  have "bc_out ?s = bc_mark ?s @ map (\<lambda>fd. Send fd ''0'') (bcast_clients ?s)" by (simp add: bcast_demo_def)
  then show ?thesis by (simp add: bcast_demo_def bcast_clients_def slots_def)
qed

text \<open>
  Steps during which no message of a controller takes effect: whoever changes the signal is the
  sender, which changes its program point.
\<close>

definition quiet_step :: "(nat \<Rightarrow> nat) \<Rightarrow> bcast \<Rightarrow> bcast \<Rightarrow> bool" where
  "quiet_step slack s t \<longleftrightarrow> bcast_step slack s t \<and> (bc_signal t = bc_signal s \<or> bc_sender t \<noteq> bc_sender s)"

lemma quiet_steps: "(quiet_step slack)\<^sup>*\<^sup>* s t \<Longrightarrow> (bcast_step slack)\<^sup>*\<^sup>* s t"
  by (induction rule: rtranclp_induct) (auto simp: quiet_step_def)






text \<open>
  A reset that is still set when the sender reads it restarts the counter: the round sends "0" and
  the next number is 1. Without a signal the round sends the counter and increments it.
\<close>

lemma reset_restarts_counter:
  assumes "bc_signal s = C_RESET"
  shows "bc_sender (sender_read2 junk (sender_read junk' s)) = SClear (sprintf_zu junk 0) \<and>
    c_str (sprintf_zu junk 0) 0 = Inr (dec 0) \<and> bc_counter (sender_read2 junk (sender_read junk' s)) = 1"
  using assms sprintf_zu_str [of 0 junk]
  by (simp add: sender_read_def sender_read2_def C_RESET_def C_EXIT_def size_add_def SIZE_MOD_def Let_def)

text \<open>What the clients receive for the exit signal: "exit" and whatever the buffer held behind it.\<close>

lemma exit_text_prefix:
  assumes "c_str (strncpy_exit junk) 0 = Inr m"
  shows "take 4 m = ''exit''"
  using assms by (auto simp: strncpy_exit_def buf_write_def C_MSG_EXIT_def c_str_def split: if_splits)

lemma exit_text_unterminated: "NUL \<notin> set junk \<Longrightarrow> c_str (strncpy_exit junk) 0 = Inl OutOfBounds"
  by (auto simp: strncpy_exit_def buf_write_def C_MSG_EXIT_def c_str_def dest: in_set_dropD)

end
