(* ===== verification/Retry_Clients.thy ===== *)
theory Retry_Clients
  imports Broadcast_Server Net_Setup
begin

text \<open>
  The clients that reconnect: \<^verbatim>\<open>networking/inte_server_broadcast_with_controller/client.c\<close>,
  \<^verbatim>\<open>networking/inet_server_broadcast/src/client.c\<close> and
  \<^verbatim>\<open>networking/c_client_go_server_tcp/client.c\<close>. A run is a list of tries, each with what
  \<open>socket\<close> and \<open>connect\<close> return and what happens on the connection. When the list is used up the client
  is still running, and when the results of \<open>recv\<close> on a connection are used up it waits in \<open>recv\<close>: a server
  that keeps the connection open and sends nothing blocks it.
\<close>

section \<open>Tries and outcomes\<close>

record try_result =
  tr_socket :: int
  tr_connect :: int
  tr_rx :: "rx list"

text \<open>How a connection stands: the client waits in \<open>recv\<close>, has left the loop, or was told to stop.\<close>

datatype session_end = Waits | Ends | Stops

datatype outcome =
    Running nat     \<comment> \<open>with the attempt counter\<close>
  | GaveUp          \<comment> \<open>too many attempts\<close>
  | ShutDown        \<comment> \<open>the exit message was received\<close>
  | Failed          \<comment> \<open>\<open>exit (EXIT_FAILURE)\<close>\<close>

section \<open>The client of the broadcast server with controller\<close>

text \<open>
  The inner loop, which \<open>goto\<close> leaves when the exit message is received, and the attempt counter.
\<close>

fun bc_session :: "(nat \<Rightarrow> nat) \<Rightarrow> rx list \<Rightarrow> nat \<Rightarrow> (session_end \<times> nat) res" where
  "bc_session slack [] attempt = Inr (Waits, attempt)"
| "bc_session slack (r # rs) attempt =
     (case recv_upto MAX_BUFSIZE r of
        RxData d \<Rightarrow>
          bindE (store_nul slack MAX_BUFSIZE (length d)) (\<lambda>_.
          bindE (c_str (d @ [NUL]) 0) (\<lambda>buf.
          if c_strneq buf C_MSG_EXIT 4 then Inr (Stops, 0) else bc_session slack rs 0))
      | _ \<Rightarrow> Inr (Ends, attempt))"

definition BC_MAX_ATTEMPTS :: nat where "BC_MAX_ATTEMPTS = 5"

fun bc_client :: "(nat \<Rightarrow> nat) \<Rightarrow> try_result list \<Rightarrow> nat \<Rightarrow> outcome res" where
  "bc_client slack [] attempt = Inr (Running attempt)"
| "bc_client slack (t # ts) attempt =
     (if tr_socket t = - 1 then Inr Failed
      else bindE (if tr_connect t = - 1 then Inr (Ends, attempt) else bc_session slack (tr_rx t) attempt) (\<lambda>(e, attempt).
           case e of
             Stops \<Rightarrow> Inr ShutDown
           | Waits \<Rightarrow> Inr (Running attempt)
           | Ends \<Rightarrow> if BC_MAX_ATTEMPTS \<le> attempt then Inr GaveUp else bc_client slack ts (attempt + 1)))"

text \<open>\<open>main\<close>: the address is only compared with -1.\<close>

definition bc_main :: "(nat \<Rightarrow> nat) \<Rightarrow> try_result list \<Rightarrow> outcome res" where
  "bc_main slack ts = (if inet_pton_ret LOCAL_IP = - 1 then Inr Failed else bc_client slack ts 0)"

section \<open>The client of the counter broadcast\<close>

text \<open>
  A failed \<open>connect\<close> is only reported: \<open>recv\<close> is called all the same (on a socket that is not connected it fails,
  so such a try has a result in \<open>tr_rx\<close>).
\<close>

fun ic_session :: "(nat \<Rightarrow> nat) \<Rightarrow> rx list \<Rightarrow> nat \<Rightarrow> (session_end \<times> nat) res" where
  "ic_session slack [] n_retries = Inr (Waits, n_retries)"
| "ic_session slack (r # rs) n_retries =
     (case recv_upto 1024 r of
        RxData d \<Rightarrow> bindE (store_nul slack 1024 (length d)) (\<lambda>_. ic_session slack rs 0)
      | _ \<Rightarrow> Inr (Ends, n_retries))"

fun ic_client :: "(nat \<Rightarrow> nat) \<Rightarrow> try_result list \<Rightarrow> nat \<Rightarrow> outcome res" where
  "ic_client slack [] n_retries = Inr (Running n_retries)"
| "ic_client slack (t # ts) n_retries =
     (if tr_socket t = - 1 then Inr Failed
      else bindE (ic_session slack (tr_rx t) n_retries) (\<lambda>(e, n_retries).
           if e = Waits then Inr (Running n_retries)
           else if n_retries < 5 then ic_client slack ts (n_retries + 1) else Inr GaveUp))"

definition ic_main :: "(nat \<Rightarrow> nat) \<Rightarrow> try_result list \<Rightarrow> outcome res" where
  "ic_main slack ts = (if inet_pton_ret LOCAL_IP = - 1 then Inr Failed else ic_client slack ts 0)"

section \<open>The client of the Go server\<close>

text \<open>
  A round of the inner loop sends a numbered message and receives an answer into the same buffer,
  which is then printed as a string. \<open>junk\<close> is what the buffer holds at first, a round is the
  result of \<open>send\<close> and of \<open>recv\<close>. The result has the messages handed to \<open>send\<close> and
  the attempt counter; after the last round of the list the client has sent a message and waits
  for its answer.
\<close>

definition go_message :: "nat \<Rightarrow> string" where
  "go_message n = ''message '' @ dec n @ [NEWLINE]"

fun go_session :: "char list \<Rightarrow> (int \<times> rx) list \<Rightarrow> nat \<Rightarrow> nat \<Rightarrow> (string list \<times> session_end \<times> nat) res" where
  "go_session junk [] counter attempt =
     bindE (c_str (buf_write junk (go_message counter @ [NUL])) 0) (\<lambda>msg. Inr ([msg], Waits, attempt))"
| "go_session junk ((n, r) # rounds) counter attempt =
     (let buf = buf_write junk (go_message counter @ [NUL])
      in bindE (c_str buf 0) (\<lambda>msg.
         if \<not> 0 < n then Inr ([msg], Ends, attempt)
         else case recv_upto (length junk) r of
                RxData d \<Rightarrow>
                  bindE (c_str (buf_write buf d) 0) (\<lambda>_.
                  bindE (go_session junk rounds (size_add counter 1) 0) (\<lambda>(msgs, e, attempt). Inr (msg # msgs, e, attempt)))
              | _ \<Rightarrow> Inr ([msg], Ends, attempt)))"

record go_try =
  gt_socket :: int
  gt_connect :: int
  gt_rounds :: "(int \<times> rx) list"

fun go_client :: "char list \<Rightarrow> go_try list \<Rightarrow> nat \<Rightarrow> (string list \<times> outcome) res" where
  "go_client junk [] attempt = Inr ([], Running attempt)"
| "go_client junk (t # ts) attempt =
     (if gt_socket t = - 1 then Inr ([], Failed)
      else bindE (if gt_connect t = - 1 then Inr ([], Ends, attempt) else go_session junk (gt_rounds t) 0 attempt) (\<lambda>(sent, e, attempt).
           if e = Waits then Inr (sent, Running attempt)
           else if attempt \<le> 5
           then bindE (go_client junk ts (attempt + 1)) (\<lambda>(msgs, out). Inr (sent @ msgs, out))
           else Inr (sent, GaveUp)))"

definition go_main :: "char list \<Rightarrow> go_try list \<Rightarrow> (string list \<times> outcome) res" where
  "go_main junk ts = (if inet_pton_ret LOCAL_IP \<le> 0 then Inr ([], Failed) else go_client junk ts 0)"

lemmas client_mains = bc_main_def ic_main_def go_main_def

section \<open>Giving up\<close>

text \<open>
  A try that ends without any data: the connection is refused, or it is closed or fails at the first
  \<open>recv\<close>. The Go client may have sent its first message by then.
\<close>

definition no_data :: "rx \<Rightarrow> bool" where
  "no_data r \<longleftrightarrow> (case r of RxData d \<Rightarrow> d = [] | _ \<Rightarrow> True)"

lemma no_data_recv: "no_data r \<Longrightarrow> recv_upto n r \<noteq> RxData d"
  by (cases r) (auto simp: no_data_def)

definition fruitless :: "try_result \<Rightarrow> bool" where
  "fruitless t \<longleftrightarrow> tr_socket t \<noteq> - 1 \<and> (\<exists>r rs. tr_rx t = r # rs \<and> no_data r)"

definition go_fruitless :: "go_try \<Rightarrow> bool" where
  "go_fruitless t \<longleftrightarrow> gt_socket t \<noteq> - 1 \<and>
     (gt_connect t \<noteq> - 1 \<longrightarrow> (\<exists>n r rs. gt_rounds t = (n, r) # rs \<and> (n \<le> 0 \<or> no_data r)))"

text \<open>A try on a connection that stays open and silent.\<close>

definition open_silent :: "try_result \<Rightarrow> bool" where
  "open_silent t \<longleftrightarrow> tr_socket t \<noteq> - 1 \<and> tr_connect t \<noteq> - 1 \<and> tr_rx t = []"

lemma fruitless_bc_session: "fruitless t \<Longrightarrow> bc_session slack (tr_rx t) a = Inr (Ends, a)"
  using no_data_recv by (auto simp: fruitless_def split: rx.split)

lemma fruitless_ic_session: "fruitless t \<Longrightarrow> ic_session slack (tr_rx t) a = Inr (Ends, a)"
  using no_data_recv by (auto simp: fruitless_def split: rx.split)

lemma go_message_str:
  assumes "n < 10"
  shows "c_str (buf_write junk (go_message n @ [NUL])) 0 = Inr (go_message n)"
proof -
  have "NUL \<notin> set (dec n)" using dec_digits [of n] by (auto simp: c_isdigit_def byte_def)
  then have "NUL \<notin> set (go_message n)" by (auto simp: go_message_def byte_def)
  from c_str_terminated [OF this] show ?thesis by (simp add: buf_write_def)
qed

lemma go_fruitless_session:
  assumes "go_fruitless t" and "gt_connect t \<noteq> - 1"
  shows "go_session junk (gt_rounds t) 0 a = Inr ([go_message 0], Ends, a)"
  using assms no_data_recv go_message_str [of 0 junk] by (auto simp: go_fruitless_def split: rx.split)

lemma bc_client_fruitless:
  "\<forall>t\<in>set ts. fruitless t \<Longrightarrow> a + length ts \<le> 5 \<Longrightarrow> bc_client slack (ts @ us) a = bc_client slack us (a + length ts)"
proof (induction ts arbitrary: a)
  case (Cons t ts)
  then show ?case using fruitless_bc_session [of t slack a] by (auto simp: fruitless_def BC_MAX_ATTEMPTS_def)
qed simp

lemma ic_client_fruitless:
  "\<forall>t\<in>set ts. fruitless t \<Longrightarrow> a + length ts \<le> 5 \<Longrightarrow> ic_client slack (ts @ us) a = ic_client slack us (a + length ts)"
proof (induction ts arbitrary: a)
  case (Cons t ts)
  then show ?case using fruitless_ic_session [of t slack a] by (auto simp: fruitless_def)
qed simp

lemma clients_sixth_try:
  assumes "fruitless t"
  shows "bc_client slack (t # ts) 5 = Inr GaveUp" and "ic_client slack (t # ts) 5 = Inr GaveUp"
  using assms fruitless_bc_session [OF assms, of slack 5] fruitless_ic_session [OF assms, of slack 5]
  by (auto simp: fruitless_def BC_MAX_ATTEMPTS_def)

text \<open>The messages the Go client hands to \<open>send\<close> on tries without an answer: the first one of every connection.\<close>

definition go_first_messages :: "go_try list \<Rightarrow> string list" where
  "go_first_messages ts = map (\<lambda>_. go_message 0) (filter (\<lambda>t. gt_connect t \<noteq> - 1) ts)"

lemma go_client_fruitless:
  "\<forall>t\<in>set ts. go_fruitless t \<Longrightarrow> a \<le> 6 \<Longrightarrow>
     go_client junk ts a = Inr (go_first_messages (take (7 - a) ts), if a + length ts \<le> 6 then Running (a + length ts) else GaveUp)"
proof (induction ts arbitrary: a)
  case (Cons t ts)
  have t: "gt_socket t \<noteq> - 1" using Cons.prems(1) by (simp add: go_fruitless_def)
  have s: "go_session junk (gt_rounds t) 0 a = Inr ([go_message 0], Ends, a)" if "gt_connect t \<noteq> - 1"
    using go_fruitless_session [OF _ that] Cons.prems(1) by simp
  show ?case
  proof (cases "a = 6")
    case True
    with t s show ?thesis by (simp add: go_first_messages_def)
  next
    case False
    with Cons.prems(2) have "a + 1 \<le> 6" "7 - a = Suc (7 - (a + 1))" by simp_all
    with Cons.IH [of "a + 1"] Cons.prems(1) t s show ?thesis by (simp add: go_first_messages_def)
  qed
qed (simp add: go_first_messages_def)

text \<open>
  C31: when every try ends without data (the connection is refused, or closed or broken before
  anything is received) the three clients try a bounded number of times and then give up: the
  broadcast clients after six tries, the Go client after seven, because it compares its counter with
  \<open><=\<close>; the Go client has sent its message number 0 on every connection it got. A server that
  accepts and stays silent is another matter: the broadcast clients then wait in \<open>recv\<close> for ever,
  whatever number of tries they have left.
\<close>

theorem clients_give_up:
  assumes "\<forall>t\<in>set ts. fruitless t" and "\<forall>t\<in>set gs. go_fruitless t" and "\<forall>t\<in>set qs. fruitless t"
    and "length qs \<le> 5" and "open_silent q"
  shows "bc_main slack ts = Inr (if length ts < 6 then Running (length ts) else GaveUp) \<and>
    ic_main slack ts = Inr (if length ts < 6 then Running (length ts) else GaveUp) \<and>
    go_main junk gs = Inr (go_first_messages (take 7 gs), if length gs < 7 then Running (length gs) else GaveUp) \<and>
    bc_main slack (qs @ q # rest) = Inr (Running (length qs)) \<and> ic_main slack (qs @ q # rest) = Inr (Running (length qs))"
proof -
  have two: "bc_client slack ts 0 = Inr (if length ts < 6 then Running (length ts) else GaveUp) \<and>
    ic_client slack ts 0 = Inr (if length ts < 6 then Running (length ts) else GaveUp)"
  proof (cases "length ts < 6")
    case True
    with bc_client_fruitless [OF assms(1), of 0 slack "[]"] ic_client_fruitless [OF assms(1), of 0 slack "[]"]
    show ?thesis by simp
  next
    case False
    then obtain t us where d: "drop 5 ts = t # us" by (cases "drop 5 ts") auto
    then have "fruitless t" using assms(1) by (metis in_set_dropD list.set_intros(1))
    note six = clients_sixth_try [OF this, of slack us]
    have h: "\<forall>t\<in>set (take 5 ts). fruitless t" using assms(1) by (meson in_set_takeD)
    have "ts = take 5 ts @ t # us" by (metis append_take_drop_id d)
    with bc_client_fruitless [OF h, of 0 slack "t # us"] ic_client_fruitless [OF h, of 0 slack "t # us"] six False
    show ?thesis by simp
  qed
  have "bc_client slack (q # rest) n = Inr (Running n)" "ic_client slack (q # rest) n = Inr (Running n)" for n
    using assms(5) by (simp_all add: open_silent_def)
  with two bc_client_fruitless [OF assms(3), of 0 slack "q # rest"] ic_client_fruitless [OF assms(3), of 0 slack "q # rest"]
    go_client_fruitless [OF assms(2), of 0 junk] assms(4)
  show ?thesis by (simp add: client_mains less_Suc_eq_le)
qed

theorem clients_give_up_witness:
  "bc_main (\<lambda>_. 0) (replicate 6 \<lparr>tr_socket = 3, tr_connect = - 1, tr_rx = [RxErr]\<rparr>) = Inr GaveUp \<and>
   go_main [] (\<lparr>gt_socket = 3, gt_connect = 0, gt_rounds = [(10, RxEof)]\<rparr> #
     replicate 6 \<lparr>gt_socket = 3, gt_connect = - 1, gt_rounds = []\<rparr>) = Inr ([''message 0'' @ [NEWLINE]], GaveUp) \<and>
   ic_main (\<lambda>_. 0) [\<lparr>tr_socket = 3, tr_connect = 0, tr_rx = [RxEof]\<rparr>, \<lparr>tr_socket = 3, tr_connect = 0, tr_rx = []\<rparr>] =
     Inr (Running 1)"
proof -
  have "dec 0 = ''0''" by (simp add: dec.simps char_of_def bit_0)
  then show ?thesis
    using clients_give_up [of "replicate 6 \<lparr>tr_socket = 3, tr_connect = - 1, tr_rx = [RxErr]\<rparr>"
      "\<lparr>gt_socket = 3, gt_connect = 0, gt_rounds = [(10, RxEof)]\<rparr> # replicate 6 \<lparr>gt_socket = 3, gt_connect = - 1, gt_rounds = []\<rparr>"
      "[\<lparr>tr_socket = 3, tr_connect = 0, tr_rx = [RxEof]\<rparr>]" "\<lparr>tr_socket = 3, tr_connect = 0, tr_rx = []\<rparr>" "\<lambda>_. 0" "[]" "[]"]
    by (simp add: fruitless_def go_fruitless_def open_silent_def no_data_def go_first_messages_def go_message_def)
qed

section \<open>The exit signal\<close>

text \<open>A client that receives the text of an exit round in one piece.\<close>

lemma exit_text_stops_client:
  assumes "length junk = MAX_BUFSIZE" and "c_str (strncpy_exit junk) 0 = Inr m"
    and "tr_socket t \<noteq> - 1" and "tr_connect t \<noteq> - 1" and "tr_rx t = RxData m # rs"
  shows "bc_client slack (t # ts) attempt = Inr ShutDown"
proof -
  have p: "take 4 m = ''exit''" using assms(2) by (rule exit_text_prefix)
  have "length m < length (strncpy_exit junk)" using c_str_length [OF assms(2)] by simp
  then have len: "length m < MAX_BUFSIZE" using assms(1) by (simp add: strncpy_exit_def MAX_BUFSIZE_def C_MSG_EXIT_def)
  have "c_str (m @ [NUL]) 0 = Inr m" using c_str_terminated [OF c_str_no_NUL [OF assms(2)], of "[]"] by simp
  moreover have "m \<noteq> []" using p by auto
  ultimately have "bc_session slack (tr_rx t) attempt = Inr (Stops, 0)"
    using assms(5) len p by (simp add: c_strneq_def C_MSG_EXIT_def)
  with assms(3,4) show ?thesis by simp
qed

text \<open>
  the exit signal reaches the clients: whatever the sender's buffer held before, if the text
  the sender measures in it ends within the buffer, a client that receives it in one piece shuts
  down, because it compares the first four characters only.
\<close>

theorem exit_signal_stops_client:
  assumes "length junk = MAX_BUFSIZE" and "c_str (strncpy_exit junk) 0 = Inr m"
    and "tr_socket t \<noteq> - 1" and "tr_connect t \<noteq> - 1" and "tr_rx t = RxData m # rs"
  shows "bc_client slack (t # ts) attempt = Inr ShutDown"
  using assms by (rule exit_text_stops_client)

theorem exit_signal_stops_client_witness:
  "bc_client (\<lambda>_. 0) [\<lparr>tr_socket = 3, tr_connect = 0, tr_rx = [RxData ''exit5'']\<rparr>] 2 = Inr ShutDown"
proof -
  let ?junk = "''12345'' @ replicate 1019 NUL"
  have "c_str (strncpy_exit ?junk) 0 = Inr ''exit5''"
    by (simp add: strncpy_exit_def buf_write_def C_MSG_EXIT_def c_str_def)
  then show ?thesis by (intro exit_signal_stops_client [of ?junk]) (simp_all add: MAX_BUFSIZE_def)
qed

section \<open>The chat client\<close>

text \<open>
  \<^verbatim>\<open>networking/epoll_chat_server/client.c\<close>: the receiver thread prints every message from a cleared
  buffer of 1024 bytes, all of which \<open>recv\<close> may fill; the result is what it prints. An error is
  reported and the loop goes on.
\<close>

fun receive_message :: "rx list \<Rightarrow> string list res" where
  "receive_message [] = Inr []"
| "receive_message (r # rs) =
     (case recv_upto 1024 r of
        RxData d \<Rightarrow>
          bindE (c_str (buf_write (replicate 1024 NUL) d) 0) (\<lambda>m.
          bindE (receive_message rs) (\<lambda>ms. Inr (m # ms)))
      | RxEof \<Rightarrow> Inr []
      | _ \<Rightarrow> receive_message rs)"

text \<open>
  A call of \<open>scanf ("%s")\<close> on the text that has been typed: it skips white space and takes the characters up to
  the next white space, which it leaves there. \<open>None\<close>: it still waits, since a word may go on.
\<close>

definition scan_word :: "string \<Rightarrow> (string \<times> string) option" where
  "scan_word inp =
     (let inp = dropWhile c_isspace inp; rest = dropWhile (\<lambda>c. \<not> c_isspace c) inp
      in if rest = [] then None else Some (takeWhile (\<lambda>c. \<not> c_isspace c) inp, rest))"

text \<open>The word is stored, with its terminator, in 1024 bytes, and what \<open>strlen\<close> finds there is sent.\<close>

definition chat_client_send :: "(nat \<Rightarrow> nat) \<Rightarrow> int \<Rightarrow> string \<Rightarrow> io list res" where
  "chat_client_send slack cs word =
     bindE (sprintf_fits slack 1024 word) (\<lambda>_.
     bindE (c_str (word @ [NUL]) 0) (\<lambda>buf. Inr [Send cs buf]))"

lemma scan_word_shorter:
  assumes "scan_word inp = Some (w, rest)"
  shows "length rest < length inp"
proof -
  let ?inp = "dropWhile c_isspace inp"
  from assms have r: "rest = dropWhile (\<lambda>c. \<not> c_isspace c) ?inp" "rest \<noteq> []"
    by (auto simp: scan_word_def Let_def split: if_splits)
  then obtain c cs where c: "?inp = c # cs" by (cases ?inp) auto
  then have "\<not> c_isspace c" by (metis hd_dropWhile list.distinct(1) list.sel(1))
  with r c have "length rest \<le> length cs" by (simp add: length_dropWhile_le)
  moreover have "length ?inp \<le> length inp" by (rule length_dropWhile_le)
  ultimately show ?thesis using c by simp
qed

text \<open>The loop of \<open>main\<close> over the text typed so far; a \<open>send\<close> that fails is only reported.\<close>

function chat_client_loop :: "(nat \<Rightarrow> nat) \<Rightarrow> int \<Rightarrow> string \<Rightarrow> io list res" where
  "chat_client_loop slack cs inp =
     (case scan_word inp of
        None \<Rightarrow> Inr []
      | Some (word, rest) \<Rightarrow>
          bindE (chat_client_send slack cs word) (\<lambda>es.
          bindE (chat_client_loop slack cs rest) (\<lambda>es'. Inr (es @ es'))))"
  by pat_completeness auto

termination
  by (relation "measure (\<lambda>(_, _, inp). length inp)") (auto dest: scan_word_shorter)

declare chat_client_loop.simps [simp del]

text \<open>
  \<open>main\<close>: the argument is sent as the first message, then every word of the text \<open>inp\<close> that has been
  typed. \<open>None\<close> is \<open>exit (EXIT_FAILURE)\<close>. (At the end of the input \<open>scanf\<close> fails, and the loop goes on
  sending the cleared buffer, which are no bytes.)
\<close>

definition chat_client_main :: "(nat \<Rightarrow> nat) \<Rightarrow> string list \<Rightarrow> sys_results \<Rightarrow> string \<Rightarrow> io list option res" where
  "chat_client_main slack argv ret inp =
     (if length argv \<noteq> 2 then Inr None
      else if \<not> snd (chat_client_setup ret) then Inr None
      else bindE (chat_client_loop slack (ret Socket) inp) (\<lambda>out. Inr (Some (Send (ret Socket) (argv ! 1) # out))))"

text \<open>The words of a text that are followed by white space; \<open>cur\<close> is the beginning of the current one.\<close>

fun typed_words :: "string \<Rightarrow> string \<Rightarrow> string list" where
  "typed_words cur [] = []"
| "typed_words cur (c # cs) =
     (if c_isspace c then (if cur = [] then [] else [cur]) @ typed_words [] cs else typed_words (cur @ [c]) cs)"

lemma typed_words_skip: "typed_words [] (dropWhile c_isspace inp) = typed_words [] inp"
  by (induction inp) auto

lemma typed_words_take:
  "cur @ takeWhile (\<lambda>c. \<not> c_isspace c) inp \<noteq> [] \<Longrightarrow> typed_words cur inp =
     (if dropWhile (\<lambda>c. \<not> c_isspace c) inp = [] then []
      else (cur @ takeWhile (\<lambda>c. \<not> c_isspace c) inp) # typed_words [] (dropWhile (\<lambda>c. \<not> c_isspace c) inp))"
  by (induction inp arbitrary: cur) auto

lemma typed_words_scan:
  "typed_words [] inp = (case scan_word inp of None \<Rightarrow> [] | Some (w, rest) \<Rightarrow> w # typed_words [] rest)"
proof (cases "dropWhile c_isspace inp")
  case Nil
  have "scan_word inp = None" unfolding scan_word_def Let_def Nil by simp
  moreover have "typed_words [] inp = []" using typed_words_skip [of inp] unfolding Nil by simp
  ultimately show ?thesis by simp
next
  case (Cons c cs)
  then have "\<not> c_isspace c" by (metis hd_dropWhile list.distinct(1) list.sel(1))
  with typed_words_take [of "[]" "c # cs"] typed_words_skip [of inp] show ?thesis
    unfolding scan_word_def Let_def Cons by (auto split: if_splits)
qed

lemma chat_client_loop_sends:
  "\<forall>w\<in>set (typed_words [] inp). length w < 1024 \<and> NUL \<notin> set w \<Longrightarrow>
     chat_client_loop slack cs inp = Inr (map (Send cs) (typed_words [] inp))"
proof (induction inp rule: length_induct)
  case (1 inp)
  show ?case
  proof (cases "scan_word inp")
    case None
    with typed_words_scan [of inp] show ?thesis by (simp add: chat_client_loop.simps)
  next
    case (Some p)
    then obtain w rest where p: "scan_word inp = Some (w, rest)" by (cases p) simp
    with typed_words_scan [of inp] have t: "typed_words [] inp = w # typed_words [] rest" by simp
    have "chat_client_send slack cs w = Inr [Send cs w]"
      using "1.prems" t c_str_terminated [of w "[]"] by (simp add: chat_client_send_def sprintf_fits_def)
    with "1.IH" "1.prems" scan_word_shorter [OF p] p t show ?thesis by (simp add: chat_client_loop.simps [of _ _ inp])
  qed
qed

lemma chat_client_main_sends:
  assumes "snd (chat_client_setup ret)" and "\<forall>w\<in>set (typed_words [] inp). length w < 1024 \<and> NUL \<notin> set w"
  shows "chat_client_main slack [prog, name] ret inp = Inr (Some (map (Send (ret Socket)) (name # typed_words [] inp)))"
  using assms by (simp add: chat_client_main_def chat_client_loop_sends)

lemma receive_message_prints:
  "\<forall>d\<in>set ds. d \<noteq> [] \<and> length d < 1024 \<and> NUL \<notin> set d \<Longrightarrow> receive_message (map RxData ds) = Inr ds"
proof (induction ds)
  case (Cons d ds)
  then have d: "d \<noteq> []" "length d < 1024" "NUL \<notin> set d" by auto
  then obtain k where "1024 - length d = Suc k" by (metis Suc_diff_Suc)
  then have "buf_write (replicate 1024 NUL) d = d @ NUL # replicate k NUL" by (simp add: buf_write_def)
  with c_str_terminated [OF d(3)] have "c_str (buf_write (replicate 1024 NUL) d) 0 = Inr d" by simp
  with d Cons show ?case by simp
qed simp

lemma receive_message_full: "length d = 1024 \<Longrightarrow> NUL \<notin> set d \<Longrightarrow> receive_message [RxData d] = Inl OutOfBounds"
  by (cases d) (auto simp: buf_write_def c_str_def)

end
