(* ===== verification/Simple_Servers.thy ===== *)
theory Simple_Servers
  imports Interfaces Net_Setup
begin

text \<open>
  Two small servers: \<^verbatim>\<open>networking/inet_server_broadcast/src/server.c\<close>, which broadcasts a counter that
  another thread increments, and \<^verbatim>\<open>networking/c_server_go_client_tcp/server.c\<close>, which starts a worker
  for each of the first five connections. Neither takes a mutex nor gives a slot back.
\<close>

section \<open>The counter broadcast\<close>

text \<open>The handler: about to format the counter, or sending with a loop index.\<close>

datatype handler_pc = HFormat | HSend string nat

record counter_srv =
  cn_counter :: nat
  cn_fds :: "int blk"
  cn_n :: nat
  cn_pc :: handler_pc
  cn_out :: "io list"
  cn_accepted :: "int list"   \<comment> \<open>history: what \<open>accept\<close> has returned\<close>

definition MAX_CLIENT_FDS :: nat where "MAX_CLIENT_FDS = 10"

text \<open>
  \<open>*(int* )counter += 1\<close> on a \<open>size_t\<close>: the low 32 bits are a signed \<open>int\<close> (two's complement,
  little endian), whose overflow is undefined.
\<close>

definition increment_counter :: "nat \<Rightarrow> nat res" where
  "increment_counter c =
     (let low = c mod 2 ^ 32
      in if int low = INT_MAX then Inl RangeError
         else Inr (c - low + (low + 1) mod 2 ^ 32))"

definition handler_format :: "counter_srv \<Rightarrow> counter_srv" where
  "handler_format s = s\<lparr>cn_pc := HSend (dec (cn_counter s)) 0\<rparr>"

definition handler_send :: "string \<Rightarrow> nat \<Rightarrow> counter_srv \<Rightarrow> counter_srv res" where
  "handler_send buf i s =
     (if i < cn_n s
      then bindE (aread (cn_fds s) i) (\<lambda>fd. Inr (s\<lparr>cn_out := cn_out s @ [Send fd buf], cn_pc := HSend buf (i + 1)\<rparr>))
      else Inr (s\<lparr>cn_pc := HFormat\<rparr>))"

text \<open>A failed \<open>accept\<close> is reported, and its -1 is stored like any descriptor.\<close>

definition counter_accept :: "int \<Rightarrow> counter_srv \<Rightarrow> counter_srv res" where
  "counter_accept cfd s =
     bindE (if cn_n s < MAX_CLIENT_FDS
            then bindE (awrite (cn_fds s) (cn_n s) cfd) (\<lambda>b. Inr (s\<lparr>cn_fds := b, cn_n := size_add (cn_n s) 1\<rparr>))
            else Inr s) (\<lambda>s. Inr (s\<lparr>cn_accepted := cn_accepted s @ [cfd]\<rparr>))"

definition counter_init :: "counter_srv \<Rightarrow> bool" where
  "counter_init s \<longleftrightarrow> cn_counter s = 0 \<and> cn_fds s = replicate MAX_CLIENT_FDS None \<and> cn_n s = 0 \<and> cn_pc s = HFormat \<and>
     cn_out s = [] \<and> cn_accepted s = []"

inductive counter_step :: "counter_srv \<Rightarrow> counter_srv \<Rightarrow> bool" where
  increments: "increment_counter (cn_counter s) = Inr c \<Longrightarrow> counter_step s (s\<lparr>cn_counter := c\<rparr>)"
| formats: "cn_pc s = HFormat \<Longrightarrow> counter_step s (handler_format s)"
| handler_sends: "cn_pc s = HSend buf i \<Longrightarrow> handler_send buf i s = Inr t \<Longrightarrow> counter_step s t"
| counter_accepts: "counter_accept cfd s = Inr t \<Longrightarrow> counter_step s t"

text \<open>
  \<open>main\<close> up to the accept loop: what \<open>pthread_create\<close> returns for the two threads is compared with 0 the first time
  and with -1 the second time. The result are the state and whether the handler runs.
\<close>

definition counter_main :: "bool list \<Rightarrow> int \<Rightarrow> int \<Rightarrow> sys_results \<Rightarrow> (counter_srv \<times> bool) option" where
  "counter_main sc create_counter create_handler ret =
     (if create_counter \<noteq> 0 then None
      else case fst (c_malloc_array sc 4 (size_mul MAX_CLIENT_FDS 4)) of
             None \<Rightarrow> None
           | Some fds \<Rightarrow>
               if \<not> snd (counter_setup ret) then None
               else if create_handler = - 1 then None
               else Some (\<lparr>cn_counter = 0, cn_fds = fds, cn_n = 0, cn_pc = HFormat, cn_out = [], cn_accepted = []\<rparr>,
                          create_handler = 0))"

lemma counter_main_init: "counter_main sc cc hc ret = Some (s, b) \<Longrightarrow> counter_init s"
  by (auto simp: counter_main_def counter_init_def alloc_defs MAX_CLIENT_FDS_def split: if_splits option.splits prod.splits)

definition counter_inv :: "counter_srv \<Rightarrow> bool" where
  "counter_inv s \<longleftrightarrow> length (cn_fds s) = MAX_CLIENT_FDS \<and> holds (cn_fds s) (take MAX_CLIENT_FDS (cn_accepted s)) \<and>
     cn_n s = min MAX_CLIENT_FDS (length (cn_accepted s)) \<and>
     (case cn_pc s of HFormat \<Rightarrow> True | HSend buf i \<Rightarrow> i \<le> cn_n s)"

lemma counter_inv_step:
  assumes inv: "counter_inv s" and step: "counter_step s t"
  shows "counter_inv t"
  using step
proof (cases rule: counter_step.cases)
  case (increments c)
  with inv show ?thesis by (auto simp: counter_inv_def split: handler_pc.splits)
next
  case formats
  with inv show ?thesis by (simp add: counter_inv_def handler_format_def)
next
  case (handler_sends buf i)
  with inv show ?thesis
    by (auto simp: counter_inv_def handler_send_def bindE_eq_Inr_iff split: if_splits)
next
  case (counter_accepts cfd)
  show ?thesis
  proof (cases "cn_n s < MAX_CLIENT_FDS")
    case True
    with inv have n: "cn_n s = length (cn_accepted s)" and h: "holds (cn_fds s) (cn_accepted s)"
      and len: "length (cn_fds s) = MAX_CLIENT_FDS"
      by (auto simp: counter_inv_def min_def split: if_splits)
    have "size_add (cn_n s) 1 = cn_n s + 1" using True by (simp add: size_add_small MAX_CLIENT_FDS_def SIZE_MOD_def)
    moreover have "holds ((cn_fds s)[cn_n s := Some cfd]) (cn_accepted s @ [cfd])"
      unfolding n using True len by (intro holds_snoc [OF h]) (simp add: n)
    ultimately show ?thesis using True inv counter_accepts n len
      by (auto simp: counter_inv_def counter_accept_def split: handler_pc.splits)
  next
    case False
    with inv counter_accepts show ?thesis
      by (auto simp: counter_inv_def counter_accept_def split: handler_pc.splits)
  qed
qed

interpretation counter: invariant_system counter_init counter_step counter_inv
proof
  fix s t
  show "counter_init s \<Longrightarrow> counter_inv s" by (simp add: counter_init_def counter_inv_def)
  show "counter_inv s \<Longrightarrow> counter_step s t \<Longrightarrow> counter_inv t" by (rule counter_inv_step)
qed

text \<open>
  in every reachable state the array holds what the first ten calls of \<open>accept\<close> returned, the -1 of
  a failed call included, and the loop of the handler reads a slot that has been written.
\<close>

theorem counter_slots:
  assumes "reach counter_init counter_step s"
  shows "slots (cn_fds s) (cn_n s) = take 10 (cn_accepted s) \<and>
    (case cn_pc s of HFormat \<Rightarrow> True | HSend buf i \<Rightarrow> (\<exists>t. handler_send buf i s = Inr t))"
proof -
  from counter.reach_inv [OF assms] have inv: "counter_inv s" .
  let ?a = "take MAX_CLIENT_FDS (cn_accepted s)"
  have h: "holds (cn_fds s) ?a" and n: "cn_n s = length ?a" using inv by (auto simp: counter_inv_def)
  have "slots (cn_fds s) (cn_n s) = ?a" unfolding n using h by (rule slots_holds)
  moreover have "aread (cn_fds s) i = Inr (?a ! i)" if "i < cn_n s" for i using aread_holds [OF h, of i] that unfolding n by blast
  ultimately show ?thesis by (auto simp: handler_send_def MAX_CLIENT_FDS_def split: handler_pc.splits)
qed

text \<open>The server after a failed and a successful \<open>accept\<close>, and the same while the handler sends.\<close>

definition counter_demo :: "int list \<Rightarrow> handler_pc \<Rightarrow> io list \<Rightarrow> counter_srv" where
  "counter_demo fds pc out = \<lparr>cn_counter = 0, cn_fds = map Some fds @ replicate (10 - length fds) None, cn_n = length fds,
     cn_pc = pc, cn_out = out, cn_accepted = fds\<rparr>"

lemma counter_demo_reach: "reach counter_init counter_step (counter_demo [- 1, 6] HFormat [])"
proof -
  have "counter_init (counter_demo [] HFormat [])" by (simp add: counter_init_def counter_demo_def MAX_CLIENT_FDS_def)
  then have 0: "reach counter_init counter_step (counter_demo [] HFormat [])" by (rule reach_init)
  have ten: "replicate 10 (None :: int option) = [None, None, None, None, None, None, None, None, None, None]"
    "replicate 9 (None :: int option) = [None, None, None, None, None, None, None, None, None]" 
    "replicate 8 (None :: int option) = [None, None, None, None, None, None, None, None]"
    by (simp_all add: eval_nat_numeral)
  have 1: "counter_accept (- 1) (counter_demo [] HFormat []) = Inr (counter_demo [- 1] HFormat [])"
    "counter_accept 6 (counter_demo [- 1] HFormat []) = Inr (counter_demo [- 1, 6] HFormat [])"
    by (simp_all add: counter_accept_def counter_demo_def MAX_CLIENT_FDS_def size_add_def SIZE_MOD_def ten)
  from reach_step [OF reach_step [OF 0 counter_accepts [OF 1(1)]] counter_accepts [OF 1(2)]] show ?thesis .
qed

theorem counter_slots_witness:
  "slots (cn_fds (counter_demo [- 1, 6] HFormat [])) 2 = [- 1, 6]"
  using counter_slots [OF counter_demo_reach] by (simp add: counter_demo_def numeral_2_eq_2)

section \<open>What the counter broadcast sends\<close>

text \<open>
  Everything that was sent so far, as numbers; a number that is being sent is not smaller. The
  counter stays below \<open>2 ^ 31\<close>: the increment of \<open>INT_MAX\<close> is undefined, and no step.
\<close>

definition sent_numbers :: "counter_srv \<Rightarrow> nat list \<Rightarrow> bool" where
  "sent_numbers s ns \<longleftrightarrow> map snd (sends (cn_out s)) = map dec ns \<and> sorted ns \<and> (\<forall>n\<in>set ns. n \<le> cn_counter s) \<and>
     (\<forall>buf i. cn_pc s = HSend buf i \<longrightarrow> (\<exists>n \<le> cn_counter s. buf = dec n \<and> (\<forall>m\<in>set ns. m \<le> n)))"

definition numbers_inv :: "counter_srv \<Rightarrow> bool" where
  "numbers_inv s \<longleftrightarrow> cn_counter s < 2 ^ 31 \<and> (\<exists>ns. sent_numbers s ns)"

lemma increment_counter_ok:
  assumes "c < 2 ^ 31" and "increment_counter c = Inr c'"
  shows "c' = c + 1 \<and> c' < 2 ^ 31"
proof -
  have "c mod 2 ^ 32 = c" "(c + 1) mod 2 ^ 32 = c + 1" using assms(1) by simp_all
  with assms show ?thesis by (auto simp: increment_counter_def INT_MAX_def split: if_splits)
qed

lemma numbers_inv_step:
  assumes inv: "numbers_inv s" and step: "counter_step s t"
  shows "numbers_inv t"
proof -
  from inv obtain ns where ns: "sent_numbers s ns" and c: "cn_counter s < 2 ^ 31" by (auto simp: numbers_inv_def)
  from step show ?thesis
  proof (cases rule: counter_step.cases)
    case (increments k)
    from increment_counter_ok [OF c increments(2)] have "k = cn_counter s + 1" "k < 2 ^ 31" by simp_all
    with increments(1) ns have "sent_numbers t ns" by (simp add: sent_numbers_def) (meson le_SucI)
    with increments \<open>k < 2 ^ 31\<close> show ?thesis by (auto simp: numbers_inv_def)
  next
    case formats
    with ns have "sent_numbers t ns" by (auto simp: sent_numbers_def handler_format_def)
    with formats c show ?thesis by (auto simp: numbers_inv_def handler_format_def)
  next
    case (handler_sends buf i)
    from ns handler_sends(1) obtain n where n: "n \<le> cn_counter s" "buf = dec n" "\<forall>m\<in>set ns. m \<le> n"
      by (auto simp: sent_numbers_def)
    show ?thesis
    proof (cases "i < cn_n s")
      case True
      with handler_sends(2) obtain fd where t: "t = s\<lparr>cn_out := cn_out s @ [Send fd buf], cn_pc := HSend buf (i + 1)\<rparr>"
        by (auto simp: handler_send_def bindE_eq_Inr_iff)
      have "sorted (ns @ [n])" "map snd (sends (cn_out t)) = map dec (ns @ [n])" "\<forall>m\<in>set (ns @ [n]). m \<le> n"
        using ns n by (simp_all add: t sent_numbers_def sorted_append)
      then have "sent_numbers t (ns @ [n])" using n by (auto simp: t sent_numbers_def)
      with c t show ?thesis by (auto simp: numbers_inv_def)
    next
      case False
      with handler_sends(2) ns have "sent_numbers t ns" by (auto simp: handler_send_def sent_numbers_def)
      with False handler_sends(2) c show ?thesis by (auto simp: numbers_inv_def handler_send_def)
    qed
  next
    case (counter_accepts cfd)
    then have "cn_counter t = cn_counter s" "cn_out t = cn_out s" "cn_pc t = cn_pc s"
      by (auto simp: counter_accept_def bindE_eq_Inr_iff split: if_splits)
    with ns c show ?thesis by (auto simp: numbers_inv_def sent_numbers_def)
  qed
qed

interpretation counter_numbers: invariant_system counter_init counter_step numbers_inv
proof
  fix s t
  show "counter_init s \<Longrightarrow> numbers_inv s" by (simp add: counter_init_def numbers_inv_def sent_numbers_def)
  show "numbers_inv s \<Longrightarrow> counter_step s t \<Longrightarrow> numbers_inv t" by (rule numbers_inv_step)
qed

text \<open>
  C25: everything the counter server ever sends, to whomever, is a decimal number below \<open>2 ^ 31\<close>, so
  of at most ten digits, and the numbers never decrease, in any interleaving with the thread that counts.
\<close>

theorem counter_sends_sorted_numbers:
  assumes "reach counter_init counter_step s"
  shows "cn_counter s < 2 ^ 31 \<and>
    (\<exists>ns. map snd (sends (cn_out s)) = map dec ns \<and> sorted ns \<and> (\<forall>n\<in>set ns. n < 2 ^ 31 \<and> length (dec n) \<le> 10))"
proof -
  from counter_numbers.reach_inv [OF assms] obtain ns where c: "cn_counter s < 2 ^ 31" and ns: "sent_numbers s ns"
    by (auto simp: numbers_inv_def)
  have "n < 2 ^ 31 \<and> length (dec n) \<le> 10" if "n \<in> set ns" for n
  proof -
    have "n < 2 ^ 31" using ns c that by (auto simp: sent_numbers_def)
    moreover from this have "n < 10 ^ 10" by simp
    ultimately show ?thesis using dec_bound [of n 10] by simp
  qed
  with c ns show ?thesis by (auto simp: sent_numbers_def)
qed

theorem counter_sends_sorted_numbers_witness:
  "\<exists>(s :: counter_srv) ns. reach counter_init counter_step s \<and> sends (cn_out s) = [(- 1, ''0'')] \<and> map snd (sends (cn_out s)) = map dec ns \<and> sorted ns"
proof -
  let ?s = "counter_demo [- 1, 6] HFormat []" and ?t = "counter_demo [- 1, 6] (HSend ''0'' 0) []"
    and ?u = "counter_demo [- 1, 6] (HSend ''0'' 1) [Send (- 1) ''0'']"
  have "dec 0 = ''0''" by (simp add: dec.simps char_of_def bit_0)
  then have f: "handler_format ?s = ?t" by (simp add: handler_format_def counter_demo_def)
  have "counter_step ?s ?t" using formats [of ?s] f by (simp add: counter_demo_def)
  with counter_demo_reach have t: "reach counter_init counter_step ?t" by (rule reach_step)
  have "handler_send ''0'' 0 ?t = Inr ?u" "cn_pc ?t = HSend ''0'' 0"
    by (simp_all add: handler_send_def counter_demo_def aread_def)
  from handler_sends [OF this(2,1)] have "counter_step ?t ?u" .
  with t have u: "reach counter_init counter_step ?u" by (rule reach_step)
  from counter_sends_sorted_numbers [OF this] obtain ns where "map snd (sends (cn_out ?u)) = map dec ns" "sorted ns" by blast
  moreover have "sends (cn_out ?u) = [(- 1, ''0'')]" by (simp add: counter_demo_def)
  ultimately show ?thesis using u by (intro exI [of _ ?u] exI [of _ ns] conjI)
qed

section \<open>The TCP server\<close>

text \<open>
  A worker receives until nothing comes, and frees its context; the result is the number of
  messages it has received, and whether it has ended (an exhausted list: the client is still
  connected, and the worker waits).
\<close>

fun tcp_worker :: "(nat \<Rightarrow> nat) \<Rightarrow> rx list \<Rightarrow> (nat \<times> bool) res" where
  "tcp_worker slack [] = Inr (0, False)"
| "tcp_worker slack (r # rs) =
     (case recv_upto (1024 - 1) r of
        RxData d \<Rightarrow> bindE (store_nul slack 1024 (length d)) (\<lambda>_. bindE (tcp_worker slack rs) (\<lambda>(n, e). Inr (n + 1, e)))
      | _ \<Rightarrow> Inr (0, True))"

lemma tcp_worker_total: "\<exists>n e. tcp_worker slack rs = Inr (n, e)"
proof (induction rs)
  case (Cons r rs)
  then obtain n e where "tcp_worker slack rs = Inr (n, e)" by blast
  then show ?case
    by (cases "recv_upto (1024 - 1) r") (auto simp: store_nul_def dest: recv_upto_data)
qed auto

record tcp_srv =
  tc_n_workers :: nat
  tc_workers :: "(int \<times> bool) list"   \<comment> \<open>\<open>workers\<close>: the descriptor served, and whether the thread exists\<close>
  tc_script :: "bool list"
  tc_out :: "io list"

definition MAX_WORKERS :: nat where "MAX_WORKERS = 5"

definition busy_message :: string where "busy_message = ''connection refused: server busy'' @ [CHR 0x0D, NEWLINE]"

text \<open>
  An iteration of the accept loop: \<open>create\<close> is what \<open>pthread_create\<close> returns. \<open>False\<close>: the loop is left
  because \<open>malloc\<close> failed. A negative \<open>client_fd\<close> is reported and then treated like a connection. The
  comparison of \<open>create\<close> with -1 only decides about a report.
\<close>

definition tcp_accept :: "int \<Rightarrow> int \<Rightarrow> tcp_srv \<Rightarrow> bool \<times> tcp_srv" where
  "tcp_accept client_fd create s =
     (if tc_n_workers s < MAX_WORKERS
      then let (ok, sc) = next_outcome (tc_script s); s = s\<lparr>tc_script := sc\<rparr>
           in if \<not> ok then (False, s)
              else (True, s\<lparr>tc_n_workers := size_add (tc_n_workers s) 1,
                            tc_workers := tc_workers s @ [(client_fd, create = 0)]\<rparr>)
      else (True, s\<lparr>tc_out := tc_out s @ [Send client_fd busy_message, Close client_fd]\<rparr>))"

fun tcp_loop :: "(int \<times> int) list \<Rightarrow> tcp_srv \<Rightarrow> bool \<times> tcp_srv" where
  "tcp_loop [] s = (True, s)"
| "tcp_loop ((fd, create) # conns) s =
     (let (running, t) = tcp_accept fd create s in if running then tcp_loop conns t else (False, t))"

definition tcp_start :: "bool list \<Rightarrow> tcp_srv" where
  "tcp_start sc = \<lparr>tc_n_workers = 0, tc_workers = [], tc_script = sc, tc_out = []\<rparr>"

text \<open>
  Behind the loop: \<open>pthread_join\<close> waits until the worker has ended, that is until its client has gone; a
  join of a thread that was not created reads an indeterminate handle. \<open>rxs i\<close> is what worker \<open>i\<close> has
  received so far, the result the worker that \<open>main\<close> is waiting for.
\<close>

definition worker_ended :: "(nat \<Rightarrow> nat) \<Rightarrow> rx list \<Rightarrow> bool" where
  "worker_ended slack rs = (case tcp_worker slack rs of Inl _ \<Rightarrow> False | Inr (_, e) \<Rightarrow> e)"

fun tcp_join :: "(nat \<Rightarrow> nat) \<Rightarrow> (nat \<Rightarrow> rx list) \<Rightarrow> (int \<times> bool) list \<Rightarrow> nat list \<Rightarrow> nat option res" where
  "tcp_join slack rxs workers [] = Inr None"
| "tcp_join slack rxs workers (i # is) =
     (if \<not> snd (workers ! i) then Inl Uninitialised
      else if worker_ended slack (rxs i) then tcp_join slack rxs workers is
      else Inr (Some i))"

text \<open>Where \<open>main\<close> is: in its loop, in the join of a worker, or at its end.\<close>

datatype tcp_status = Serving | Joining nat | Exited

definition tcp_shutdown :: "(nat \<Rightarrow> nat) \<Rightarrow> (nat \<Rightarrow> rx list) \<Rightarrow> int \<Rightarrow> tcp_srv \<Rightarrow> (tcp_status \<times> tcp_srv) res" where
  "tcp_shutdown slack rxs server_fd s =
     bindE (tcp_join slack rxs (tc_workers s) [0..<tc_n_workers s]) (\<lambda>r.
     case r of
       Some i \<Rightarrow> Inr (Joining i, s)
     | None \<Rightarrow> Inr (Exited, s\<lparr>tc_out := tc_out s @ [Close server_fd]\<rparr>))"

text \<open>\<open>main\<close>: \<open>None\<close> is \<open>exit (EXIT_FAILURE)\<close>.\<close>

definition tcp_main ::
  "(nat \<Rightarrow> nat) \<Rightarrow> bool list \<Rightarrow> sys_results \<Rightarrow> (int \<times> int) list \<Rightarrow> (nat \<Rightarrow> rx list) \<Rightarrow> (tcp_status \<times> tcp_srv) option res" where
  "tcp_main slack sc ret conns rxs =
     (if \<not> snd (tcp_setup ret) then Inr None
      else let (running, s) = tcp_loop conns (tcp_start sc)
           in if running then Inr (Some (Serving, s))
              else bindE (tcp_shutdown slack rxs (ret Socket) s) (\<lambda>r. Inr (Some r)))"

abbreviation refusals :: "(int \<times> int) list \<Rightarrow> io list" where
  "refusals conns \<equiv> concat (map (\<lambda>(fd, _). [Send fd busy_message, Close fd]) conns)"

abbreviation workers_for :: "(int \<times> int) list \<Rightarrow> (int \<times> bool) list" where
  "workers_for conns \<equiv> map (\<lambda>(fd, create). (fd, create = 0)) conns"

text \<open>The loop while the outcomes of \<open>malloc\<close> are successes, and the iteration in which it fails.\<close>

lemma tcp_accept_full:
  "\<not> tc_n_workers s < 5 \<Longrightarrow> tcp_accept fd cr s = (True, s\<lparr>tc_out := tc_out s @ [Send fd busy_message, Close fd]\<rparr>)"
  by (simp add: tcp_accept_def MAX_WORKERS_def)

lemma tcp_accept_free:
  "tc_n_workers s < 5 \<Longrightarrow> tc_script s = [] \<or> hd (tc_script s) \<Longrightarrow>
     tcp_accept fd cr s = (True, s\<lparr>tc_script := tl (tc_script s), tc_n_workers := tc_n_workers s + 1,
       tc_workers := tc_workers s @ [(fd, cr = 0)]\<rparr>)"
  by (cases "tc_script s") (simp_all add: tcp_accept_def MAX_WORKERS_def size_add_small SIZE_MOD_def)

lemma tcp_loop_run:
  "tc_n_workers s \<le> 5 \<Longrightarrow> list_all (\<lambda>ok. ok) (take (min (5 - tc_n_workers s) (length conns)) (tc_script s)) \<Longrightarrow>
     tcp_loop conns s = (True, s\<lparr>tc_n_workers := min 5 (tc_n_workers s + length conns),
       tc_script := drop (min (5 - tc_n_workers s) (length conns)) (tc_script s),
       tc_workers := tc_workers s @ workers_for (take (5 - tc_n_workers s) conns),
       tc_out := tc_out s @ refusals (drop (5 - tc_n_workers s) conns)\<rparr>)"
proof (induction conns arbitrary: s)
  case Nil
  then show ?case by (cases s) simp
next
  case (Cons c conns)
  obtain fd cr where c: "c = (fd, cr)" by (cases c)
  show ?case
  proof (cases "tc_n_workers s < 5")
    case True
    then obtain k where k: "5 - tc_n_workers s = Suc k" "k = 5 - (tc_n_workers s + 1)" by (metis Suc_diff_Suc Suc_eq_plus1)
    have "list_all (\<lambda>ok. ok) (take (Suc (min k (length conns))) (tc_script s))" using Cons.prems(2) unfolding k(1) by simp
    then have sc: "tc_script s = [] \<or> hd (tc_script s)" "list_all (\<lambda>ok. ok) (take (min k (length conns)) (tl (tc_script s)))"
      by (cases "tc_script s"; simp)+
    let ?t = "s\<lparr>tc_script := tl (tc_script s), tc_n_workers := tc_n_workers s + 1, tc_workers := tc_workers s @ [(fd, cr = 0)]\<rparr>"
    have k': "5 - (tc_n_workers s + 1) = k" using k(2) by simp
    from tcp_accept_free [OF True sc(1)] have a: "tcp_accept fd cr s = (True, ?t)" .
    have "drop (Suc (min k (length conns))) (tc_script s) = drop (min k (length conns)) (tl (tc_script s))" by (simp add: drop_Suc)
    then show ?thesis using Cons.IH [of ?t] True sc(2) by (simp add: c a k(1) k' [simplified])
  next
    case False
    with Cons.prems have n: "tc_n_workers s = 5" by simp
    let ?t = "s\<lparr>tc_out := tc_out s @ [Send fd busy_message, Close fd]\<rparr>"
    from tcp_accept_full [OF False] have "tcp_accept fd cr s = (True, ?t)" .
    with Cons.IH [of ?t] n Cons.prems(2) show ?thesis by (simp add: c)
  qed
qed

lemma tcp_loop_append:
  "tcp_loop (xs @ ys) s = (let (running, t) = tcp_loop xs s in if running then tcp_loop ys t else (False, t))"
  by (induction xs s rule: tcp_loop.induct) (auto simp: Let_def split: prod.splits)

text \<open>
  C30: with memory available, the server takes a worker for each of the first five results of \<open>accept\<close>
  and answers every later one with the refusal and closes it, once each and in order, no matter
  what the first five do and how many of them have disconnected in between: \<open>n_workers\<close> is never decremented. A thread
  that could not be created takes its slot as well.
\<close>

theorem tcp_serves_five:
  assumes "snd (tcp_setup ret)"
  shows "\<exists>t. tcp_main slack [] ret conns rxs = Inr (Some (Serving, t)) \<and> tc_workers t = workers_for (take 5 conns) \<and>
     tc_out t = refusals (drop 5 conns)"
  using tcp_loop_run [of "tcp_start []" conns] assms by (auto simp: tcp_start_def tcp_main_def)

theorem tcp_serves_five_witness:
  "\<exists>t. tcp_main (\<lambda>_. 0) [] (\<lambda>_. 3) [(4, 0), (5, 11), (6, 0), (7, 0), (8, 0), (9, 0)] (\<lambda>_. [RxEof]) = Inr (Some (Serving, t)) \<and>
     tc_out t = [Send 9 busy_message, Close 9]"
  using tcp_serves_five [of "\<lambda>_. 3" "\<lambda>_. 0" "[(4, 0), (5, 11), (6, 0), (7, 0), (8, 0), (9, 0)]" "\<lambda>_. [RxEof]"]
  by (auto simp: tcp_setup_def)

lemma tcp_loop_fails:
  assumes "n < length sc" and "\<not> sc ! n" and "list_all (\<lambda>ok. ok) (take n sc)" and "n < 5" and "n < length conns"
  shows "tcp_loop conns (tcp_start sc) =
    (False, \<lparr>tc_n_workers = n, tc_workers = workers_for (take n conns), tc_script = drop (n + 1) sc, tc_out = []\<rparr>)"
proof -
  let ?s = "\<lparr>tc_n_workers = n, tc_workers = workers_for (take n conns), tc_script = drop n sc, tc_out = []\<rparr>"
  have "tcp_loop (take n conns) (tcp_start sc) = (True, ?s)"
    using tcp_loop_run [of "tcp_start sc" "take n conns"] assms by (simp add: tcp_start_def min_def)
  moreover obtain fd cr where c: "conns ! n = (fd, cr)" by (cases "conns ! n")
  have "drop n sc = False # drop (n + 1) sc" using assms(1,2) by (simp add: Cons_nth_drop_Suc [symmetric])
  then have "tcp_accept fd cr ?s = (False, ?s\<lparr>tc_script := drop (n + 1) sc\<rparr>)"
    using assms(4) by (simp add: tcp_accept_def MAX_WORKERS_def)
  moreover have "conns = take n conns @ conns ! n # drop (n + 1) conns" using assms(5) by (simp add: id_take_nth_drop)
  ultimately show ?thesis using tcp_loop_append [of "take n conns" "conns ! n # drop (n + 1) conns" "tcp_start sc"]
    by (simp add: c)
qed

lemma tcp_join_first:
  "tcp_join slack rxs ws is =
     (case find (\<lambda>i. \<not> (snd (ws ! i) \<and> worker_ended slack (rxs i))) is of
        None \<Rightarrow> Inr None
      | Some i \<Rightarrow> if snd (ws ! i) then Inr (Some i) else Inl Uninitialised)"
  by (induction "is") auto

text \<open>
  C29: when the server leaves its loop, and what it does then, for every script of \<open>malloc\<close>, every list of
  connections and whatever the clients do. \<open>n\<close> is the number of successes before the first failure. The server leaves
  the loop if and only if that failure is met by one of the first five connections. It then joins the workers in
  order: it waits as long as the client of one of them stays connected; it faults at one that could not be
  created, which the loop has not noticed; and it closes its listening socket, and
  ends, exactly if all \<open>n\<close> threads exist and all their clients have gone. Otherwise it goes on serving.
\<close>

theorem tcp_ends_without_memory:
  assumes "snd (tcp_setup ret)" and "n = length (takeWhile id sc)"
  shows "if n < length sc \<and> n < 5 \<and> n < length conns
    then (let s = \<lparr>tc_n_workers = n, tc_workers = workers_for (take n conns), tc_script = drop (n + 1) sc, tc_out = []\<rparr>
      in tcp_main slack sc ret conns rxs =
        (case find (\<lambda>i. \<not> (snd (conns ! i) = 0 \<and> worker_ended slack (rxs i))) [0..<n] of
           None \<Rightarrow> Inr (Some (Exited, s\<lparr>tc_out := [Close (ret Socket)]\<rparr>))
         | Some i \<Rightarrow> if snd (conns ! i) = 0 then Inr (Some (Joining i, s)) else Inl Uninitialised))
    else (\<exists>t. tcp_main slack sc ret conns rxs = Inr (Some (Serving, t)))"
proof -
  have "take n sc = takeWhile id sc" using assms(2) by (simp add: takeWhile_eq_take [symmetric])
  then have all: "list_all (\<lambda>ok. ok) (take n sc)" by (auto simp: list_all_iff dest: set_takeWhileD)
  show ?thesis
  proof (cases "n < length sc \<and> n < 5 \<and> n < length conns")
    case True
    have "\<not> sc ! n" using True assms(2) nth_length_takeWhile [of id sc] by simp
    with all have loop: "tcp_loop conns (tcp_start sc) =
        (False, \<lparr>tc_n_workers = n, tc_workers = workers_for (take n conns), tc_script = drop (n + 1) sc, tc_out = []\<rparr>)"
      using True by (intro tcp_loop_fails) simp_all
    have w: "snd (workers_for (take n conns) ! i) \<longleftrightarrow> snd (conns ! i) = 0" if "i < n" for i
      using that True by (simp add: case_prod_beta)
    then have "find (\<lambda>i. \<not> (snd (workers_for (take n conns) ! i) \<and> worker_ended slack (rxs i))) [0..<n] =
        find (\<lambda>i. \<not> (snd (conns ! i) = 0 \<and> worker_ended slack (rxs i))) [0..<n]"
      by (intro find_cong) auto
    moreover have "i < n" if "find P [0..<n] = Some i" for P i using find_in_set [OF that] by simp
    ultimately show ?thesis unfolding if_P [OF True] using loop assms(1) w
      by (auto simp: tcp_main_def tcp_shutdown_def tcp_join_first Let_def split: option.splits)
  next
    case False
    have "list_all (\<lambda>ok. ok) (take (min 5 (length conns)) sc)"
    proof (cases "n < length sc")
      case True
      with False have "min 5 (length conns) \<le> n" by auto
      then have "take (min 5 (length conns)) sc = take (min 5 (length conns)) (take n sc)" by (simp add: min_absorb1)
      with all show ?thesis by (metis in_set_takeD list_all_iff)
    next
      case False
      then have "take n sc = sc" by simp
      with all show ?thesis by (metis in_set_takeD list_all_iff)
    qed
    with tcp_loop_run [of "tcp_start sc" conns] assms(1) show ?thesis
      unfolding if_not_P [OF False] by (simp add: tcp_start_def tcp_main_def)
  qed
qed

text \<open>The second \<open>malloc\<close> fails: the server waits for its only client, and ends when it has gone.\<close>

theorem tcp_ends_without_memory_witness:
  "(\<exists>t. tcp_main (\<lambda>_. 0) [True, False] (\<lambda>_. 3) [(4, 0), (5, 0)] (\<lambda>_. [RxData ''hi'']) = Inr (Some (Joining 0, t)) \<and> tc_out t = []) \<and>
   (\<exists>t. tcp_main (\<lambda>_. 0) [True, False] (\<lambda>_. 3) [(4, 0), (5, 0)] (\<lambda>_. [RxData ''hi'', RxEof]) = Inr (Some (Exited, t)) \<and>
      tc_out t = [Close 3])"
proof -
  have "snd (tcp_setup (\<lambda>_. 3))" by (simp add: tcp_setup_def)
  moreover have "\<not> worker_ended (\<lambda>_. 0) [RxData ''hi'']" "worker_ended (\<lambda>_. 0) [RxData ''hi'', RxEof]"
    by (simp_all add: worker_ended_def store_nul_def)
  ultimately show ?thesis
    using tcp_ends_without_memory [of "\<lambda>_. 3" 1 "[True, False]" "[(4, 0), (5, 0)]" "\<lambda>_. 0" "\<lambda>_. [RxData ''hi'']"]
      tcp_ends_without_memory [of "\<lambda>_. 3" 1 "[True, False]" "[(4, 0), (5, 0)]" "\<lambda>_. 0" "\<lambda>_. [RxData ''hi'', RxEof]"]
    by (simp add: Let_def)
qed

end
