(* ===== verification/Chat_Session.thy ===== *)
theory Chat_Session
  imports Chat_Server Retry_Clients
begin

text \<open>
  The chat server from its start, and together with its clients. A chat room is a list of sockets
  with names; what the server does with a connection, a line and the end of a connection is
  a step of the room, and what a client prints is the transcript of the room. The room is the
  abstract specification the server is proved to refine.
\<close>

section \<open>The server from its start\<close>

text \<open>
  \<open>main\<close>: \<open>sc\<close> are the outcomes of the allocations, \<open>ret\<close> the results of the calls that set the
  listening socket up, \<open>evs\<close> the events so far. \<open>None\<close> is \<open>exit (EXIT_FAILURE)\<close>.
\<close>

definition chat_main :: "(nat \<Rightarrow> nat) \<Rightarrow> bool list \<Rightarrow> sys_results \<Rightarrow> chat_event list \<Rightarrow> chat option res" where
  "chat_main slack sc ret evs =
     (let (clients, sc) = clients_create sc START_CLIENTS
      in case clients of
           None \<Rightarrow> Inr None
         | Some c \<Rightarrow>
             if \<not> snd (chat_setup ret) then Inr None
             else main_loop slack evs \<lparr>ch_heap = [], ch_clients = Some c, ch_script = sc, ch_out = []\<rparr>)"

section \<open>The room\<close>

type_synonym room = "(int \<times> string) list"

datatype room_event = Joins int | Says int string | Leaves int

definition name_of :: "int \<Rightarrow> room \<Rightarrow> string" where
  "name_of k r = the (map_of r k)"

text \<open>
  The events: a new socket; a line of a client of the room, in one piece; the end of a client's
  connection. \<open>leaver\<close> is the client an event disconnects, since its connection has ended or a named
  client has said "exit".
\<close>

fun room_wf :: "room_event \<Rightarrow> room \<Rightarrow> bool" where
  "room_wf (Joins k) r \<longleftrightarrow> k \<noteq> - 1 \<and> k \<notin> set (map fst r)"
| "room_wf (Says k line) r \<longleftrightarrow> k \<in> set (map fst r) \<and> line \<noteq> [] \<and> NUL \<notin> set line \<and> length line < BUF_SIZE"
| "room_wf (Leaves k) r \<longleftrightarrow> k \<in> set (map fst r)"

fun leaver :: "room_event \<Rightarrow> room \<Rightarrow> int option" where
  "leaver (Joins k) r = None"
| "leaver (Says k line) r =
     (if name_of k r \<noteq> [] \<and> c_strneq (etrim_ref line) MSG_EXIT (length MSG_EXIT) then Some k else None)"
| "leaver (Leaves k) r = Some k"

text \<open>
  The departures the code gets right: that of the client that joined last, while there are fewer
  clients than the array has places at the start.
\<close>

definition room_ok :: "room_event \<Rightarrow> room \<Rightarrow> bool" where
  "room_ok ev r \<longleftrightarrow> room_wf ev r \<and>
     (case leaver ev r of None \<Rightarrow> True | Some k \<Rightarrow> fst (last r) = k \<and> length r < START_CLIENTS)"

text \<open>The room after an event, and the messages that are sent, with their destinations.\<close>

fun room_step :: "room_event \<Rightarrow> room \<Rightarrow> room \<times> (int \<times> string) list" where
  "room_step (Joins k) r = (r @ [(k, [])], [])"
| "room_step (Says k line) r =
     (if name_of k r = []
      then (map (\<lambda>(j, n). (j, if j = k then take MAX_NAME_LEN (etrim_ref line) else n)) r, [])
      else if c_strneq (etrim_ref line) MSG_EXIT (length MSG_EXIT) then (butlast r, [])
      else (r, map (\<lambda>j. (j, broadcast_text (name_of k r) (etrim_ref line))) (filter (\<lambda>j. j \<noteq> k) (map fst r))))"
| "room_step (Leaves k) r = (butlast r, [])"

abbreviation room_run :: "room_event list \<Rightarrow> room \<Rightarrow> (room \<times> (int \<times> string) list) option" where
  "room_run \<equiv> spec_run room_ok room_step"

fun server_event :: "room_event \<Rightarrow> chat_event" where
  "server_event (Joins k) = ListenReady k 0"
| "server_event (Says k line) = ConnReady k [RxData line]"
| "server_event (Leaves k) = ConnReady k [RxEof]"

fun joins :: "room_event \<Rightarrow> nat" where
  "joins (Joins k) = 1"
| "joins ev = 0"

text \<open>The table of the server holds the clients of the room.\<close>

definition in_room :: "chat \<Rightarrow> room \<Rightarrow> bool" where
  "in_room s r \<longleftrightarrow> table_ok s \<and> table_view s = map (\<lambda>(k, n). (k, Some n)) r \<and> distinct (map fst r) \<and>
     START_CLIENTS \<le> table_cap s"

lemma in_roomE:
  assumes "in_room s r"
  obtains "as" where "table_rep s as" and "map (entry s) as = map (\<lambda>(k, n). (k, Some n)) r"
    and "distinct (map fst r)" and "START_CLIENTS \<le> table_cap s" and "table_addrs s = as"
proof -
  from assms have rep: "table_rep s (table_addrs s)" by (simp add: in_room_def table_ok_def)
  from assms that [OF rep] table_rep_view [OF rep] show thesis by (simp add: in_room_def)
qed

lemma in_roomI:
  assumes "table_rep s as" and "map (entry s) as = map (\<lambda>(k, n). (k, Some n)) r"
    and "distinct (map fst r)" and "START_CLIENTS \<le> table_cap s"
  shows "in_room s r"
  using assms table_rep_ok [OF assms(1)] table_rep_view [OF assms(1)] by (simp add: in_room_def)

text \<open>The client of the table a socket of the room belongs to.\<close>

lemma room_find_ex:
  "map f as = map (\<lambda>(k, n). (k, Some n)) r \<Longrightarrow> k \<in> set (map fst r) \<Longrightarrow>
     \<exists>a\<in>set as. find (\<lambda>a. fst (f a) = k) as = Some a \<and> f a = (k, Some (name_of k r))"
proof (induction "as" arbitrary: r)
  case (Cons a "as")
  then obtain j n r' where r: "r = (j, n) # r'" and a: "f a = (j, Some n)" "map f as = map (\<lambda>(k, n). (k, Some n)) r'"
    by (cases r) auto
  show ?case
  proof (cases "j = k")
    case True
    then show ?thesis using a r by (simp add: name_of_def)
  next
    case False
    with Cons.prems(2) r have "k \<in> set (map fst r')" by auto
    from Cons.IH [OF a(2) this] show ?thesis using a r False by (auto simp: name_of_def)
  qed
qed simp

lemma room_find:
  assumes "map f as = map (\<lambda>(k, n). (k, Some n)) r" and "k \<in> set (map fst r)"
  obtains a where "find (\<lambda>a. fst (f a) = k) as = Some a" and "f a = (k, Some (name_of k r))" and "a \<in> set as"
  using room_find_ex [OF assms] by blast

section \<open>The server refines the room\<close>

lemma refines_joins:
  assumes "in_room s r" and "room_wf (Joins k) r" and "table_roomy (Suc n) s"
  shows "\<exists>t. main_event slack (ListenReady k 0) s = Inr (Some t) \<and> in_room t (r @ [(k, [])]) \<and>
    table_roomy n t \<and> sends (ch_out t) = sends (ch_out s)"
  using assms(1)
proof (cases rule: in_roomE)
  case (1 "as")
  let ?s = "s\<lparr>ch_out := ch_out s @ [EpollAdd k]\<rparr>"
  have "table_rep ?s as" using 1 by simp
  from clients_add_ok [OF this, of k "[]"] assms(3) 1(5) obtain t where
    t: "clients_add k [] ?s = Inr (0, t)" "table_rep t (as @ [length (ch_heap s)])"
      "table_view t = table_view s @ [(k, Some [])]" "ch_script t = []"
      "live_count (ch_heap t) = Suc (live_count (ch_heap s))" "ch_out t = ch_out ?s" "table_cap s \<le> table_cap t"
    by (auto simp: table_roomy_def table_cap_def)
  have "map (entry t) (as @ [length (ch_heap s)]) = map (\<lambda>(k, n). (k, Some n)) (r @ [(k, [])])"
    using t(3) table_rep_view [OF t(2)] table_rep_view [OF 1(1)] 1(2) by simp
  from in_roomI [OF t(2) this] have "in_room t (r @ [(k, [])])" using 1(3,4) t(7) assms(2) by auto
  moreover have "table_roomy n t"
    using assms(3) t(4,5) 1(5) table_rep_addrs [OF t(2)] by (simp add: table_roomy_def)
  ultimately show ?thesis using t(1,6) assms(2) by (intro exI [of _ t]) (simp add: main_event_def)
qed

lemma refines_name:
  assumes "in_room s r" and ok: "room_wf (Says k line) r" and unnamed: "name_of k r = []" and roomy: "table_roomy n s"
  shows "\<exists>t. main_event slack (ConnReady k [RxData line]) s = Inr (Some t) \<and>
    in_room t (map (\<lambda>(j, n). (j, if j = k then take MAX_NAME_LEN (etrim_ref line) else n)) r) \<and>
    table_roomy n t \<and> ch_out t = ch_out s"
  using assms(1)
proof (cases rule: in_roomE)
  case (1 "as")
  let ?nm = "take MAX_NAME_LEN (etrim_ref line)"
  from ok have k: "k \<in> set (map fst r)" by simp
  from room_find [OF 1(2) k] obtain a where
    a: "find (\<lambda>a. fst (entry s a) = k) as = Some a" "entry s a = (k, Some (name_of k r))" "a \<in> set as" .
  have "c_name (obj (ch_heap s) a) = Some []" using a(2) unnamed by (simp add: entry_def)
  from request_first_line [OF 1(1) a(1) this, of line slack] ok roomy obtain t where
    t: "handle_request slack k [RxData line] s = Inr t" "table_rep t as" "ch_out t = ch_out s" "ch_script t = []"
      "table_cap t = table_cap s" "live_count (ch_heap t) = live_count (ch_heap s)"
      "\<forall>b\<in>set as. entry t b = (if b = a then (k, Some ?nm) else entry s b)"
    by (auto simp: table_roomy_def trim_ref)
  have fsts: "map (\<lambda>b. fst (entry s b)) as = map fst r"
    using arg_cong [OF 1(2), of "map fst"] by (simp add: comp_def case_prod_beta)
  have inj: "inj_on (\<lambda>b. fst (entry s b)) (set as)" using 1(3) by (simp add: fsts [symmetric] distinct_map)
  have "entry t b = (case entry s b of (j, n) \<Rightarrow> (j, if j = k then Some ?nm else n))" if b: "b \<in> set as" for b
  proof (cases "b = a")
    case True
    with t(7) b a(2) show ?thesis by simp
  next
    case False
    then have "fst (entry s b) \<noteq> k" using inj_onD [OF inj, of b a] a(2,3) b by auto
    with t(7) b False show ?thesis by (simp add: case_prod_beta)
  qed
  then have "map (entry t) as = map (\<lambda>(j, n). (j, if j = k then Some ?nm else n)) (map (entry s) as)" by simp
  also have "\<dots> = map (\<lambda>(k, n). (k, Some n)) (map (\<lambda>(j, n). (j, if j = k then ?nm else n)) r)"
    unfolding 1(2) by (auto simp: case_prod_beta)
  finally have "in_room t (map (\<lambda>(j, n). (j, if j = k then ?nm else n)) r)"
    using 1(3,4) t(5) by (intro in_roomI [OF t(2)]) (simp_all add: comp_def case_prod_beta)
  moreover have "table_roomy n t" using roomy t(4,6) 1(5) table_rep_addrs [OF t(2)] by (simp add: table_roomy_def)
  ultimately show ?thesis using t(1,3) by (intro exI [of _ t]) (simp add: main_event_def)
qed

lemma refines_talk:
  assumes "in_room s r" and ok: "room_wf (Says k line) r" and named: "name_of k r \<noteq> []" and slack: "\<forall>n. 0 < slack n"
    and talk: "\<not> c_strneq (etrim_ref line) MSG_EXIT (length MSG_EXIT)"
  shows "main_event slack (ConnReady k [RxData line]) s = Inr (Some (s\<lparr>ch_out := ch_out s @
    map (\<lambda>j. Send j (broadcast_text (name_of k r) (etrim_ref line))) (filter (\<lambda>j. j \<noteq> k) (map fst r))\<rparr>))"
  using assms(1)
proof (cases rule: in_roomE)
  case (1 "as")
  from ok have k: "k \<in> set (map fst r)" by simp
  from room_find [OF 1(2) k] obtain a where
    a: "find (\<lambda>a. fst (entry s a) = k) as = Some a" "entry s a = (k, Some (name_of k r))" "a \<in> set as" .
  obtain c cs where name: "name_of k r = c # cs" using named by (cases "name_of k r") auto
  then have "c_name (obj (ch_heap s) a) = Some (c # cs)" using a(2) by (simp add: entry_def)
  from request_later_line [OF 1(1) a(1) this _ _ _ _ slack, of line] ok talk
  have "handle_request slack k [RxData line] s = Inr (s\<lparr>ch_out := ch_out s @
      map (\<lambda>j. Send j (broadcast_text (c # cs) (trim line))) (recipients k (table_view s))\<rparr>)"
    by (simp add: trim_ref)
  moreover have "recipients k (table_view s) = filter (\<lambda>j. j \<noteq> k) (map fst r)"
    using assms(1) by (simp add: recipients_def in_room_def comp_def case_prod_beta)
  ultimately show ?thesis by (simp add: main_event_def trim_ref name)
qed

text \<open>A departure, of whichever kind, is a call of \<open>client_disconnect\<close>.\<close>

lemma departs_event:
  assumes "in_room s r" and wf: "room_wf ev r" and k: "leaver ev r = Some k"
  obtains "as" a where "table_rep s as" and "map (entry s) as = map (\<lambda>(k, n). (k, Some n)) r"
    and "find (\<lambda>a. c_sock (obj (ch_heap s) a) = k) as = Some a"
    and "main_event slack (server_event ev) s = bindE (client_disconnect (Some a) s) (\<lambda>s. Inr (Some s))"
  using assms(1)
proof (cases rule: in_roomE)
  case (1 "as")
  have "k \<in> set (map fst r)" using wf k by (cases ev) (auto split: if_splits)
  from room_find [OF 1(2) this] obtain a where
    a: "find (\<lambda>a. fst (entry s a) = k) as = Some a" "entry s a = (k, Some (name_of k r))" "a \<in> set as" .
  then have f: "find (\<lambda>a. c_sock (obj (ch_heap s) a) = k) as = Some a" by (simp add: entry_def)
  have "handle_request slack k rs s = client_disconnect (Some a) s" if "server_event ev = ConnReady k rs" for rs
  proof (cases ev)
    case (Says j line)
    then have j: "j = k" "name_of k r \<noteq> []" "c_strneq (trim line) MSG_EXIT (length MSG_EXIT)"
      using k by (auto simp: trim_ref split: if_splits)
    then obtain c cs where "name_of k r = c # cs" by (cases "name_of k r") auto
    then have "c_name (obj (ch_heap s) a) = Some (c # cs)" using a(2) by (simp add: entry_def)
    from request_exit_line [OF 1(1) a(1) this _ _ _ j(3)] wf Says j(1) that show ?thesis by simp
  next
    case (Leaves j)
    with get_by_socket_rep [OF 1(1), of k] f that show ?thesis by (auto simp: handle_request_def)
  qed (use k in simp)
  moreover have "\<exists>rs. server_event ev = ConnReady k rs" using k by (cases ev) (auto split: if_splits)
  ultimately show thesis using that [OF 1(1,2) f] by (auto simp: main_event_def)
qed

lemma refines_leaves:
  assumes "in_room s r" and ok: "room_ok ev r" and k: "leaver ev r = Some k" and roomy: "table_roomy n s"
  shows "\<exists>t. main_event slack (server_event ev) s = Inr (Some t) \<and> in_room t (butlast r) \<and>
    table_roomy n t \<and> sends (ch_out t) = sends (ch_out s)"
proof -
  from ok k have wf: "room_wf ev r" and last: "fst (last r) = k" and few: "length r < START_CLIENTS"
    by (auto simp: room_ok_def)
  from assms(1) wf k obtain "as" a' where
    1: "table_rep s as" "map (entry s) as = map (\<lambda>(k, n). (k, Some n)) r"
      "find (\<lambda>a. c_sock (obj (ch_heap s) a) = k) as = Some a'"
      "main_event slack (server_event ev) s = bindE (client_disconnect (Some a') s) (\<lambda>s. Inr (Some s))"
    by (rule departs_event)
  from assms(1) have dis: "distinct (map fst r)" and cap: "START_CLIENTS \<le> table_cap s" by (simp_all add: in_room_def)
  have "r \<noteq> []" using wf k by (cases ev) (auto split: if_splits)
  then obtain r' m where r: "r = r' @ [(k, m)]" using last by (cases r rule: rev_cases) auto
  with 1(2) obtain bs a where as: "as = bs @ [a]" and bs: "map (entry s) bs = map (\<lambda>(k, n). (k, Some n)) r'"
    and a: "entry s a = (k, Some m)"
    by (cases "as" rule: rev_cases) auto
  have others: "\<forall>b\<in>set bs. c_sock (obj (ch_heap s) b) \<noteq> c_sock (obj (ch_heap s) a)"
  proof
    fix b assume "b \<in> set bs"
    then have "entry s b \<in> set (map (\<lambda>(k, n). (k, Some n)) r')" using bs by (metis image_eqI list.set_map)
    with dis r have "fst (entry s b) \<noteq> k" by (auto simp: image_iff)
    with a show "c_sock (obj (ch_heap s) b) \<noteq> c_sock (obj (ch_heap s) a)" by (simp add: entry_def)
  qed
  then have "find (\<lambda>x. c_sock (obj (ch_heap s) x) = k) bs = None"
    using a by (auto simp: find_None_iff entry_def)
  with 1(3) as have a': "a' = a" by (simp add: find_append_None split: if_splits)
  from 1(1) obtain c where c: "ch_clients s = Some c" by (rule table_repE)
  have rep: "table_rep s (bs @ [a])" using 1(1) as by simp
  have "length as = length r" using arg_cong [OF 1(2), of length] by simp
  with few as cap c have "length bs + 1 < cl_cap c" by (simp add: table_cap_def)
  from client_disconnect_last(1) [OF rep c others this] obtain t where
    t: "client_disconnect (Some a) s = Inr t" "table_rep t bs" "table_view t = butlast (table_view s)"
      "ch_out t = ch_out s @ [EpollDel (c_sock (obj (ch_heap s) a)), Close (c_sock (obj (ch_heap s) a))]"
      "table_cap t = table_cap s" "ch_script t = ch_script s" "live_count (ch_heap t) \<le> live_count (ch_heap s)" by blast
  have "map (entry t) bs = map (\<lambda>(k, n). (k, Some n)) r'"
    using t(3) table_rep_view [OF t(2)] table_rep_view [OF rep] bs by simp
  from in_roomI [OF t(2) this] have "in_room t (butlast r)" using dis cap r t(5) by simp
  moreover have "table_roomy n t"
    using roomy t(6,7) as table_rep_addrs [OF 1(1)] table_rep_addrs [OF t(2)] by (simp add: table_roomy_def)
  ultimately show ?thesis using 1(4) a' t(1,4) by (intro exI [of _ t]) simp
qed

text \<open>Any other departure is a use after free.\<close>

lemma departure_faults:
  assumes "in_room s r" and wf: "room_wf ev r" and k: "leaver ev r = Some k" and inner: "fst (last r) \<noteq> k"
  shows "main_event slack (server_event ev) s = Inl UseAfterFree"
proof -
  from assms(1) wf k obtain "as" a where
    1: "table_rep s as" "map (entry s) as = map (\<lambda>(k, n). (k, Some n)) r"
      "find (\<lambda>a. c_sock (obj (ch_heap s) a) = k) as = Some a"
      "main_event slack (server_event ev) s = bindE (client_disconnect (Some a) s) (\<lambda>s. Inr (Some s))"
    by (rule departs_event)
  from 1(3) obtain i where i: "i < length as" "as ! i = a" "c_sock (obj (ch_heap s) a) = k"
    and first: "\<forall>j<i. c_sock (obj (ch_heap s) (as ! j)) \<noteq> k" by (auto simp: find_Some_iff)
  have "fst (entry s (last as)) = fst (last r)"
    using 1(2) i(1) by (cases "as" rule: rev_cases; cases r rule: rev_cases) (auto split: prod.splits)
  moreover have "as \<noteq> []" using i(1) by auto
  ultimately have "i \<noteq> length as - 1" using i inner by (auto simp: last_conv_nth entry_def)
  then obtain b bs where "drop (Suc i) as = b # bs" using i(1) by (cases "drop (Suc i) as") auto
  then have "as = take i as @ a # b # bs" using i(1,2) by (metis id_take_nth_drop)
  moreover have "\<forall>x\<in>set (take i as). c_sock (obj (ch_heap s) x) \<noteq> c_sock (obj (ch_heap s) a)"
    using first i by (auto simp: in_set_conv_nth)
  ultimately have "client_disconnect (Some a) s = Inl UseAfterFree"
    using client_disconnect_inner [of s "take i as" a b bs] 1(1) by metis
  with 1(4) show ?thesis by simp
qed

lemma room_step_refines:
  assumes "in_room s r" and ok: "room_ok ev r" and "table_roomy (joins ev + n) s" and slack: "\<forall>n. 0 < slack n"
  shows "\<exists>t. main_event slack (server_event ev) s = Inr (Some t) \<and> in_room t (fst (room_step ev r)) \<and>
    table_roomy n t \<and> sends (ch_out t) = sends (ch_out s) @ snd (room_step ev r)"
proof (cases "leaver ev r")
  case (Some k)
  then have "room_step ev r = (butlast r, [])" "joins ev = 0" by (cases ev; auto split: if_splits)+
  with refines_leaves [OF assms(1) ok Some, of n slack] assms(3) show ?thesis by simp
next
  case None
  from ok have wf: "room_wf ev r" by (simp add: room_ok_def)
  show ?thesis
  proof (cases ev)
    case (Joins k)
    with refines_joins [OF assms(1), of k n slack] assms(3) wf show ?thesis by simp
  next
    case (Leaves k)
    with None show ?thesis by simp
  next
    case (Says k line)
    show ?thesis
    proof (cases "name_of k r = []")
      case True
      with Says refines_name [OF assms(1), of k line n slack] assms(3) wf show ?thesis by (auto simp del: room_wf.simps)
    next
      case False
      let ?out = "ch_out s @ map (\<lambda>j. Send j (broadcast_text (name_of k r) (etrim_ref line)))
        (filter (\<lambda>j. j \<noteq> k) (map fst r))"
      have "in_room (s\<lparr>ch_out := ?out\<rparr>) r" "table_roomy n (s\<lparr>ch_out := ?out\<rparr>)"
        using assms(1,3) Says by (simp_all add: in_room_def table_cap_def table_roomy_def table_addrs_def)
      moreover have "\<not> c_strneq (etrim_ref line) MSG_EXIT (length MSG_EXIT)" using None Says False by auto
      ultimately show ?thesis using refines_talk [OF assms(1) _ False slack, of line] wf Says False
        by (intro exI [of _ "s\<lparr>ch_out := ?out\<rparr>"]) (simp add: comp_def del: room_wf.simps)
    qed
  qed
qed

text \<open>The server, with spare bytes behind its buffers, and memory for \<open>n\<close> more clients.\<close>

definition room_rel :: "(nat \<Rightarrow> nat) \<Rightarrow> nat \<Rightarrow> chat \<Rightarrow> room \<Rightarrow> bool" where
  "room_rel slack n s r \<longleftrightarrow> in_room s r \<and> table_roomy n s \<and> (\<forall>n. 0 < slack n)"

interpretation chat_room: simulation room_ok room_step "\<lambda>ev s t. main_event slack (server_event ev) s = Inr (Some t)"
    "\<lambda>s. sends (ch_out s)" "room_rel slack" joins for slack
  by unfold_locales (use room_step_refines in \<open>fastforce simp: room_rel_def\<close>)

lemma main_loop_along:
  "steps_along (\<lambda>ev s t. main_event slack (server_event ev) s = Inr (Some t)) evs s t \<Longrightarrow>
     main_loop slack (map server_event evs) s = Inr (Some t)"
  by (induction evs arbitrary: s) auto

lemma clients_create_start:
  "clients_create [] START_CLIENTS = (Some \<lparr>cl_items = replicate START_CLIENTS None, cl_len = 0, cl_cap = START_CLIENTS\<rparr>, [])"
  by (simp add: clients_create_def START_CLIENTS_def alloc_defs)

lemma chat_main_runs:
  assumes "room_run evs [] = Some (r, out)" and "length evs \<le> MAX_CLIENTS" and "snd (chat_setup ret)"
    and "\<forall>n. 0 < slack n"
  shows "\<exists>t. chat_main slack [] ret (map server_event evs) = Inr (Some t) \<and> in_room t r \<and> sends (ch_out t) = out"
proof -
  let ?s = "\<lparr>ch_heap = [], ch_clients = Some \<lparr>cl_items = replicate START_CLIENTS None, cl_len = 0, cl_cap = START_CLIENTS\<rparr>,
    ch_script = [], ch_out = []\<rparr>"
  have rep: "table_rep ?s []"
    by (simp add: table_rep_def clients_rep_def block_rep_def START_CLIENTS_def MAX_CLIENTS_def size_defs)
  then have "in_room ?s []" by (intro in_roomI [OF rep]) (simp_all add: table_cap_def)
  moreover have "sum_list (map joins evs) \<le> length evs"
  proof (induction evs)
    case (Cons ev evs)
    then show ?case by (cases ev) auto
  qed simp
  then have "table_roomy (sum_list (map joins evs)) ?s"
    using assms(2) table_rep_addrs [OF rep]
    by (simp add: table_roomy_def live_count_def MAX_CLIENTS_def SIZE_MOD_def)
  ultimately have "room_rel slack (sum_list (map joins evs) + 0) ?s []" using assms(4) by (simp add: room_rel_def)
  from chat_room.run_simulates [OF assms(1) this] assms(3) show ?thesis
    by (auto simp: chat_main_def clients_create_start room_rel_def dest: main_loop_along)
qed

section \<open>The clients of the room\<close>

text \<open>
  What the client with socket \<open>k\<close> should see: the lines of the other named clients while it is
  there.
\<close>

fun transcript :: "int \<Rightarrow> room_event list \<Rightarrow> room \<Rightarrow> string list" where
  "transcript k [] r = []"
| "transcript k (ev # evs) r =
     (case ev of
        Says j line \<Rightarrow>
          (if name_of j r \<noteq> [] \<and> leaver ev r = None \<and> j \<noteq> k \<and> k \<in> set (map fst r) then [broadcast_text (name_of j r) (etrim_ref line)] else [])
      | _ \<Rightarrow> []) @ transcript k evs (fst (room_step ev r))"

lemma room_step_distinct: "distinct (map fst r) \<Longrightarrow> room_ok ev r \<Longrightarrow> distinct (map fst (fst (room_step ev r)))"
  by (cases ev) (auto simp: room_ok_def comp_def case_prod_beta map_butlast distinct_butlast)

lemma sent_to_step:
  assumes "distinct (map fst r)"
  shows "sent_to k (snd (room_step ev r)) = (case ev of
        Says j line \<Rightarrow>
          (if name_of j r \<noteq> [] \<and> leaver ev r = None \<and> j \<noteq> k \<and> k \<in> set (map fst r) then [broadcast_text (name_of j r) (etrim_ref line)] else [])
      | _ \<Rightarrow> [])"
proof (cases ev)
  case (Says j line)
  have "distinct (filter (\<lambda>i. i \<noteq> j) (map fst r))" using assms by simp
  from sent_to_once [OF this, of k] Says show ?thesis by (auto simp: sent_to_def)
qed (simp_all add: sent_to_def)

lemma sent_to_transcript:
  "room_run evs r = Some (r', out) \<Longrightarrow> distinct (map fst r) \<Longrightarrow> sent_to k out = transcript k evs r"
proof (induction evs arbitrary: r out)
  case (Cons ev evs)
  then obtain out' where ok: "room_ok ev r" and rest: "room_run evs (fst (room_step ev r)) = Some (r', out')"
    and out: "out = snd (room_step ev r) @ out'"
    by (elim spec_run_ConsE)
  from Cons.IH [OF rest room_step_distinct [OF Cons.prems(2) ok]] out sent_to_step [OF Cons.prems(2), of k ev]
  show ?case by (simp add: sent_to_append)
qed (simp add: sent_to_def)

text \<open>Names are short and have no NUL, so a client can print every message.\<close>

definition printable :: "string \<Rightarrow> bool" where
  "printable m \<longleftrightarrow> m \<noteq> [] \<and> length m < 1024 \<and> NUL \<notin> set m"

definition short_event :: "room_event \<Rightarrow> bool" where
  "short_event ev \<longleftrightarrow> (case ev of Says k line \<Rightarrow> length line \<le> 900 | _ \<Rightarrow> True)"

definition names_ok :: "room \<Rightarrow> bool" where
  "names_ok r \<longleftrightarrow> (\<forall>(k, n)\<in>set r. length n \<le> MAX_NAME_LEN \<and> NUL \<notin> set n)"

lemma etrim_ref_length: "length (etrim_ref line) \<le> length line"
  unfolding trim_ref [symmetric] by (simp add: trim_def)

lemma etrim_ref_NUL: "NUL \<notin> set line \<Longrightarrow> NUL \<notin> set (etrim_ref line)"
  unfolding trim_ref [symmetric] by (rule NUL_trim)

lemma name_of_ok: "names_ok r \<Longrightarrow> k \<in> set (map fst r) \<Longrightarrow> length (name_of k r) \<le> MAX_NAME_LEN \<and> NUL \<notin> set (name_of k r)"
proof -
  assume ok: "names_ok r" and "k \<in> set (map fst r)"
  then obtain n where "map_of r k = Some n" by (metis map_of_eq_None_iff not_None_eq set_map)
  with ok map_of_SomeD [OF this] show ?thesis by (auto simp: names_ok_def name_of_def)
qed

lemma names_ok_step:
  assumes "names_ok r" and "room_ok ev r"
  shows "names_ok (fst (room_step ev r))"
proof (cases ev)
  case (Says k line)
  then show ?thesis using assms etrim_ref_NUL [of line]
    by (auto simp: names_ok_def room_ok_def dest: in_set_takeD in_set_butlastD split: prod.splits)
next
  case (Leaves k)
  then show ?thesis using assms by (auto simp: names_ok_def dest: in_set_butlastD)
qed (use assms in \<open>auto simp: names_ok_def\<close>)

lemma broadcast_printable:
  assumes "names_ok r" and "room_wf (Says k line) r" and "short_event (Says k line)"
  shows "printable (broadcast_text (name_of k r) (etrim_ref line))"
  using name_of_ok [OF assms(1), of k] assms(2,3) etrim_ref_length [of line] etrim_ref_NUL [of line]
  by (auto simp: printable_def broadcast_text_def short_event_def MAX_NAME_LEN_def)

lemma transcript_printable:
  "room_run evs r = Some (r', out) \<Longrightarrow> names_ok r \<Longrightarrow> \<forall>ev\<in>set evs. short_event ev \<Longrightarrow>
     \<forall>m\<in>set (transcript k evs r). printable m"
proof (induction evs arbitrary: r out)
  case (Cons ev evs)
  then obtain out' where ok: "room_ok ev r" and rest: "room_run evs (fst (room_step ev r)) = Some (r', out')"
    by (elim spec_run_ConsE)
  from Cons.IH [OF rest names_ok_step [OF Cons.prems(2) ok]] Cons.prems(3)
  have "\<forall>m\<in>set (transcript k evs (fst (room_step ev r))). printable m" by simp
  with broadcast_printable [OF Cons.prems(2)] ok Cons.prems(3) show ?case
    by (cases ev) (auto simp: room_ok_def simp del: room_step.simps room_wf.simps)
qed simp

section \<open>Properties\<close>

text \<open>
  C5: The chat server refines the room, as far as its code is right. From its start, with memory available and
  one spare byte behind every broadcast buffer (C does not promise one, and without it \<open>broadcast\<close> is out of bounds), and for every
  sequence of connections, names, messages in one piece and departures in which only the client that joined
  last departs, while there are fewer than 100, the server runs without a fault, its table is the
  room (names in order), and the messages it has sent are exactly those of the room, in order. And only
  those departures are handled: when a client that did not join last leaves the room so reached, by closing or by
  saying "exit", the server uses its entry after freeing it.
\<close>

theorem chat_refines_room:
  assumes "room_run evs [] = Some (r, out)" and "length evs \<le> MAX_CLIENTS" and "snd (chat_setup ret)"
    and "\<forall>n. 0 < slack n"
  shows "(\<exists>t. chat_main slack [] ret (map server_event evs) = Inr (Some t) \<and>
      table_view t = map (\<lambda>(k, n). (k, Some n)) r \<and> sends (ch_out t) = out) \<and>
    (\<forall>ev k. room_wf ev r \<and> leaver ev r = Some k \<and> fst (last r) \<noteq> k \<longrightarrow>
      chat_main slack [] ret (map server_event (evs @ [ev])) = Inl UseAfterFree)"
proof -
  from chat_main_runs [OF assms] obtain t where
    t: "chat_main slack [] ret (map server_event evs) = Inr (Some t)" "in_room t r" "sends (ch_out t) = out" by blast
  have "chat_main slack [] ret (map server_event (evs @ [ev])) = Inl UseAfterFree"
    if "room_wf ev r" "leaver ev r = Some k" "fst (last r) \<noteq> k" for ev k
    using t(1) departure_faults [OF t(2) that, of slack]
    by (auto simp: chat_main_def main_loop_append split: prod.splits option.splits if_splits)
  with t show ?thesis by (auto simp: in_room_def)
qed

definition demo_events :: "room_event list" where
  "demo_events =
    [Joins 4, Says 4 ''ann'', Joins 5, Says 5 ''bob'', Says 4 ''hi'', Says 5 ''yo'',
     Says 5 ''exit'', Joins 6]"

lemma demo_trim: "etrim_ref ''ann'' = ''ann''" "etrim_ref ''bob'' = ''bob''" "etrim_ref ''hi'' = ''hi''" "etrim_ref ''yo'' = ''yo''" "etrim_ref ''exit'' = ''exit''"
  by (simp_all add: etrim_ref_def trimmed_def c_isspace_def byte_def)

lemma demo_run: "room_run demo_events [] =
    Some ([(4, ''ann''), (6, [])], [(5, broadcast_text ''ann'' ''hi''), (4, broadcast_text ''bob'' ''yo'')])"
  by (simp add: demo_events_def demo_trim name_of_def BUF_SIZE_def MAX_NAME_LEN_def c_strneq_def MSG_EXIT_def START_CLIENTS_def room_ok_def)

theorem chat_refines_room_witness:
  "(\<exists>t. chat_main (\<lambda>_. 1) [] (\<lambda>_. 3) (map server_event demo_events) = Inr (Some t) \<and>
      table_view t = [(4, Some ''ann''), (6, Some [])] \<and>
      sends (ch_out t) = [(5, broadcast_text ''ann'' ''hi''), (4, broadcast_text ''bob'' ''yo'')]) \<and>
    chat_main (\<lambda>_. 1) [] (\<lambda>_. 3) (map server_event (demo_events @ [Leaves 4])) = Inl UseAfterFree"
proof -
  have "length demo_events \<le> MAX_CLIENTS" "snd (chat_setup (\<lambda>_. 3))" "\<forall>n::nat. 0 < (\<lambda>_. 1::nat) n"
    by (simp_all add: demo_events_def MAX_CLIENTS_def chat_setup_def)
  note r = chat_refines_room [OF demo_run this]
  show ?thesis using r [THEN conjunct1] r [THEN conjunct2, THEN spec, of "Leaves 4"] by simp
qed

text \<open>What a client has said: its name, and then its messages.\<close>

definition said_by :: "int \<Rightarrow> room_event list \<Rightarrow> string list" where
  "said_by j evs = concat (map (\<lambda>ev. case ev of Says k line \<Rightarrow> if k = j then [line] else [] | _ \<Rightarrow> []) evs)"

lemma said_by_short: "\<forall>ev\<in>set evs. short_event ev \<Longrightarrow> \<forall>line\<in>set (said_by j evs). length line < 1024"
  by (auto simp: said_by_def short_event_def split: room_event.splits if_splits)

lemma said_by_clean: "room_run evs r = Some (r', out) \<Longrightarrow> \<forall>line\<in>set (said_by j evs). NUL \<notin> set line"
proof (induction evs arbitrary: r out)
  case (Cons ev evs)
  from Cons.prems show ?case
  proof (rule spec_run_ConsE)
    fix out'
    assume "room_ok ev r" and "room_run evs (fst (room_step ev r)) = Some (r', out')"
    then have "room_wf ev r" and "\<forall>line\<in>set (said_by j evs). NUL \<notin> set line" using Cons.IH
      by (simp add: room_ok_def, blast)
    then show ?thesis unfolding said_by_def by (cases ev) auto
  qed
qed (simp add: said_by_def)

text \<open>
  C6: End to end, for the sessions the server handles (memory, spare bytes behind the broadcast buffers,
  only the client that joined last departs) in which no line is longer than 900 bytes and every message is
  received in one piece. If what the room hears from socket \<open>j\<close> is a name and then the words of a typed
  text, then the client program started with that name and given that text sends exactly these
  messages, one per word, since \<open>scanf ("%s")\<close> splits what is typed at white space; the server handles them
  without a fault; and the client with socket \<open>k\<close> prints exactly the transcript of the room: every line another named
  client has said while it was there, as \<open>[name] line\<close>, once and in order.
\<close>

theorem chat_end_to_end:
  assumes "room_run evs [] = Some (r, out)" and "length evs \<le> MAX_CLIENTS" and "snd (chat_setup ret)"
    and "\<forall>n. 0 < slack n" and "\<forall>ev\<in>set evs. short_event ev" and "snd (chat_client_setup cret)"
  shows "\<exists>t. chat_main slack [] ret (map server_event evs) = Inr (Some t) \<and>
    receive_message (map RxData (sent_to k (sends (ch_out t)))) = Inr (transcript k evs []) \<and>
    (\<forall>j prog name inp. said_by j evs = name # typed_words [] inp \<longrightarrow>
       chat_client_main slack [prog, name] cret inp = Inr (Some (map (Send (cret Socket)) (said_by j evs))))"
proof -
  from chat_main_runs [OF assms(1-4)] obtain t where
    t: "chat_main slack [] ret (map server_event evs) = Inr (Some t)" "sends (ch_out t) = out" by blast
  have "sent_to k out = transcript k evs []" by (rule sent_to_transcript [OF assms(1)]) simp
  moreover have "\<forall>m\<in>set (transcript k evs []). m \<noteq> [] \<and> length m < 1024 \<and> NUL \<notin> set m"
    using transcript_printable [OF assms(1) _ assms(5)] by (auto simp: names_ok_def printable_def)
  moreover have "chat_client_main slack [prog, name] cret inp = Inr (Some (map (Send (cret Socket)) (said_by j evs)))"
    if "said_by j evs = name # typed_words [] inp" for j prog name inp
    using said_by_short [OF assms(5), of j] said_by_clean [OF assms(1), of j] that
    by (simp add: chat_client_main_sends [OF assms(6)])
  ultimately show ?thesis using t by (auto simp: receive_message_prints)
qed

theorem chat_end_to_end_witness:
  "\<exists>t. chat_main (\<lambda>_. 1) [] (\<lambda>_. 3) (map server_event demo_events) = Inr (Some t) \<and>
     receive_message (map RxData (sent_to 5 (sends (ch_out t)))) = Inr [''[ann] hi'' @ [NEWLINE]] \<and>
     chat_client_main (\<lambda>_. 1) [''client'', ''bob''] (\<lambda>_. 3) ('' yo exit'' @ [NEWLINE]) =
       Inr (Some [Send 3 ''bob'', Send 3 ''yo'', Send 3 ''exit''])"
proof -
  have h: "length demo_events \<le> MAX_CLIENTS" "snd (chat_setup (\<lambda>_. 3))" "\<forall>n::nat. 0 < (\<lambda>_. 1::nat) n"
    "\<forall>ev\<in>set demo_events. short_event ev" "snd (chat_client_setup (\<lambda>_. 3))"
    by (simp_all add: demo_events_def MAX_CLIENTS_def chat_setup_def chat_client_setup_def short_event_def)
  have "transcript 5 demo_events [] = [''[ann] hi'' @ [NEWLINE]]"
    by (simp add: demo_events_def demo_trim name_of_def MAX_NAME_LEN_def broadcast_text_def c_strneq_def MSG_EXIT_def)
  moreover have "said_by 5 demo_events = [''bob'', ''yo'', ''exit'']" by (simp add: demo_events_def said_by_def)
  moreover have "typed_words [] ('' yo exit'' @ [NEWLINE]) = [''yo'', ''exit'']"
    by (simp add: c_isspace_def byte_def)
  moreover obtain t where t: "chat_main (\<lambda>_. 1) [] (\<lambda>_. 3) (map server_event demo_events) = Inr (Some t)"
    "receive_message (map RxData (sent_to 5 (sends (ch_out t)))) = Inr (transcript 5 demo_events [])"
    "\<And>j prog name inp. said_by j demo_events = name # typed_words [] inp \<Longrightarrow>
       chat_client_main (\<lambda>_. 1) [prog, name] (\<lambda>_. 3) inp = Inr (Some (map (Send 3) (said_by j demo_events)))"
    using chat_end_to_end [OF demo_run h, of 5] by blast
  moreover note t(3) [of 5 "''bob''" "'' yo exit'' @ [NEWLINE]" "''client''"]
  ultimately show ?thesis by (intro exI [of _ t]) simp
qed

end
