(* ===== verification/Broadcast_Session.thy ===== *)
theory Broadcast_Session
  imports Retry_Clients
begin

text \<open>
  The broadcast server with controller together with the programs that talk to it: the main thread
  that starts it, \<^verbatim>\<open>controller.c\<close>, and the reconnecting \<^verbatim>\<open>client.c\<close>. What the server can say is a small
  language, decimal numbers and texts that begin with "exit", and the clients are shown to
  understand exactly that language.
\<close>

section \<open>The programs\<close>


text \<open>
  \<open>main\<close> of the server: the results of the calls for the two listeners, and what
  \<open>pthread_create\<close> returns for each thread, 0 or a positive error number, which is compared
  with -1. A join of a thread that was not created reads a handle nobody has written; the
  join of the sender otherwise never returns. The result is the list of threads that run.
\<close>

datatype bcast_thread = Sender | Acceptor | Controller

definition bcast_main :: "sys_results \<Rightarrow> sys_results \<Rightarrow> (bcast_thread \<Rightarrow> int) \<Rightarrow> bcast_thread list option res" where
  "bcast_main main_ret ctl_ret create =
     (if create_server_listener main_ret = - 1 then Inr None
      else if create_controller_listener ctl_ret = - 1 then Inr None
      else if create Sender = - 1 then Inr None
      else if create Acceptor = - 1 then Inr None
      else if create Controller = - 1 then Inr None
      else if create Sender \<noteq> 0 then Inl Uninitialised
      else Inr (Some (filter (\<lambda>t. create t = 0) [Sender, Acceptor, Controller])))"

section \<open>What the server says\<close>

definition says :: "string \<Rightarrow> bool" where
  "says text \<longleftrightarrow> NUL \<notin> set text \<and> length text < MAX_BUFSIZE \<and> ((\<exists>n < SIZE_MOD. text = dec n) \<or> take 4 text = C_MSG_EXIT)"

text \<open>A buffer of the sender is a whole one, and the text in it, if it has an end, is one of these.\<close>

definition buffer_says :: "char list \<Rightarrow> bool" where
  "buffer_says buf \<longleftrightarrow> (\<forall>text. c_str buf 0 = Inr text \<longrightarrow> says text)"

definition sender_says :: "sender_pc \<Rightarrow> bool" where
  "sender_says pc \<longleftrightarrow>
     (case pc of SClear buf \<Rightarrow> buffer_says buf | SLock buf \<Rightarrow> buffer_says buf | SLoop buf j \<Rightarrow> buffer_says buf | _ \<Rightarrow> True)"

definition says_inv :: "bcast \<Rightarrow> bool" where
  "says_inv s \<longleftrightarrow> bcast_inv s \<and> bc_counter s < SIZE_MOD \<and> sender_says (bc_sender s) \<and>
     (\<forall>(fd, text)\<in>set (sends (bc_out s)). fd \<in> set (bcast_clients s) \<and> says text)"

lemma says_dec: "n < SIZE_MOD \<Longrightarrow> says (dec n)"
proof -
  assume n: "n < SIZE_MOD"
  then have "length (dec n) \<le> 20" by (intro dec_bound) (simp_all add: SIZE_MOD_def)
  moreover have "NUL \<notin> set (dec n)" using dec_digits [of n] by (auto simp: c_isdigit_def byte_def)
  ultimately show ?thesis using n by (auto simp: says_def MAX_BUFSIZE_def)
qed

lemma buffer_says_number: "n < SIZE_MOD \<Longrightarrow> buffer_says (sprintf_zu junk n)"
  by (simp add: buffer_says_def sprintf_zu_str says_dec)

lemma buffer_says_exit:
  assumes "length junk = MAX_BUFSIZE"
  shows "buffer_says (strncpy_exit junk)"
  unfolding buffer_says_def
proof (intro allI impI)
  fix body assume b: "c_str (strncpy_exit junk) 0 = Inr body"
  have "length body < MAX_BUFSIZE"
    using c_str_length [OF b] assms by (simp add: strncpy_exit_def MAX_BUFSIZE_def C_MSG_EXIT_def)
  with c_str_no_NUL [OF b] exit_text_prefix [OF b] show "says body" by (simp add: says_def C_MSG_EXIT_def)
qed

text \<open>Clients are only ever added.\<close>

lemma bcast_clients_mono:
  assumes inv: "bcast_inv s" and step: "bcast_step slack s t"
  shows "\<exists>fds. bcast_clients t = bcast_clients s @ fds"
proof -
  have same: ?thesis if "bc_fds t = bc_fds s" "bc_n t = bc_n s"
    using that by (intro exI [of _ "[]"]) (simp add: bcast_clients_def)
  from step show ?thesis
  proof (cases rule: bcast_step.cases)
    case (a_adds fd)
    from inv obtain cs where cs: "holds (bc_fds s) cs" "length cs = bc_n s" by (auto simp: bcast_inv_def)
    note t = accept_add_result [OF inv a_adds cs]
    have "bcast_clients t = cs @ [fd]" using slots_holds [OF t(2)] cs(2) by (simp add: bcast_clients_def t(1))
    moreover have "bcast_clients s = cs" using slots_holds [OF cs(1)] cs(2) by (simp add: bcast_clients_def)
    ultimately show ?thesis by simp
  next
    case (s_sends buf j)
    then show ?thesis by (intro same) (auto simp: sender_send_def bindE_eq_Inr_iff split: if_splits)
  next
    case (controls fd r)
    from controller_message_signal [OF this] show ?thesis by (intro same) auto
  qed (intro same; simp add: sender_read_def sender_read2_def sender_clear_def accept_check_def Let_def)+
qed

lemma says_inv_init: "bcast_init s \<Longrightarrow> says_inv s"
  using bcast_inv_init [of s] by (simp add: says_inv_def bcast_init_def sender_says_def SIZE_MOD_def)

lemma says_inv_step:
  assumes inv: "says_inv s" and step: "bcast_step slack s t"
  shows "says_inv t"
proof -
  from inv have bi: "bcast_inv s" and cnt: "bc_counter s < SIZE_MOD" and pc: "sender_says (bc_sender s)"
    and out: "\<forall>(fd, body)\<in>set (sends (bc_out s)). fd \<in> set (bcast_clients s) \<and> says body"
    by (auto simp: says_inv_def)
  from bcast_clients_mono [OF bi step] have mono: "set (bcast_clients s) \<subseteq> set (bcast_clients t)" by auto
  then have kept: "\<forall>(fd, body)\<in>set (sends (bc_out s)). fd \<in> set (bcast_clients t) \<and> says body" using out by blast
  have "bc_counter t < SIZE_MOD \<and> sender_says (bc_sender t) \<and>
    (\<forall>(fd, body)\<in>set (sends (bc_out t)). fd \<in> set (bcast_clients t) \<and> says body)"
    using step
  proof (cases rule: bcast_step.cases)
    case (s_reads junk)
    then show ?thesis using kept cnt buffer_says_exit [of junk]
      by (cases "bc_signal s = C_EXIT") (auto simp: sender_read_def sender_says_def)
  next
    case (s_reads2 junk)
    then show ?thesis using kept cnt buffer_says_number [of _ junk]
      by (simp add: sender_read2_def sender_says_def Let_def size_add_def SIZE_MOD_def)
  next
    case (s_sends buf j)
    show ?thesis
    proof (cases "j < bc_n s")
      case True
      from bi obtain cs where cs: "holds (bc_fds s) cs" "length cs = bc_n s" by (auto simp: bcast_inv_def)
      from True s_sends(2) obtain body where body: "c_str buf 0 = Inr body"
        and t: "t = s\<lparr>bc_out := bc_out s @ [Send (cs ! j) body], bc_sender := SLoop buf (j + 1)\<rparr>"
        using cs by (auto simp: sender_send_def bindE_eq_Inr_iff)
      have "bcast_clients t = cs" using slots_holds [OF cs(1)] cs(2) by (simp add: t bcast_clients_def)
      moreover have "says body" using pc s_sends(1) body by (simp add: sender_says_def buffer_says_def)
      ultimately show ?thesis using kept cnt pc s_sends(1) True cs(2) by (auto simp: t sender_says_def)
    qed (use s_sends kept cnt in \<open>auto simp: sender_send_def sender_says_def\<close>)
  next
    case (a_adds fd)
    then show ?thesis using kept cnt pc by (auto simp: accept_add_def bindE_eq_Inr_iff)
  next
    case (a_accepts fd)
    then have "bc_out t = bc_out s" "bc_counter t = bc_counter s" "bc_sender t = bc_sender s" by (simp_all add: accept_check_def)
    then show ?thesis using kept cnt pc by simp
  next
    case (controls fd r)
    from controller_message_signal [OF this] show ?thesis using kept cnt pc by auto
  qed (use kept cnt pc in \<open>auto simp: sender_says_def sender_clear_def\<close>)
  moreover have "bcast_inv t" using bcast_inv_step [OF bi step] .
  ultimately show ?thesis by (simp add: says_inv_def)
qed

interpretation bcast_says: invariant_system bcast_init "bcast_step slack" says_inv
  by unfold_locales (auto intro: says_inv_init says_inv_step)

section \<open>What the clients make of it\<close>

lemma says_no_exit: "says m \<Longrightarrow> c_strneq m C_MSG_EXIT 4 \<longleftrightarrow> take 4 m = C_MSG_EXIT"
  by (simp add: c_strneq_def C_MSG_EXIT_def)

lemma bc_session_says:
  "\<forall>m\<in>set ms. says m \<Longrightarrow>
     bc_session slack (map RxData ms) a =
       Inr (if \<exists>m\<in>set ms. take 4 m = C_MSG_EXIT then Stops else Waits, if ms = [] then a else 0)"
proof (induction ms arbitrary: a)
  case (Cons m ms)
  then have m: "says m" by simp
  then have ne: "m \<noteq> []" using not_sym [OF dec_nonempty] by (auto simp: says_def C_MSG_EXIT_def)
  have "c_str (m @ [NUL]) 0 = Inr m" using m c_str_terminated [of m "[]"] by (simp add: says_def)
  moreover have "length m < MAX_BUFSIZE" using m by (simp add: says_def)
  ultimately show ?case using Cons ne says_no_exit [OF m] by (cases "ms = []") auto
qed simp

text \<open>
  C13: the server and its clients speak the same language. In every interleaving, every text that has been
  sent went to a client of the array and is a decimal number or begins with "exit"; a client that
  receives the texts sent to it, each in one piece, never faults, stops if and only if one of them
  came from an exit round, and otherwise has reset its counter of failed attempts.
\<close>

theorem broadcast_language:
  assumes "reach bcast_init (bcast_step slack) s"
  shows "(\<forall>(fd, text)\<in>set (sends (bc_out s)). fd \<in> set (bcast_clients s) \<and>
        ((\<exists>n < 2 ^ 64. text = dec n) \<or> take 4 text = ''exit'')) \<and>
    bc_session slack' (map RxData (sent_to fd (sends (bc_out s)))) a =
      Inr (if \<exists>m\<in>set (sent_to fd (sends (bc_out s))). take 4 m = ''exit'' then Stops else Waits, if sent_to fd (sends (bc_out s)) = [] then a else 0)"
proof -
  from bcast_says.reach_inv [OF assms]
  have out: "\<forall>(fd, text)\<in>set (sends (bc_out s)). fd \<in> set (bcast_clients s) \<and> says text" by (simp add: says_inv_def)
  then have "\<forall>m\<in>set (sent_to fd (sends (bc_out s))). says m" by (auto simp: sent_to_def)
  from bc_session_says [OF this] out show ?thesis by (fastforce simp: says_def C_MSG_EXIT_def SIZE_MOD_def)
qed

theorem broadcast_language_witness:
  "bc_session (\<lambda>_. 0) (map RxData (sent_to 9 [(9, ''0'')])) 3 = Inr (Waits, 0)"
  using broadcast_language [OF bcast_demo_reach_round, of "\<lambda>_. 0" 9 3] by (simp add: bcast_demo_def sent_to_def)

section \<open>The exit command\<close>





















text \<open>
  the threads: \<open>pthread_create\<close> returns 0 or a positive error number, so no failure to create a
  thread is ever noticed. If the listeners are open the server never exits; without the sender it joins
  a thread that does not exist, otherwise it runs with the threads that were created.
\<close>

theorem bcast_main_ignores_threads:
  assumes "snd (listener_calls main_ret)" and "snd (listener_calls ctl_ret)" and "\<forall>t. 0 \<le> create t"
  shows "bcast_main main_ret ctl_ret create =
    (if create Sender = 0 then Inr (Some (filter (\<lambda>t. create t = 0) [Sender, Acceptor, Controller]))
     else Inl Uninitialised)"
proof -
  have "main_ret Socket \<noteq> - 1" "ctl_ret Socket \<noteq> - 1" using assms(1,2) by (auto simp: listener_calls_def split: if_splits)
  moreover have "create t \<noteq> - 1" for t using assms(3) by (metis neg_0_le_iff_le not_one_le_zero)
  ultimately show ?thesis using assms(1,2)
    by (simp add: bcast_main_def create_server_listener_def create_controller_listener_def)
qed

theorem bcast_main_ignores_threads_witness:
  "bcast_main (\<lambda>_. 3) (\<lambda>_. 4) (\<lambda>t. if t = Controller then 11 else 0) = Inr (Some [Sender, Acceptor])"
  by (subst bcast_main_ignores_threads) (simp_all add: listener_calls_def)

end
