(* ===== verification/Channel_Session.thy ===== *)
theory Channel_Session
  imports Channel_Properties
begin

text \<open>
  The channel chat server when its manager keeps up: between two messages the manager handles the event
  the first of them has become. The threads are then scheduled as by \<open>chan_turn\<close>, which is shown to be a
  run of the step relation, and the server refines a list of members with the channels they are registered
  for. (Without this scheduling events are lost, see \<open>Channel_Properties\<close>.)
\<close>

section \<open>Turns\<close>

text \<open>The manager from \<open>sem_wait\<close> to \<open>sem_wait\<close>; the fuel is one iteration per connection and one for the last test.\<close>

fun mgr_loop :: "nat \<Rightarrow> mgr_pc \<Rightarrow> srv \<Rightarrow> (mgr_pc \<times> srv) res" where
  "mgr_loop 0 pc s = Inr (pc, s)"
| "mgr_loop (Suc k) pc s =
     (case pc of
        MgrSend ev msg i \<Rightarrow> bindE (mgr_send ev msg i s) (\<lambda>(pc, s). mgr_loop k pc s)
      | _ \<Rightarrow> Inr (pc, s))"

definition mgr_turn :: "(nat \<Rightarrow> nat) \<Rightarrow> chan \<Rightarrow> chan res" where
  "mgr_turn slack s =
     bindE (evqueue_peek (ch_srv s)) (\<lambda>ev.
     bindE (mgr_dispatch slack ev (ch_srv s)) (\<lambda>(pc, u).
     bindE (get_conns u) (\<lambda>c.
     bindE (mgr_loop (cs_size c + 1) pc u) (\<lambda>(pc, u).
     Inr (s\<lparr>ch_srv := u, ch_mgr := pc, ch_sem := ch_sem s - 1,
            ch_handled := (case ev of None \<Rightarrow> ch_handled s | Some e \<Rightarrow> ch_handled s @ [e])\<rparr>)))))"

datatype chan_event =
    Connects int              \<comment> \<open>what \<open>accept\<close> returns\<close>
  | Sends nat string          \<comment> \<open>what the \<open>recv\<close> of a receiver returns\<close>

definition chan_turn :: "(nat \<Rightarrow> nat) \<Rightarrow> char list \<Rightarrow> chan_event \<Rightarrow> chan \<Rightarrow> chan res" where
  "chan_turn slack junk ev s =
     (case ev of
        Connects cs \<Rightarrow>
          bindE (main_accept cs True (length (ch_rcv s)) (ch_srv s)) (\<lambda>(rs, u).
          Inr (s\<lparr>ch_srv := u, ch_rcv := ch_rcv s @ rs\<rparr>))
      | Sends i d \<Rightarrow>
          (case ch_rcv s ! i of
             None \<Rightarrow> Inr s
           | Some conn \<Rightarrow>
               bindE (receiver_iteration conn junk (RxData d) (ch_srv s)) (\<lambda>(posted, u).
               if posted then mgr_turn slack (s\<lparr>ch_srv := u, ch_sem := ch_sem s + 1\<rparr>)
               else Inr (s\<lparr>ch_srv := u, ch_rcv := (ch_rcv s)[i := None]\<rparr>))))"

fun chan_turns :: "(nat \<Rightarrow> nat) \<Rightarrow> char list \<Rightarrow> chan_event list \<Rightarrow> chan \<Rightarrow> chan res" where
  "chan_turns slack junk [] s = Inr s"
| "chan_turns slack junk (ev # evs) s = bindE (chan_turn slack junk ev s) (chan_turns slack junk evs)"

text \<open>A turn is a run of the threads.\<close>

lemma mgr_loop_run:
  "mgr_loop k (ch_mgr s) (ch_srv s) = Inr (pc, u) \<Longrightarrow> (chan_step slack)\<^sup>*\<^sup>* s (s\<lparr>ch_mgr := pc, ch_srv := u\<rparr>)"
proof (induction k arbitrary: s)
  case 0
  then show ?case by (cases s) simp
next
  case (Suc k)
  show ?case
  proof (cases "ch_mgr s")
    case (MgrSend ev msg i)
    with Suc.prems obtain pc' u' where m: "mgr_send ev msg i (ch_srv s) = Inr (pc', u')" "mgr_loop k pc' u' = Inr (pc, u)"
      by (auto simp: bindE_eq_Inr_iff)
    let ?t = "s\<lparr>ch_mgr := pc', ch_srv := u'\<rparr>"
    from Suc.IH [of ?t] m(2) have "(chan_step slack)\<^sup>*\<^sup>* ?t (s\<lparr>ch_mgr := pc, ch_srv := u\<rparr>)" by simp
    with mgr_sends [OF MgrSend m(1)] show ?thesis by (rule converse_rtranclp_into_rtranclp)
  qed (use Suc.prems in \<open>cases s; simp\<close>)+
qed

lemma mgr_turn_run:
  assumes "ch_mgr s = MgrWait" and "0 < ch_sem s" and "mgr_turn slack s = Inr t"
  shows "(chan_step slack)\<^sup>*\<^sup>* s t"
proof -
  from assms(3) obtain ev where ev: "evqueue_peek (ch_srv s) = Inr ev"
    by (auto simp: mgr_turn_def bindE_eq_Inr_iff)
  with assms(3) obtain pc u where d: "mgr_dispatch slack ev (ch_srv s) = Inr (pc, u)"
    by (auto simp: mgr_turn_def bindE_eq_Inr_iff)
  with assms(3) ev obtain c where c: "get_conns u = Inr c"
    by (auto simp: mgr_turn_def bindE_eq_Inr_iff)
  with assms(3) ev d obtain pc' u' where l: "mgr_loop (cs_size c + 1) pc u = Inr (pc', u')"
    by (auto simp: mgr_turn_def bindE_eq_Inr_iff simp del: mgr_loop.simps)
  have t: "t = s\<lparr>ch_srv := u', ch_mgr := pc', ch_sem := ch_sem s - 1,
      ch_handled := (case ev of None \<Rightarrow> ch_handled s | Some e \<Rightarrow> ch_handled s @ [e])\<rparr>"
    using assms(3) ev d c l by (simp add: mgr_turn_def del: mgr_loop.simps)
  let ?a = "s\<lparr>ch_mgr := MgrPeek, ch_sem := ch_sem s - 1\<rparr>"
  let ?b = "?a\<lparr>ch_mgr := MgrEvent ev, ch_handled := (case ev of None \<Rightarrow> ch_handled s | Some e \<Rightarrow> ch_handled s @ [e])\<rparr>"
  let ?c = "?b\<lparr>ch_mgr := pc, ch_srv := u\<rparr>"
  have 1: "chan_step slack s ?a" by (rule mgr_wakes [OF assms(1,2)])
  have 2: "chan_step slack ?a ?b" using mgr_peeks [of ?a ev slack] ev by (cases ev) simp_all
  have 3: "chan_step slack ?b ?c" using mgr_dispatches [of ?b ev slack pc u] d by simp
  have "t = ?c\<lparr>ch_mgr := pc', ch_srv := u'\<rparr>" by (cases s) (simp add: t)
  with mgr_loop_run [of "cs_size c + 1" ?c pc' u' slack] l have "(chan_step slack)\<^sup>*\<^sup>* ?c t" by (simp del: mgr_loop.simps)
  with 1 2 3 show ?thesis by (meson converse_rtranclp_into_rtranclp)
qed

lemma chan_turn_run:
  assumes "ch_mgr s = MgrWait" and junk: "length junk = CH_BUF_SIZE" and "chan_turn slack junk ev s = Inr t"
    and "\<And>i d. ev = Sends i d \<Longrightarrow> i < length (ch_rcv s)"
  shows "(chan_step slack)\<^sup>*\<^sup>* s t"
proof (cases ev)
  case (Connects cs)
  with assms(3) show ?thesis by (auto simp: chan_turn_def bindE_eq_Inr_iff intro: accepts)
next
  case (Sends i d)
  show ?thesis
  proof (cases "ch_rcv s ! i")
    case None
    with assms(3) Sends show ?thesis by (simp add: chan_turn_def)
  next
    case (Some conn)
    with assms(3) Sends obtain posted u where
      r: "receiver_iteration conn junk (RxData d) (ch_srv s) = Inr (posted, u)" and
      t: "if posted then mgr_turn slack (s\<lparr>ch_srv := u, ch_sem := ch_sem s + 1\<rparr>) = Inr t
          else t = s\<lparr>ch_srv := u, ch_rcv := (ch_rcv s)[i := None]\<rparr>"
      by (auto simp: chan_turn_def bindE_eq_Inr_iff split: if_splits)
    show ?thesis
    proof (cases posted)
      case True
      let ?s = "s\<lparr>ch_srv := u, ch_sem := ch_sem s + 1\<rparr>"
      have "chan_step slack s ?s" using receives [OF assms(4) [OF Sends] Some junk, of "RxData d" u] r True by simp
      moreover have "(chan_step slack)\<^sup>*\<^sup>* ?s t" using mgr_turn_run [of ?s slack t] assms(1) t True by simp
      ultimately show ?thesis by (rule converse_rtranclp_into_rtranclp)
    next
      case False
      with receiver_ends [OF assms(4) [OF Sends] Some junk, of "RxData d" u] r t show ?thesis by auto
    qed
  qed
qed

section \<open>What an operation achieves when there is memory\<close>

text \<open>The queue of events has room for \<open>n\<close> more, if it doubles whenever it is full.\<close>

definition evq_fit :: "nat \<Rightarrow> EvQueue \<Rightarrow> bool" where
  "evq_fit n q \<longleftrightarrow> 2 * max (evq_cap q) (2 * (evq_size q + n)) * PTR_SIZE \<le> PTRDIFF_MAX"

lemma evq_grow_ok:
  assumes rep: "queue_events s es" and q: "m_q (sv_mgr s) = Some q" and sc: "sv_script s = []" and fit: "evq_fit (Suc n) q"
  shows "\<exists>q'. evq_grow s = Inr (Some q', put_q (Some q') s) \<and> evq_rep q' es \<and> length es < evq_cap q' \<and> evq_fit (Suc n) q'"
proof -
  from rep q have qr: "evq_rep q es" and get: "get_q s = Inr q" by (auto simp: queue_events_def get_q_def)
  then have b: "block_rep PTR_SIZE (evq_events q) (evq_cap q) es" "0 < PTR_SIZE" and size: "evq_size q = length es"
    by (simp_all add: evq_rep_def PTR_SIZE_def)
  have same: "put_q (Some q) s = s" using q by (cases s; cases "sv_mgr s") (simp add: put_q_def)
  show ?thesis
  proof (cases "length es < evq_cap q")
    case True
    with get size qr fit show ?thesis by (intro exI [of _ q]) (simp add: evq_grow_def same)
  next
    case full: False
    from b full show ?thesis
    proof (cases rule: block_double_cases [where sc = "[]"])
      case granted
      let ?q = "q\<lparr>evq_events := evq_events q @ replicate (evq_cap q) None, evq_cap := 2 * evq_cap q\<rparr>"
      have nop: "put_q p (s\<lparr>sv_script := []\<rparr>) = put_q p s" for p using sc by (cases s) (simp add: put_q_def)
      have "evq_grow s = Inr (Some ?q, put_q (Some ?q) s)" using get size granted sc by (simp add: evq_grow_def Let_def nop)
      moreover have "evq_fit (Suc n) ?q" using fit granted size by (simp add: evq_fit_def max_def)
      ultimately show ?thesis using granted size by (intro exI [of _ ?q]) (simp add: evq_rep_def)
    next
      case refused
      have "2 * evq_cap q * PTR_SIZE \<le> PTRDIFF_MAX" using fit by (auto simp: evq_fit_def PTR_SIZE_def max_def split: if_splits)
      with refused show ?thesis by simp
    qed
  qed
qed

text \<open>\<open>queue_add\<close> for a message that has a channel: the event is the newest one.\<close>

lemma evqueue_add_ok:
  assumes rep: "queue_events s es" and q: "m_q (sv_mgr s) = Some q" and sc: "sv_script s = []" and fit: "evq_fit (Suc n) q"
    and mem: "live_count (sv_events s) + 1 < SIZE_MOD"
    and msg: "parse_message msg = Inr (Some (channel, off))" "c_str msg off = Inr body"
  shows "\<exists>q'. evqueue_add conn msg s = Inr (0, put_q (Some q')
       (s\<lparr>sv_events := sv_events s @ [Some \<lparr>ev_conn = conn, ev_msg = Some body, ev_channel = channel\<rparr>]\<rparr>)) \<and>
     evq_rep q' (es @ [length (sv_events s)]) \<and> evq_fit n q'"
proof -
  from evq_grow_ok [OF rep q sc fit] obtain p where
    p: "evq_grow s = Inr (Some p, put_q (Some p) s)" "evq_rep p es" "length es < evq_cap p" "evq_fit (Suc n) p" by blast
  let ?q = "p\<lparr>evq_events := (evq_events p)[length es := Some (length (sv_events s))], evq_size := Suc (length es)\<rparr>"
  have b: "block_rep PTR_SIZE (evq_events p) (evq_cap p) es" and size: "evq_size p = length es"
    using p(2) by (simp_all add: evq_rep_def)
  have "Suc (length es) < SIZE_MOD" using b by (rule block_rep_small) (simp add: PTR_SIZE_def)
  moreover have "length es < length (evq_events p)" using p(3) block_rep_room [OF b] by simp
  moreover have nop: "s\<lparr>sv_events := E, sv_script := [], sv_mgr := M\<rparr> = s\<lparr>sv_events := E, sv_mgr := M\<rparr>" for E M
    using sc by (cases s) simp
  ultimately have "evqueue_add conn msg s = Inr (0, put_q (Some ?q)
       (s\<lparr>sv_events := sv_events s @ [Some \<lparr>ev_conn = conn, ev_msg = Some body, ev_channel = channel\<rparr>]\<rparr>))"
    using p(1) msg mem sc size
    by (simp add: evqueue_add_def event_create_def halloc_ok c_strdup_def size_add_small put_q_def)
  moreover have "evq_rep ?q (es @ [length (sv_events s)])" using b p(3) size block_rep_snoc [OF b p(3)] by (simp add: evq_rep_def)
  moreover have "evq_fit n ?q" using p(4) size by (auto simp: evq_fit_def PTR_SIZE_def max_def split: if_splits)
  ultimately show ?thesis by blast
qed


section \<open>The club\<close>

text \<open>
  What the server is meant to be: a list of members, each with its socket and the channels it has registered
  for. A member tells a channel a text; the text "$reg" registers it for that channel, any other text
  goes to the other members of the channel. The server takes 24 members.
\<close>

type_synonym club = "(int \<times> int list) list"

datatype club_event = Enters int | Tells nat nat string

fun club_ok :: "club_event \<Rightarrow> club \<Rightarrow> bool" where
  "club_ok (Enters k) r \<longleftrightarrow> 0 \<le> k \<and> k \<le> INT_MAX \<and> length r < MAX_CONNS"
| "club_ok (Tells i n body) r \<longleftrightarrow> i < length r \<and> 0 < n \<and> int n \<le> INT_MAX \<and> NUL \<notin> set body \<and>
     length (dec n @ SPACE # body) < CH_BUF_SIZE"

fun club_step :: "club_event \<Rightarrow> club \<Rightarrow> club \<times> (int \<times> string) list" where
  "club_step (Enters k) r = (r @ [(k, [])], [])"
| "club_step (Tells i n body) r =
     (let (k, channels) = r ! i
      in if c_strneq body ''$reg'' 4 then (r[i := (k, channels @ [int n])], [])
         else (r, map (\<lambda>(j, _). (j, event_text k body)) (filter (\<lambda>(j, cs). j \<noteq> k \<and> int n \<in> set cs) r)))"

abbreviation club_run :: "club_event list \<Rightarrow> club \<Rightarrow> (club \<times> (int \<times> string) list) option" where
  "club_run \<equiv> spec_run club_ok club_step"

text \<open>The message of the protocol: the channel, a space, the text.\<close>

fun turn_of :: "club_event \<Rightarrow> chan_event" where
  "turn_of (Enters k) = Connects k"
| "turn_of (Tells i n body) = Sends i (dec n @ SPACE # body)"

definition member_of :: "srv \<Rightarrow> addr \<Rightarrow> int \<times> int list" where
  "member_of u a = (sock_of u a, case cn_channels (obj (sv_conns u) a) of None \<Rightarrow> [] | Some ch \<Rightarrow> channels_list ch)"

definition chan_view :: "chan \<Rightarrow> club" where
  "chan_view s = map (member_of (ch_srv s)) (conn_addrs (ch_srv s))"

text \<open>
  Between two turns, with memory for \<open>n\<close> more of them: the connections \<open>as\<close> have their channels,
  the queue holds the events \<open>es\<close> of all turns so far.
\<close>

definition conn_ready :: "nat \<Rightarrow> srv \<Rightarrow> addr \<Rightarrow> bool" where
  "conn_ready n u a \<longleftrightarrow> conn_ok u a \<and> 0 \<le> sock_of u a \<and> sock_of u a \<le> INT_MAX \<and>
     (\<exists>ch. cn_channels (obj (sv_conns u) a) = Some ch \<and> channels_fit n ch)"

definition srv_ready :: "nat \<Rightarrow> srv \<Rightarrow> addr list \<Rightarrow> addr list \<Rightarrow> bool" where
  "srv_ready n u as es \<longleftrightarrow> sv_script u = [] \<and> table_conns u as \<and> length as \<le> MAX_CONNS \<and>
     (\<exists>c. m_conns (sv_mgr u) = Some c \<and> cs_cap c = 1000) \<and> (\<forall>a\<in>set as. conn_ready n u a) \<and>
     queue_events u es \<and> (\<exists>q. m_q (sv_mgr u) = Some q \<and> evq_fit n q) \<and>
     live_count (sv_events u) + n < SIZE_MOD - 1 \<and> live_count (sv_conns u) + n < SIZE_MOD - 1 \<and> n < 2 ^ 40"

definition quiet :: "nat \<Rightarrow> chan \<Rightarrow> club \<Rightarrow> bool" where
  "quiet n s r \<longleftrightarrow> ch_mgr s = MgrWait \<and> ch_sem s = 0 \<and>
     (\<exists>as es. srv_ready n (ch_srv s) as es \<and> ch_rcv s = map Some as \<and> map (member_of (ch_srv s)) as = r)"

lemma quiet_view: "quiet n s r \<Longrightarrow> chan_view s = r"
  by (auto simp: quiet_def srv_ready_def chan_view_def table_conns_addrs)

lemma channels_fit_mono: "channels_fit (Suc n) ch \<Longrightarrow> channels_fit n ch"
  by (auto simp: channels_fit_def INT_SIZE_def max_def split: if_splits)

lemma evq_fit_mono: "evq_fit (Suc n) q \<Longrightarrow> evq_fit n q"
  by (auto simp: evq_fit_def PTR_SIZE_def max_def split: if_splits)

lemma conn_ready_mono: "conn_ready (Suc n) u a \<Longrightarrow> conn_ready n u a"
  by (auto simp: conn_ready_def intro: channels_fit_mono)

text \<open>A connection is accepted.\<close>

abbreviation no_channels :: Channels where
  "no_channels \<equiv> \<lparr>chn_items = replicate 100 None, chn_cap = 100, chn_size = 0\<rparr>"

abbreviation accepted :: "int \<Rightarrow> Conns \<Rightarrow> nat \<Rightarrow> srv \<Rightarrow> srv" where
  "accepted k c n u \<equiv> put_conns (Some (c\<lparr>cs_items := (cs_items c)[n := Some (length (sv_conns u))], cs_size := Suc n\<rparr>))
     (u\<lparr>sv_conns := sv_conns u @ [Some \<lparr>cn_sock = k, cn_channels = Some no_channels\<rparr>]\<rparr>)"

lemma no_channels_rep: "channels_rep no_channels []"
  using new_channels_rep [of "[]" no_channels "[]"] by (simp add: channels_create_def alloc_defs)

lemma accept_result:
  assumes ready: "srv_ready (Suc n) u as es" and k: "0 \<le> k" and room: "length as < MAX_CONNS"
    and c: "m_conns (sv_mgr u) = Some c" "conns_rep c as" "cs_cap c = 1000"
  shows "main_accept k True (length as) u = Inr ([Some (length (sv_conns u))], accepted k c (length as) u)"
proof -
  from ready have sc: "sv_script u = []" and mem: "live_count (sv_conns u) + 1 < SIZE_MOD" by (auto simp: srv_ready_def)
  let ?a = "length (sv_conns u)"
  have nop: "put_conns p (u\<lparr>sv_conns := h, sv_script := []\<rparr>) = put_conns p (u\<lparr>sv_conns := h\<rparr>)"
    "(put_conns p (u\<lparr>sv_conns := h\<rparr>))\<lparr>sv_script := []\<rparr> = put_conns p (u\<lparr>sv_conns := h\<rparr>)" for p h
    using sc by (cases u, simp add: put_conns_def)+
  have "channels_create [] 100 = (Some no_channels, [])" by (simp add: channels_create_def alloc_defs)
  then have create: "conn_create k u =
      (Some ?a, u\<lparr>sv_conns := sv_conns u @ [Some \<lparr>cn_sock = k, cn_channels = Some no_channels\<rparr>], sv_script := []\<rparr>)"
    using sc mem by (simp add: conn_create_def halloc_ok)
  have "get_conns u = Inr c" using c(1) by (simp add: get_conns_def)
  moreover have "length as < cs_cap c" using room c(3) by (simp add: MAX_CONNS_def)
  moreover have "size_add (length as) 1 = Suc (length as)"
    using room by (simp add: size_add_small SIZE_MOD_def MAX_CONNS_def)
  ultimately have "conns_add k u = Inr (Some ?a, accepted k c (length as) u)"
    using create conns_rep_size [OF c(2)] c(2) by (simp add: conns_add_def conns_grow_def nop conns_rep_iff)
  moreover have "k \<noteq> - 1" using k by simp
  moreover have "sv_script (accepted k c (length as) u) = []" using sc by (simp add: put_conns_def)
  ultimately show ?thesis using room nop(2) by (simp add: main_accept_def receiver_ctx_create_def)
qed

lemma accept_turn:
  assumes ready: "srv_ready (Suc n) u as es" and k: "0 \<le> k" "k \<le> INT_MAX" and room: "length as < MAX_CONNS"
  shows "\<exists>t a. main_accept k True (length as) u = Inr ([Some a], t) \<and> srv_ready n t (as @ [a]) es \<and>
    map (member_of t) (as @ [a]) = map (member_of u) as @ [(k, [])] \<and> sv_out t = sv_out u"
proof -
  from ready have tab: "table_conns u as" and sc: "sv_script u = []" by (auto simp: srv_ready_def)
  from ready obtain c where c: "m_conns (sv_mgr u) = Some c" "cs_cap c = 1000" by (auto simp: srv_ready_def)
  with tab have crep: "conns_rep c as" and get: "get_conns u = Inr c" by (auto simp: table_conns_def get_conns_def)
  let ?a = "length (sv_conns u)" and ?t = "accepted k c (length as) u"
  have len: "length as < cs_cap c" using room c(2) by (simp add: MAX_CONNS_def)
  note acc = accept_result [OF ready k(1) room c(1) crep c(2)]
  have app: "table_conns ?t (as @ [?a])" "sock_of ?t ?a = k" "keeps_conns u ?t" "cn_channels (obj (sv_conns ?t) ?a) = Some no_channels"
    by (rule conns_append [OF tab crep len no_channels_rep]; simp add: put_conns_def)+
  have old: "member_of ?t a = member_of u a" "conn_ready n ?t a" if "a \<in> set as" for a
  proof -
    have "conn_ready (Suc n) u a" using ready that by (simp add: srv_ready_def)
    then have r: "conn_ready n u a" by (rule conn_ready_mono)
    then have "obj (sv_conns ?t) a = obj (sv_conns u) a" using app(3) by (simp add: keeps_conns_def conn_ready_def conn_ok_def)
    then show "member_of ?t a = member_of u a" "conn_ready n ?t a" using r keeps_conns_ok [OF app(3)]
      by (simp_all add: member_of_def sock_of_def conn_ready_def)
  qed
  have "n < 2 ^ 40" using ready by (simp add: srv_ready_def)
  then have "channels_fit n no_channels" by (simp add: channels_fit_def INT_SIZE_def PTRDIFF_MAX_def)
  moreover have "conn_ok ?t ?a" using app(1) by (simp add: table_conns_def)
  ultimately have "conn_ready n ?t ?a" using app(2,4) k by (simp add: conn_ready_def)
  moreover have "sv_script ?t = []" using sc by (simp add: put_conns_def)
  moreover have "\<exists>c. m_conns (sv_mgr ?t) = Some c \<and> cs_cap c = 1000" "m_q (sv_mgr ?t) = m_q (sv_mgr u)" "sv_events ?t = sv_events u"
    "queue_events ?t es = queue_events u es" "live_count (sv_conns ?t) = Suc (live_count (sv_conns u))"
    using c by (simp_all add: put_conns_def queue_events_def)
  ultimately have "srv_ready n ?t (as @ [?a]) es"
    using ready app(1) old(2) room evq_fit_mono by (auto simp: srv_ready_def)
  moreover have "member_of ?t ?a = (k, [])" using app(2,4) channels_rep_list [OF no_channels_rep] by (simp add: member_of_def)
  moreover have "map (member_of ?t) as = map (member_of u) as" using old(1) by simp
  moreover have "sv_out ?t = sv_out u" by (simp add: put_conns_def)
  ultimately show ?thesis using acc by (intro exI [of _ ?t] exI [of _ ?a]) simp
qed

text \<open>A message arrives and becomes the newest event.\<close>

lemma receive_turn:
  assumes ready: "srv_ready (Suc n) u as es" and a: "a \<in> set as" and junk: "length junk = CH_BUF_SIZE"
    and msg: "0 < m" "int m \<le> INT_MAX" "NUL \<notin> set body" "length (dec m @ SPACE # body) < CH_BUF_SIZE"
  shows "\<exists>t. receiver_iteration a junk (RxData (dec m @ SPACE # body)) u = Inr (True, t) \<and>
    srv_ready n t as (es @ [length (sv_events u)]) \<and> conn_ready (Suc n) t a \<and> (\<forall>b. member_of t b = member_of u b) \<and> sv_out t = sv_out u \<and>
    is_live (sv_events t) (length (sv_events u)) \<and>
    obj (sv_events t) (length (sv_events u)) = \<lparr>ev_conn = a, ev_msg = Some body, ev_channel = int m\<rparr>"
proof -
  let ?d = "dec m @ SPACE # body"
  from ready obtain q where q: "m_q (sv_mgr u) = Some q" "evq_fit (Suc n) q" and qe: "queue_events u es"
    and sc: "sv_script u = []" and mem: "live_count (sv_events u) + 1 < SIZE_MOD" by (auto simp: srv_ready_def)
  have cr: "conn_ready (Suc n) u a" using ready a by (simp add: srv_ready_def)
  obtain k where k: "CH_BUF_SIZE - length ?d = Suc k" using msg(4) by (metis Suc_diff_Suc)
  have "(buf_write junk ?d)[length ?d := NUL] = ?d @ NUL # drop (Suc (length ?d)) junk"
    using junk msg(4) by (simp add: buf_write_def list_update_append Cons_nth_drop_Suc [symmetric])
  then have buf: "(buf_write junk ?d)[length ?d := NUL] = dec m @ SPACE # body @ NUL # drop (Suc (length ?d)) junk" by simp
  have "length (dec m @ SPACE # body @ NUL # drop (Suc (length ?d)) junk) \<le> CH_BUF_SIZE" using junk msg(4) by simp
  note parse = parse_message_dec [OF msg(1-3) this]
  from evqueue_add_ok [OF qe q(1) sc q(2) mem parse] obtain q' where
    add: "evqueue_add a ((buf_write junk ?d)[length ?d := NUL]) u = Inr (0, put_q (Some q')
       (u\<lparr>sv_events := sv_events u @ [Some \<lparr>ev_conn = a, ev_msg = Some body, ev_channel = int m\<rparr>]\<rparr>))"
    and q': "evq_rep q' (es @ [length (sv_events u)])" "evq_fit n q'" unfolding buf by blast
  let ?t = "put_q (Some q') (u\<lparr>sv_events := sv_events u @ [Some \<lparr>ev_conn = a, ev_msg = Some body, ev_channel = int m\<rparr>]\<rparr>)"
  have "recv_upto (CH_BUF_SIZE - 1) (RxData ?d) = RxData ?d" using msg(4) by simp
  with add cr have run: "receiver_iteration a junk (RxData ?d) u = Inr (True, ?t)"
    by (simp add: receiver_iteration_def conn_ready_def conn_ok_def del: recv_upto.simps)
  have same: "same_conns u ?t" by (simp add: same_conns_def put_q_def)
  have cr': "conn_ready j ?t b = conn_ready j u b" "member_of ?t b = member_of u b" for b j
    by (simp_all add: conn_ready_def member_of_def conn_ok_def sock_of_def put_q_def)
  have "queue_events ?t (es @ [length (sv_events u)])"
    using q'(1) qe by (auto simp: queue_events_def put_q_def dest: is_live_less)
  then have "srv_ready n ?t as (es @ [length (sv_events u)])"
    using ready q'(2) same_conns_table [OF same] conn_ready_mono cr'(1) by (auto simp: srv_ready_def put_q_def)
  with run cr cr' show ?thesis by (intro exI [of _ ?t]) (simp add: put_q_def)
qed

text \<open>The manager broadcasts the event.\<close>

lemma mgr_loop_broadcast:
  assumes "broadcast_ready u e as" and "i \<le> length as" and "length as - i < k"
  shows "mgr_loop k (MgrSend e msg i) u = Inr (MgrWait, u\<lparr>sv_out := sv_out u @ deliveries u e msg (drop i as)\<rparr>)"
  using assms
proof (induction k arbitrary: i u)
  case (Suc k)
  show ?case
  proof (cases "i < length as")
    case False
    with Suc.prems mgr_send_rep(2) [OF Suc.prems(1), of i msg] show ?thesis by (cases k) (simp_all add: deliveries_def)
  next
    case True
    let ?v = "u\<lparr>sv_out := sv_out u @ deliveries u e msg [as ! i]\<rparr>"
    have send: "mgr_send e msg i u = Inr (MgrSend e msg (i + 1), ?v)"
      using mgr_send_rep(1) [OF Suc.prems(1) True, of msg] by (simp add: deliveries_def)
    have "drop i as = as ! i # drop (i + 1) as" using True by (simp add: Cons_nth_drop_Suc)
    then have d: "deliveries u e msg (drop i as) = deliveries u e msg [as ! i] @ deliveries u e msg (drop (i + 1) as)"
      by (simp add: deliveries_def)
    have "mgr_loop k (MgrSend e msg (i + 1)) ?v = Inr (MgrWait, ?v\<lparr>sv_out := sv_out ?v @ deliveries ?v e msg (drop (i + 1) as)\<rparr>)"
      using Suc.prems True by (intro Suc.IH) auto
    with send show ?thesis unfolding d by simp
  qed
qed simp

lemma deliveries_members:
  assumes "\<forall>b\<in>set as. conn_ready n u b" and e: "obj (sv_events u) e = \<lparr>ev_conn = a, ev_msg = Some body, ev_channel = c\<rparr>"
  shows "deliveries u e msg as =
    map (\<lambda>(j, _). Send j msg) (filter (\<lambda>(j, cs). j \<noteq> sock_of u a \<and> c \<in> set cs) (map (member_of u) as))"
  using assms(1)
proof (induction as)
  case (Cons b as)
  then show ?case using e
    by (auto simp: deliveries_def wants_def subscribed_def member_of_def conn_ready_def)
qed (simp add: deliveries_def)


text \<open>The manager's turn for the newest event: a text, or a registration.\<close>

lemma mgr_turn_event:
  assumes ready: "srv_ready n u as (es @ [e])" and a: "a \<in> set as" and live: "is_live (sv_events u) e"
    and e: "obj (sv_events u) e = \<lparr>ev_conn = a, ev_msg = Some body, ev_channel = c\<rparr>"
  shows "evqueue_peek u = Inr (Some e)" and "event_print (Some e) u = Inr (obj (sv_events u) e, body, obj (sv_conns u) a)"
proof -
  from ready have "queue_events u (es @ [e])" by (simp add: srv_ready_def)
  from evqueue_peek_rep [OF this] show "evqueue_peek u = Inr (Some e)" by simp
  have "is_live (sv_conns u) a" using ready a by (simp add: srv_ready_def conn_ready_def conn_ok_def)
  with live e show "event_print (Some e) u = Inr (obj (sv_events u) e, body, obj (sv_conns u) a)" by (simp add: event_print_def)
qed

lemma talk_turn:
  assumes ready: "srv_ready n (ch_srv s) as (es @ [e])" and a: "a \<in> set as" and live: "is_live (sv_events (ch_srv s)) e"
    and e: "obj (sv_events (ch_srv s)) e = \<lparr>ev_conn = a, ev_msg = Some body, ev_channel = c\<rparr>"
    and body: "\<not> c_strneq body ''$reg'' 4" "length body < CH_BUF_SIZE"
  shows "mgr_turn slack s = Inr (s\<lparr>ch_srv := (ch_srv s)\<lparr>sv_out := sv_out (ch_srv s) @
      deliveries (ch_srv s) e (event_text (sock_of (ch_srv s) a) body) as\<rparr>,
    ch_mgr := MgrWait, ch_sem := ch_sem s - 1, ch_handled := ch_handled s @ [e]\<rparr>)"
proof -
  let ?u = "ch_srv s" and ?m = "event_text (sock_of (ch_srv s) a) body"
  have cr: "conn_ready n ?u b" if "b \<in> set as" for b using ready that by (simp add: srv_ready_def)
  from ready obtain t where t: "get_conns ?u = Inr t" "conns_rep t as"
    by (auto simp: srv_ready_def elim: table_connsE)
  have "length (dec_int (sock_of ?u a)) \<le> 11" using cr [OF a] by (intro dec_int_length) (auto simp: conn_ready_def INT_MIN_def)
  then have "sprintf_fits slack (CH_BUF_SIZE + 100) ?m = Inr ()" using body(2) by (simp add: sprintf_fits_def event_text_def)
  then have d: "mgr_dispatch slack (Some e) ?u = Inr (MgrSend e ?m 0, ?u)"
    using mgr_turn_event(2) [OF ready a live e] body(1) by (simp add: mgr_dispatch_def sock_of_def)
  have "broadcast_ready ?u e as"
    using ready live cr a e by (auto simp: broadcast_ready_def srv_ready_def conn_ready_def conn_ok_def)
  from mgr_loop_broadcast [OF this, of 0 "cs_size t + 1" ?m] conns_rep_size [OF t(2)]
  have "mgr_loop (cs_size t + 1) (MgrSend e ?m 0) ?u = Inr (MgrWait, ?u\<lparr>sv_out := sv_out ?u @ deliveries ?u e ?m as\<rparr>)" by simp
  with mgr_turn_event(1) [OF ready a live e] d t(1) show ?thesis by (simp add: mgr_turn_def del: mgr_loop.simps)
qed

lemma register_turn:
  assumes ready: "srv_ready n (ch_srv s) as (es @ [e])" and a: "a \<in> set as" and live: "is_live (sv_events (ch_srv s)) e"
    and e: "obj (sv_events (ch_srv s)) e = \<lparr>ev_conn = a, ev_msg = Some body, ev_channel = c\<rparr>"
    and body: "c_strneq body ''$reg'' 4" and fit: "conn_ready (Suc n) (ch_srv s) a"
  shows "\<exists>t. mgr_turn slack s = Inr (s\<lparr>ch_srv := t, ch_mgr := MgrWait, ch_sem := ch_sem s - 1, ch_handled := ch_handled s @ [e]\<rparr>) \<and>
    srv_ready n t as (es @ [e]) \<and> sv_out t = sv_out (ch_srv s) \<and>
    member_of t a = (sock_of (ch_srv s) a, snd (member_of (ch_srv s) a) @ [c]) \<and>
    (\<forall>b. b \<noteq> a \<longrightarrow> member_of t b = member_of (ch_srv s) b)"
proof -
  let ?u = "ch_srv s"
  have sc: "sv_script ?u = []" using ready by (simp add: srv_ready_def)
  from ready obtain tab where tab: "get_conns ?u = Inr tab" "conns_rep tab as"
    by (auto simp: srv_ready_def elim: table_connsE)
  from fit obtain ch where ch: "cn_channels (obj (sv_conns ?u) a) = Some ch" "channels_fit (Suc n) ch"
    and rep: "channels_rep ch (channels_list ch)" and la: "is_live (sv_conns ?u) a"
    by (auto simp: conn_ready_def conn_ok_def)
  from channels_add_ok [OF rep ch(2), of c] obtain ch' where
    add: "channels_add (Some ch, []) c = Inr (0, Some ch', [])" and ch': "channels_rep ch' (channels_list ch @ [c])" "channels_fit n ch'" by blast
  let ?t = "?u\<lparr>sv_conns := (sv_conns ?u)[a := Some ((obj (sv_conns ?u) a)\<lparr>cn_channels := Some ch'\<rparr>)], sv_script := []\<rparr>"
  have d: "mgr_dispatch slack (Some e) ?u = Inr (MgrWait, ?t)"
    using mgr_turn_event(2) [OF ready a live e] body add ch(1) sc la e by (simp add: mgr_dispatch_def)
  have "get_conns ?t = Inr tab" using tab by (simp add: get_conns_def)
  then have turn: "mgr_turn slack s = Inr (s\<lparr>ch_srv := ?t, ch_mgr := MgrWait, ch_sem := ch_sem s - 1, ch_handled := ch_handled s @ [e]\<rparr>)"
    using mgr_turn_event(1) [OF ready a live e] d by (simp add: mgr_turn_def)
  have obj: "obj (sv_conns ?t) b = (if b = a then (obj (sv_conns ?u) a)\<lparr>cn_channels := Some ch'\<rparr> else obj (sv_conns ?u) b)" for b
    using la by (auto simp: obj_def is_live_less nth_list_update)
  have new: "conn_ready n ?t b" if "b \<in> set as" for b
  proof (cases "b = a")
    case True
    then show ?thesis using fit ch' obj [of a] channels_rep_list [OF ch'(1)] la
      by (auto simp: conn_ready_def conn_ok_def sock_of_def is_live_less)
  next
    case False
    have "conn_ready n ?u b" using ready that by (simp add: srv_ready_def)
    then show ?thesis using False obj [of b] by (simp add: conn_ready_def conn_ok_def sock_of_def)
  qed
  then have "\<forall>b\<in>set as. conn_ok ?t b" by (simp add: conn_ready_def)
  moreover have "live_count (sv_conns ?t) = live_count (sv_conns ?u)" using la by (simp add: live_count_update)
  ultimately have "srv_ready n ?t as (es @ [e])"
    using ready new by (auto simp: srv_ready_def table_conns_def queue_events_def split: option.splits)
  moreover have "member_of ?t a = (sock_of ?u a, snd (member_of ?u a) @ [c])"
    using ch(1) channels_rep_list [OF ch'(1)] obj [of a] by (simp add: member_of_def sock_of_def)
  moreover have "member_of ?t b = member_of ?u b" if "b \<noteq> a" for b
    using obj [of b] that by (simp add: member_of_def sock_of_def)
  ultimately show ?thesis using turn by (intro exI [of _ ?t]) simp
qed

lemma sends_map_members: "sends (map (\<lambda>(j, _). Send j m) xs) = map (\<lambda>(j, _). (j, m)) xs"
  by (induction xs) auto

lemma srv_ready_out: "srv_ready n (u\<lparr>sv_out := out\<rparr>) as es = srv_ready n u as es"
  by (auto simp: srv_ready_def table_conns_def conn_ready_def conn_ok_def sock_of_def queue_events_def split: option.splits)

lemma member_of_out: "member_of (u\<lparr>sv_out := out\<rparr>) = member_of u"
  by (simp add: member_of_def sock_of_def fun_eq_iff)

lemma map_one_changed:
  assumes "i < length as" and "distinct as" and "\<And>b. b \<noteq> as ! i \<Longrightarrow> g b = f b"
  shows "map g as = (map f as)[i := g (as ! i)]"
  using assms by (intro nth_equalityI) (auto simp: nth_list_update nth_eq_iff_index_eq)

text \<open>One event of the club: a member enters; a member says something; a member asks for a channel.\<close>

lemma enters_turn:
  assumes quiet: "quiet (Suc n) s r" and ok: "club_ok (Enters k) r"
  shows "\<exists>t. chan_turn slack junk (turn_of (Enters k)) s = Inr t \<and> quiet n t (fst (club_step (Enters k) r)) \<and>
    sends (sv_out (ch_srv t)) = sends (sv_out (ch_srv s)) @ snd (club_step (Enters k) r)"
proof -
  from quiet obtain as es where ready: "srv_ready (Suc n) (ch_srv s) as es" and rcv: "ch_rcv s = map Some as"
    and r: "map (member_of (ch_srv s)) as = r" and pc: "ch_mgr s = MgrWait" "ch_sem s = 0" by (auto simp: quiet_def)
  from r have "length r = length as" by auto
  with ok have k: "0 \<le> k" "k \<le> INT_MAX" "length as < MAX_CONNS" by simp_all
  from accept_turn [OF ready k] obtain t a where
    "main_accept k True (length as) (ch_srv s) = Inr ([Some a], t)" "srv_ready n t (as @ [a]) es"
    "map (member_of t) (as @ [a]) = map (member_of (ch_srv s)) as @ [(k, [])]" "sv_out t = sv_out (ch_srv s)" by blast
  moreover from this have "quiet n (s\<lparr>ch_srv := t, ch_rcv := ch_rcv s @ [Some a]\<rparr>) (r @ [(k, [])])"
    unfolding quiet_def using rcv r pc by (intro conjI exI [of _ "as @ [a]"] exI [of _ es]) simp_all
  ultimately show ?thesis using rcv
    by (intro exI [of _ "s\<lparr>ch_srv := t, ch_rcv := ch_rcv s @ [Some a]\<rparr>"]) (simp add: chan_turn_def)
qed

lemma says_turn:
  assumes ready: "srv_ready n (ch_srv s) as (es @ [e])" and a: "a \<in> set as" and live: "is_live (sv_events (ch_srv s)) e"
    and e: "obj (sv_events (ch_srv s)) e = \<lparr>ev_conn = a, ev_msg = Some body, ev_channel = int m\<rparr>"
    and body: "\<not> c_strneq body ''$reg'' 4" "length body < CH_BUF_SIZE"
    and s: "ch_rcv s = map Some as" "map (member_of (ch_srv s)) as = r" "ch_sem s = 1"
    and i: "r ! i = (sock_of (ch_srv s) a, ms)"
  shows "\<exists>t. mgr_turn slack s = Inr t \<and> quiet n t (fst (club_step (Tells i m body) r)) \<and>
    sends (sv_out (ch_srv t)) = sends (sv_out (ch_srv s)) @ snd (club_step (Tells i m body) r)"
proof -
  let ?u = "ch_srv s"
  let ?out = "sv_out ?u @ deliveries ?u e (event_text (sock_of ?u a) body) as"
  let ?t = "s\<lparr>ch_srv := ?u\<lparr>sv_out := ?out\<rparr>, ch_mgr := MgrWait, ch_sem := ch_sem s - 1, ch_handled := ch_handled s @ [e]\<rparr>"
  have run: "mgr_turn slack s = Inr ?t" by (rule talk_turn [OF ready a live e body])
  have "\<forall>b\<in>set as. conn_ready n ?u b" using ready by (simp add: srv_ready_def)
  from deliveries_members [OF this e] s(2)
  have "sends (deliveries ?u e (event_text (sock_of ?u a) body) as) = snd (club_step (Tells i m body) r)"
    using body i by (simp add: sends_map_members)
  moreover have "quiet n ?t r" using ready s by (auto simp: quiet_def srv_ready_out member_of_out)
  ultimately show ?thesis using run body i by simp
qed

lemma asks_turn:
  assumes ready: "srv_ready n (ch_srv s) as (es @ [e])" and i: "i < length as" and live: "is_live (sv_events (ch_srv s)) e"
    and e: "obj (sv_events (ch_srv s)) e = \<lparr>ev_conn = as ! i, ev_msg = Some body, ev_channel = int m\<rparr>"
    and body: "c_strneq body ''$reg'' 4" and fit: "conn_ready (Suc n) (ch_srv s) (as ! i)"
    and s: "ch_rcv s = map Some as" "map (member_of (ch_srv s)) as = r" "ch_sem s = 1"
  shows "\<exists>t. mgr_turn slack s = Inr t \<and> quiet n t (fst (club_step (Tells i m body) r)) \<and>
    sends (sv_out (ch_srv t)) = sends (sv_out (ch_srv s)) @ snd (club_step (Tells i m body) r)"
proof -
  let ?a = "as ! i"
  from i have a: "?a \<in> set as" by simp
  from register_turn [OF ready a live e body fit, of slack] obtain u where
    run: "mgr_turn slack s = Inr (s\<lparr>ch_srv := u, ch_mgr := MgrWait, ch_sem := ch_sem s - 1, ch_handled := ch_handled s @ [e]\<rparr>)"
    and u: "srv_ready n u as (es @ [e])" "sv_out u = sv_out (ch_srv s)"
      "member_of u ?a = (sock_of (ch_srv s) ?a, snd (member_of (ch_srv s) ?a) @ [int m])"
      "\<And>b. b \<noteq> ?a \<Longrightarrow> member_of u b = member_of (ch_srv s) b" by auto
  have "distinct as" using ready by (simp add: srv_ready_def table_conns_def)
  from map_one_changed [OF i this u(4)] u(3) s(2)
  have "map (member_of u) as = r[i := (sock_of (ch_srv s) ?a, snd (member_of (ch_srv s) ?a) @ [int m])]" by simp
  moreover have "r ! i = (sock_of (ch_srv s) ?a, snd (member_of (ch_srv s) ?a))"
    using i by (simp add: s(2) [symmetric]) (simp add: member_of_def)
  ultimately show ?thesis using run u(1,2) s(1,3) body by (auto simp: quiet_def)
qed

lemma club_turn:
  assumes quiet: "quiet (Suc n) s r" and ok: "club_ok ev r" and junk: "length junk = CH_BUF_SIZE"
  shows "\<exists>t. chan_turn slack junk (turn_of ev) s = Inr t \<and> quiet n t (fst (club_step ev r)) \<and>
    sends (sv_out (ch_srv t)) = sends (sv_out (ch_srv s)) @ snd (club_step ev r)"
proof (cases ev)
  case (Enters k)
  with enters_turn [OF quiet] ok show ?thesis by simp
next
  case (Tells i m body)
  from quiet obtain as es where ready: "srv_ready (Suc n) (ch_srv s) as es" and rcv: "ch_rcv s = map Some as"
    and r: "map (member_of (ch_srv s)) as = r" and pc: "ch_mgr s = MgrWait" "ch_sem s = 0" by (auto simp: quiet_def)
  let ?a = "as ! i" and ?e = "length (sv_events (ch_srv s))"
  from r have "length r = length as" by auto
  with ok Tells have i: "i < length as" and msg: "0 < m" "int m \<le> INT_MAX" "NUL \<notin> set body"
    "length (dec m @ SPACE # body) < CH_BUF_SIZE" by auto
  then have a: "?a \<in> set as" and len: "length body < CH_BUF_SIZE" by simp_all
  from receive_turn [OF ready a junk msg] obtain t where
    t: "receiver_iteration ?a junk (RxData (dec m @ SPACE # body)) (ch_srv s) = Inr (True, t)"
      "srv_ready n t as (es @ [?e])" "conn_ready (Suc n) t ?a" "\<forall>b. member_of t b = member_of (ch_srv s) b" "sv_out t = sv_out (ch_srv s)"
      "is_live (sv_events t) ?e" "obj (sv_events t) ?e = \<lparr>ev_conn = ?a, ev_msg = Some body, ev_channel = int m\<rparr>" by blast
  let ?s = "s\<lparr>ch_srv := t, ch_sem := ch_sem s + 1\<rparr>"
  have turn: "chan_turn slack junk (turn_of ev) s = mgr_turn slack ?s" using Tells rcv i t(1) by (simp add: chan_turn_def)
  have rt: "map (member_of t) as = r" using t(4) r by (metis map_ext)
  then have ri: "r ! i = (sock_of t ?a, snd (member_of t ?a))" using i by (auto simp: member_of_def)
  show ?thesis
  proof (cases "c_strneq body ''$reg'' 4")
    case False
    from says_turn [of n ?s as es ?e ?a body m r i "snd (member_of t ?a)" slack] t a False len rcv rt ri pc turn Tells
    show ?thesis by simp
  next
    case True
    from asks_turn [of n ?s as es ?e i body m r slack] t i True rcv rt pc turn Tells show ?thesis by simp
  qed
qed


section \<open>The server from its start\<close>

lemma chan_main_quiet:
  assumes "chan_main [] create ret = Some (s, b)" and "n < 2 ^ 40"
  shows "quiet n s [] \<and> sv_out (ch_srv s) = []"
proof -
  have m: "manager_create [] = (Some \<lparr>m_conns = Some \<lparr>cs_items = replicate 1000 None, cs_size = 0, cs_cap = 1000\<rparr>, m_q_idx = 0,
      m_q = Some \<lparr>evq_events = replicate 1000 None, evq_size = 0, evq_cap = 1000\<rparr>\<rparr>, [])"
    by (simp add: manager_create_def evqueue_create_def conns_create_def alloc_defs)
  from assms(1) have s: "s = \<lparr>ch_srv = \<lparr>sv_conns = [], sv_events = [], sv_mgr = the (fst (manager_create [])), sv_script = [], sv_out = []\<rparr>,
      ch_sem = 0, ch_mgr = MgrWait, ch_rcv = [], ch_handled = []\<rparr>"
    by (auto simp: chan_main_def m split: if_splits)
  have "srv_ready n (ch_srv s) [] []"
    using assms(2) by (simp add: s m srv_ready_def table_conns_def queue_events_def conns_rep_iff evq_rep_iff evq_fit_def
        PTR_SIZE_def PTRDIFF_MAX_def SIZE_MOD_def live_count_def holds_def)
  then show ?thesis by (auto simp: quiet_def s)
qed

text \<open>One event is a turn, and the turn a run of the threads.\<close>

definition club_turned :: "(nat \<Rightarrow> nat) \<Rightarrow> char list \<Rightarrow> club_event \<Rightarrow> chan \<Rightarrow> chan \<Rightarrow> bool" where
  "club_turned slack junk ev s t \<longleftrightarrow> chan_turn slack junk (turn_of ev) s = Inr t \<and> (chan_step slack)\<^sup>*\<^sup>* s t"

definition club_rel :: "char list \<Rightarrow> nat \<Rightarrow> chan \<Rightarrow> club \<Rightarrow> bool" where
  "club_rel junk n s r \<longleftrightarrow> quiet n s r \<and> length junk = CH_BUF_SIZE"

interpretation club: simulation club_ok club_step "club_turned slack junk" "\<lambda>s. sends (sv_out (ch_srv s))" "club_rel junk" "\<lambda>_. 1"
  for slack junk
proof unfold_locales
  fix ev n s r
  assume "club_rel junk (1 + n) s r" and ok: "club_ok ev r"
  then have q: "quiet (Suc n) s r" and junk: "length junk = CH_BUF_SIZE" by (simp_all add: club_rel_def)
  from club_turn [OF q ok junk, of slack] obtain t where
    t: "chan_turn slack junk (turn_of ev) s = Inr t" "quiet n t (fst (club_step ev r))"
      "sends (sv_out (ch_srv t)) = sends (sv_out (ch_srv s)) @ snd (club_step ev r)" by blast
  have pc: "ch_mgr s = MgrWait" and "length (ch_rcv s) = length r" using q by (auto simp: quiet_def)
  then have "i < length (ch_rcv s)" if "turn_of ev = Sends i d" for i d using ok that by (cases ev) auto
  with chan_turn_run [OF pc junk t(1)] have "club_turned slack junk ev s t" using t(1) by (auto simp: club_turned_def)
  with t junk show "\<exists>t. club_turned slack junk ev s t \<and> club_rel junk n t (fst (club_step ev r)) \<and>
      sends (sv_out (ch_srv t)) = sends (sv_out (ch_srv s)) @ snd (club_step ev r)"
    by (auto simp: club_rel_def)
qed

lemma club_turns:
  "steps_along (club_turned slack junk) evs s t \<Longrightarrow>
     chan_turns slack junk (map turn_of evs) s = Inr t \<and> (chan_step slack)\<^sup>*\<^sup>* s t"
  by (induction evs arbitrary: s) (auto simp: club_turned_def intro: rtranclp_trans)

text \<open>
  C7: The channel server refines the club. Started with memory available, and scheduled so that the manager handles
  every message before the next one arrives, it takes every sequence of fewer than \<open>2 ^ 40\<close> connections,
  registrations and messages without a fault, whatever its buffers hold: its table lists the members with the
  channels they have registered for, and it has sent exactly the messages of the club, in order. The
  schedule is a run of its threads.
\<close>

theorem channels_refine_club:
  assumes "chan_main [] 0 ret = Some (s, started)" and "club_run evs [] = Some (r, out)" and "length evs < 2 ^ 40"
    and "length junk = CH_BUF_SIZE"
  shows "\<exists>t. chan_turns slack junk (map turn_of evs) s = Inr t \<and> (chan_step slack)\<^sup>*\<^sup>* s t \<and>
    chan_view t = r \<and> sends (sv_out (ch_srv t)) = out"
proof -
  from chan_main_quiet [OF assms(1,3)] assms(4) have "club_rel junk (sum_list (map (\<lambda>_. 1) evs) + 0) s []"
    and "sv_out (ch_srv s) = []" by (simp_all add: club_rel_def sum_list_triv)
  with club.run_simulates [OF assms(2), of junk 0 s slack] show ?thesis
    by (auto simp: club_rel_def dest: quiet_view club_turns)
qed

definition demo_club :: "club_event list" where
  "demo_club = [Enters 5, Enters 6, Tells 0 4 ''$reg'', Tells 1 4 ''hi'', Tells 0 4 ''yo'']"

theorem channels_refine_club_witness:
  "\<exists>s t. chan_main [] 0 (\<lambda>_. 3) = Some (s, True) \<and> chan_turns (\<lambda>_. 0) demo_junk (map turn_of demo_club) s = Inr t \<and>
     chan_view t = [(5, [4]), (6, [])] \<and> sends (sv_out (ch_srv t)) = [(5, ''[6] hi'')]"
proof -
  have d: "dec 4 = ''4''" "dec_int 6 = ''6''" by (simp_all add: dec.simps dec_int_def char_of_def bit_0)
  have run: "club_run demo_club [] = Some ([(5, [4]), (6, [])], [(5, ''[6] hi'')])"
    by (simp add: demo_club_def MAX_CONNS_def INT_MAX_def CH_BUF_SIZE_def c_strneq_def d event_text_def)
  obtain s where s: "chan_main [] 0 (\<lambda>_. 3) = Some (s, True)"
    by (simp add: chan_main_def channel_setup_def manager_create_def evqueue_create_def conns_create_def alloc_defs)
  have "length demo_club < 2 ^ 40" "length demo_junk = CH_BUF_SIZE" by (simp_all add: demo_club_def demo_junk_def)
  from channels_refine_club [OF s run this, of "\<lambda>_. 0"] s show ?thesis by blast
qed

end
