(* ===== verification/Address_Resolution.thy ===== *)
theory Address_Resolution
  imports Inet
begin

text \<open>
  \<^verbatim>\<open>networking/address_resolution/client.c\<close>: the program asks \<open>getaddrinfo\<close> for the addresses of
  \<open>localhost\<close> and prints each of them. The list it gets is an argument: an entry has its
  family and the bytes of its socket address. Every address is taken to be a \<open>sockaddr_in\<close>, whatever its
  family.
\<close>

section \<open>The program\<close>

record addrinfo =
  ai_family :: int
  ai_addr :: octets

definition ADDR_BUF_SIZE :: nat where "ADDR_BUF_SIZE = 500"

text \<open>\<open>sin_addr\<close> of a \<open>sockaddr_in\<close>: four bytes behind the family and the port.\<close>

definition sin_addr :: "octets \<Rightarrow> octets res" where
  "sin_addr sa = (if 8 \<le> length sa then Inr (take 4 (drop 4 sa)) else Inl OutOfBounds)"

definition addr_line :: "string \<Rightarrow> int \<Rightarrow> string" where
  "addr_line buf family = ''addrinfo: '' @ buf @ '', family: '' @ dec_int family @ [NEWLINE]"

text \<open>
  One iteration: \<open>buf\<close> is declared in the loop, and the result of \<open>inet_ntop\<close> is not looked at, so
  a failure would print an indeterminate buffer.
\<close>

definition addr_entry :: "addrinfo \<Rightarrow> string res" where
  "addr_entry rp =
     bindE (sin_addr (ai_addr rp)) (\<lambda>addr.
     case inet_ntop4 addr ADDR_BUF_SIZE of
       None \<Rightarrow> Inl Uninitialised
     | Some buf \<Rightarrow> Inr (addr_line buf (ai_family rp)))"

fun addr_loop :: "addrinfo list \<Rightarrow> string list res" where
  "addr_loop [] = Inr []"
| "addr_loop (rp # rps) = bindE (addr_entry rp) (\<lambda>l. bindE (addr_loop rps) (\<lambda>ls. Inr (l # ls)))"

text \<open>What the program asks for: datagram addresses of either family (the other hints are cleared).\<close>

record addr_hints =
  hint_family :: int
  hint_socktype :: int

definition resolve_hints :: addr_hints where
  "resolve_hints = \<lparr>hint_family = AF_UNSPEC, hint_socktype = SOCK_DGRAM\<rparr>"

text \<open>
  \<open>main\<close>: \<open>getaddrinfo\<close> is a parameter, from host, service and hints to its result and the list
  of addresses; \<open>None\<close> is \<open>exit (EXIT_FAILURE)\<close>.
\<close>

definition resolve_main :: "(string \<Rightarrow> string \<Rightarrow> addr_hints \<Rightarrow> int \<times> addrinfo list) \<Rightarrow> string list option res" where
  "resolve_main getaddrinfo =
     (let (s, result) = getaddrinfo ''localhost'' ''80'' resolve_hints
      in if s \<noteq> 0 then Inr None else bindE (addr_loop result) (\<lambda>ls. Inr (Some ls)))"

text \<open>What \<open>getaddrinfo\<close> promises of an entry: the size of the address fits its family.\<close>

definition entry_ok :: "addrinfo \<Rightarrow> bool" where
  "entry_ok rp \<longleftrightarrow> (ai_family rp = AF_INET \<and> length (ai_addr rp) = 16) \<or>
     (ai_family rp = AF_INET6 \<and> length (ai_addr rp) = 28)"

lemma addr_entry_ok:
  assumes "entry_ok rp"
  shows "addr_entry rp = Inr (addr_line (dotted (take 4 (drop 4 (ai_addr rp)))) (ai_family rp))"
proof -
  have len: "length (take 4 (drop 4 (ai_addr rp))) = 4" and "8 \<le> length (ai_addr rp)"
    using assms by (auto simp: entry_ok_def)
  with dotted_length [OF len] show ?thesis
    by (simp add: addr_entry_def sin_addr_def inet_ntop4_def ADDR_BUF_SIZE_def)
qed

lemma addr_loop_ok:
  "\<forall>rp\<in>set rps. entry_ok rp \<Longrightarrow>
     addr_loop rps = Inr (map (\<lambda>rp. addr_line (dotted (take 4 (drop 4 (ai_addr rp)))) (ai_family rp)) rps)"
  by (induction rps) (auto simp: addr_entry_ok)

section \<open>Properties\<close>

text \<open>
  C28: the program prints one line per entry, in the order of the list, and the address in the
  line of an IPv4 entry is its address: \<open>inet_pton\<close> reads back the four bytes of \<open>sin_addr\<close>.
\<close>

theorem listing_roundtrip:
  assumes "getaddrinfo ''localhost'' ''80'' resolve_hints = (0, rps)" and "\<forall>rp\<in>set rps. entry_ok rp"
  shows "\<exists>bufs. resolve_main getaddrinfo = Inr (Some (map (\<lambda>(buf, rp). addr_line buf (ai_family rp)) (zip bufs rps))) \<and>
    map inet_pton4 bufs = map (\<lambda>rp. Some (take 4 (drop 4 (ai_addr rp)))) rps"
proof (intro exI conjI)
  let ?addr = "\<lambda>rp. take 4 (drop 4 (ai_addr rp))"
  let ?bufs = "map (\<lambda>rp. dotted (?addr rp)) rps"
  have "map (\<lambda>(buf, rp). addr_line buf (ai_family rp)) (zip ?bufs rps) =
      map (\<lambda>rp. addr_line (dotted (?addr rp)) (ai_family rp)) rps"
    by (induction rps) auto
  with assms(1) addr_loop_ok [OF assms(2)]
  show "resolve_main getaddrinfo = Inr (Some (map (\<lambda>(buf, rp). addr_line buf (ai_family rp)) (zip ?bufs rps)))"
    by (simp add: resolve_main_def)
  have "length (?addr rp) = 4" if "rp \<in> set rps" for rp using assms(2) that by (auto simp: entry_ok_def)
  then show "map inet_pton4 ?bufs = map (\<lambda>rp. Some (?addr rp)) rps" by (simp add: inet_pton4_dotted)
qed

theorem listing_roundtrip_witness:
  "\<exists>buf. resolve_main (\<lambda>_ _ _. (0, [\<lparr>ai_family = AF_INET, ai_addr = [2, 0, 0, 80, 127, 0, 0, 1] @ replicate 8 0\<rparr>])) =
       Inr (Some [addr_line buf AF_INET]) \<and> inet_pton4 buf = Some [127, 0, 0, 1]"
proof -
  let ?rp = "\<lparr>ai_family = AF_INET, ai_addr = [2, 0, 0, 80, 127, 0, 0, 1] @ replicate 8 0\<rparr>"
  have "\<forall>rp\<in>set [?rp]. entry_ok rp" by (simp add: entry_ok_def)
  with listing_roundtrip [of "\<lambda>_ _ _. (0, [?rp])" "[?rp]"] obtain bufs where
    b: "resolve_main (\<lambda>_ _ _. (0, [?rp])) = Inr (Some (map (\<lambda>(buf, rp). addr_line buf (ai_family rp)) (zip bufs [?rp])))"
      "map inet_pton4 bufs = map (\<lambda>rp. Some (take 4 (drop 4 (ai_addr rp)))) [?rp]" by blast
  from b(2) obtain buf where "bufs = [buf]" "inet_pton4 buf = Some [127, 0, 0, 1]" by auto
  with b(1) show ?thesis by auto
qed

text \<open>
  C39: the address of an IPv6 entry is never printed, wherever the entry stands in the list: what is
  printed in its place is the flow label, so with the flow labels \<open>getaddrinfo\<close> leaves 0 the line of
  every IPv6 entry shows \<open>0.0.0.0\<close>.
\<close>

theorem ipv6_shown_as_zero:
  assumes "getaddrinfo ''localhost'' ''80'' resolve_hints = (0, rps)" and "\<forall>rp\<in>set rps. entry_ok rp"
    and "\<forall>rp\<in>set rps. ai_family rp = AF_INET6 \<longrightarrow> take 4 (drop 4 (ai_addr rp)) = [0, 0, 0, 0]"
  shows "\<exists>ls. resolve_main getaddrinfo = Inr (Some ls) \<and> length ls = length rps \<and>
    (\<forall>k<length rps. ai_family (rps ! k) = AF_INET6 \<longrightarrow> ls ! k = ''addrinfo: 0.0.0.0, family: 10'' @ [NEWLINE])"
proof -
  have "dec 0 = ''0''" "dec_int AF_INET6 = ''10''"
    by (simp_all add: dec.simps dec_int_def AF_INET6_def char_of_def bit_0)
  then have "addr_line (dotted [0, 0, 0, 0]) AF_INET6 = ''addrinfo: 0.0.0.0, family: 10'' @ [NEWLINE]"
    by (simp add: addr_line_def)
  with assms addr_loop_ok [OF assms(2)] show ?thesis by (simp add: resolve_main_def)
qed

text \<open>The usual answer for \<open>localhost\<close>: an IPv6 and an IPv4 entry.\<close>

definition localhost_entries :: "addrinfo list" where
  "localhost_entries =
     [\<lparr>ai_family = AF_INET6, ai_addr = [10, 0, 0, 80, 0, 0, 0, 0] @ replicate 15 0 @ [1] @ replicate 4 0\<rparr>,
      \<lparr>ai_family = AF_INET, ai_addr = [2, 0, 0, 80, 127, 0, 0, 1] @ replicate 8 0\<rparr>]"

theorem ipv6_shown_as_zero_witness:
  "\<exists>l. resolve_main (\<lambda>_ _ _. (0, localhost_entries)) = Inr (Some [''addrinfo: 0.0.0.0, family: 10'' @ [NEWLINE], l])"
proof -
  have "\<forall>rp\<in>set localhost_entries. entry_ok rp"
    "\<forall>rp\<in>set localhost_entries. ai_family rp = AF_INET6 \<longrightarrow> take 4 (drop 4 (ai_addr rp)) = [0, 0, 0, 0]"
    by (simp_all add: localhost_entries_def entry_ok_def AF_INET_def AF_INET6_def)
  from ipv6_shown_as_zero [OF refl this] obtain ls where
    r: "resolve_main (\<lambda>_ _ _. (0, localhost_entries)) = Inr (Some ls)" and "length ls = 2"
      and "ls ! 0 = ''addrinfo: 0.0.0.0, family: 10'' @ [NEWLINE]"
    by (auto simp: localhost_entries_def dest!: spec [of _ 0])
  moreover from this(2) obtain a b where "ls = [a, b]" by (auto simp: length_Suc_conv numeral_2_eq_2)
  ultimately show ?thesis by (auto simp: localhost_entries_def)
qed

end
