(* ===== verification/Spec2Isabelle.thy ===== *)
theory Spec2Isabelle
  imports Worker_Pool Chat_Server Channel_Properties Timer_Loop Relay_Server Retry_Clients Simple_Servers Net_Setup
    Chat_Session Broadcast_Session Channel_Session Address_Resolution
begin

text \<open>
  A verification library for the C programs of this repository: small network servers built from
  \<open>epoll\<close>, threads, mutexes and semaphores, their clients, and a timer array of a game loop.
  Names in parentheses are paths under \<^verbatim>\<open>src/\<close>.

  \<^bold>\<open>The machine.\<close> \<open>C_Base\<close> has the values and effects C programs share: results that are a
  value or a fault (null pointer, use after free, access out of bounds, uninitialised slot, range
  error), stores of objects whose addresses are never reused, arrays of slots that remember which
  were written, with the representation predicate \<open>block_rep\<close> all tables share, \<open>malloc\<close> and
  \<open>realloc\<close> with a script of outcomes (exhausted: success), \<open>size_t\<close> arithmetic modulo \<open>2 ^ 64\<close>.
  \<open>C_Strings\<close> has NUL-terminated strings, \<open>atoi\<close>, \<open>strncmp\<close> and the decimal conversions, \<open>Inet\<close>
  the text form of IPv4 addresses. \<open>Posix\<close> has what \<open>recv\<close> returns, the trace of sends and closes, and
  reachability. \<open>Interfaces\<close> has the locales: invariants of step relations, FIFO queues, growing
  arrays, refinements of an abstract machine; each is interpreted on the definitions of the components
  that provide it.

  \<^bold>\<open>Programs and theories.\<close>
  \<^item> \<open>Linked_Queue\<close> (\<^verbatim>\<open>networking/epoll_example/queue.c\<close>): \<open>create_node\<close>, \<open>queue_init\<close>, \<open>queue_add\<close>,
    \<open>queue_pop\<close> over a store of nodes, and the unit test. It refines a FIFO list.
  \<^item> \<open>Worker_Pool\<close> (\<^verbatim>\<open>networking/epoll_example/server.c\<close>): the event loop and 24 workers as the step
    relation \<open>pool_step\<close>; the queue is used through its contract, \<open>pool_main\<close> is the start. A worker whose
    thread could not be created, which \<open>main\<close> does not notice, is there and never moves. Mutual exclusion,
    no lost wakeup, conservation of the tasks, no fault in a critical section, and the
    workers empty the queue within a number of steps that is computed from the state.
  \<^item> \<open>Chat_Clients\<close>, \<open>Chat_Server\<close> (\<^verbatim>\<open>networking/epoll_chat_server/server.c\<close>): the table of clients
    with every operation, and the handling of requests, \<open>main_loop\<close> being the event loop over a
    list of events. The table invariant over all runs with the absence of leaked clients, naming,
    trimming against a reference function, broadcast, and the faults.
  \<^item> \<open>Chat_Session\<close> (the same server with \<^verbatim>\<open>networking/epoll_chat_server/client.c\<close>): \<open>chat_main\<close>; the
    server refines a room, a list of sockets with names, in which clients join, say lines and leave,
    by closing or by saying "exit", as long as the one that leaves joined last; any other departure
    is a use after free. The words typed into a client, split as \<open>scanf\<close> does, are what the other clients print.
  \<^item> \<open>Channel_Store\<close>, \<open>Channel_Table\<close>, \<open>Channel_Events\<close>, \<open>Channel_Server\<close>, \<open>Channel_Properties\<close>
    (\<^verbatim>\<open>networking/threaded_chat_server_with_channels/server.c\<close>): data and operations, what they do to
    well-formed data (message parser, channels, connections, event queue), and the threads as the
    step relation \<open>chan_step\<close>. \<open>Queue\<close> and its functions are called \<open>EvQueue\<close> and \<open>evqueue_\<close> here.
  \<^item> \<open>Channel_Session\<close>: that server with a manager that handles an event before the next message is read
    (\<open>chan_turn\<close>, shown to be a run of \<open>chan_step\<close>). From \<open>chan_main\<close> on it refines a club, a list of members
    with their channels; under any other schedule events are lost, which is a property too.
  \<^item> \<open>Relay_Server\<close> (\<^verbatim>\<open>networking/client_client_over_server/server.c\<close>): registration and one worker
    per table slot, without any lock: \<open>relay_step\<close>. The two writes of \<open>items[len++] = conn\<close> are steps of
    their own, in either order; a slot that has not been written holds what \<open>malloc\<close> left there (\<open>junk\<close>);
    every message carries the worker that sent it, so that what one worker sends during a broadcast can be stated in
    any interleaving. The table may be null, since \<open>main\<close> (\<open>relay_main\<close>) does not test it.
  \<^item> \<open>Broadcast_Server\<close> (\<^verbatim>\<open>networking/inte_server_broadcast_with_controller/server.c\<close>): sender,
    acceptor and controller threads: \<open>bcast_step\<close>; \<open>quiet_step\<close> is what happens between two messages of the
    controller.
  \<^item> \<open>Broadcast_Session\<close> (the same directory, with \<^verbatim>\<open>controller.c\<close> and \<^verbatim>\<open>client.c\<close>): the starts
    \<open>bcast_main\<close> and \<open>controller_main\<close>, the language of the texts the server sends, and that a client
    stops exactly on the exit texts of it.
  \<^item> \<open>Retry_Clients\<close> (the \<^verbatim>\<open>client.c\<close> of \<^verbatim>\<open>inte_server_broadcast_with_controller\<close>,
    \<^verbatim>\<open>inet_server_broadcast\<close> and \<^verbatim>\<open>c_client_go_server_tcp\<close>): reconnection loops over a list of tries, in which
    a session ends, stops the client or waits in \<open>recv\<close>; also the chat client (\<^verbatim>\<open>networking/epoll_chat_server/client.c\<close>); each with its \<open>main\<close>.
  \<^item> \<open>Simple_Servers\<close> (\<^verbatim>\<open>networking/inet_server_broadcast/src/server.c\<close>,
    \<^verbatim>\<open>networking/c_server_go_client_tcp/server.c\<close>): the counter broadcast as \<open>counter_step\<close>, the TCP
    server as a function of the connections it accepts, the threads it could create and what its clients do
    (\<open>tcp_main\<close>), with the joins that wait for them.
  \<^item> \<open>Net_Setup\<close>: the calls with which each program opens its socket, and the tests on their results.
  \<^item> \<open>Address_Resolution\<close> (\<^verbatim>\<open>networking/address_resolution/client.c\<close>): what is printed for a result of
    \<open>getaddrinfo\<close>, which is an argument.
  \<^item> \<open>Timer_Array\<close>, \<open>Timer_Loop\<close> (\<^verbatim>\<open>game_loops/simple_array_based_timer/main.c\<close>): the array and the
    tick; it refines a list of items with the milliseconds they have left.

  \<^bold>\<open>Conventions.\<close> A function of the source is a definition of its name where Isabelle allows it; a
  loop whose bound is fixed when it starts is a fold over its indices, a loop with \<open>break\<close> a
  recursive function over the remaining indices or iterations, a thread a set of rules of an
  inductive step relation with explicit program points. What the environment decides (results of
  \<open>recv\<close>, \<open>accept\<close>, \<open>epoll_ctl\<close>, \<open>malloc\<close>, the length of a tick) is an argument or a free variable
  of a rule, so a theorem holds for every choice of it. Endless loops are a step relation, or a
  function over the finite list of what has happened so far; every recursive function is total.
  The only fuel is that of \<open>mgr_loop\<close>, one iteration per connection and one for the last test, and
  \<open>mgr_loop_broadcast\<close> shows that it is enough. The programs start with \<open>main\<close> functions that are
  given the results of the calls they make. \<open>slack\<close> is the number of padding bytes behind an automatic array; the C
  standard promises none, and theorems about an overflow take none.

  \<^bold>\<open>What the lemmas show.\<close> For each table or queue: a representation predicate (\<open>queue_ok\<close>,
  \<open>table_rep\<close>, \<open>conns_rep\<close>, \<open>evq_rep\<close>, \<open>arr_rep\<close>, \<open>relay_rep\<close>) that lists the values held, and one
  lemma per operation saying what it does to that list on every branch, failed allocations
  included. For each server: an invariant preserved by every step (\<open>pool_inv\<close>, \<open>chat_inv\<close>,
  \<open>chan_inv\<close>, \<open>relay_inv\<close>, \<open>bcast_inv\<close>, \<open>says_inv\<close>, \<open>numbers_inv\<close>). For the two chat servers and
  the timers: an abstract machine (the room, the club, the list of timers with their remaining
  milliseconds), one lemma per kind of event, and the interpretation of \<open>simulation\<close> that lifts it to runs. The properties, numbered C1 onwards in order of importance,
  follow from these; several state faults the code has, for the inputs that reach them.

  \<^bold>\<open>Not modelled.\<close> Text printed on the terminal and \<open>perror\<close>. Simultaneous unsynchronised accesses, which the C memory model
  leaves undefined: steps are interleaved, and a step is a critical section, one call of a table
  operation, or one iteration of a loop that runs without the mutex. The reuse of freed
  addresses. The end of a process by \<open>SIGPIPE\<close>, except in the relay: the servers call \<open>send\<close> without
  \<open>MSG_NOSIGNAL\<close>, so a peer that has broken its connection can end them at any \<open>send\<close>. Where it is not modelled,
  a killed process is one that takes no further step: what is stated of reachable states holds up to
  then, what is said about a run to its end is about a process that lives to see it. Partial sends: the result of \<open>send\<close> is only printed by the programs. What follows an
  endless loop in a \<open>main\<close> (joins, destructors), since it is never reached. Context structures that only
  carry arguments to a thread: their fields are the arguments of its rules. Everything written in Go.
\<close>

end
